(* ===== verification/Sqlite_Prelude.thy ===== *)
theory Sqlite_Prelude
  imports Main "HOL-Library.Word" "HOL-Library.Monad_Syntax"
begin

text \<open>
  Shared vocabulary of the development: the machine integers of the C source as words, the
  result codes, bounded reads of a byte buffer, the allocation oracle, and the generic lemmas on
  words and lists that the component theories use.

  \<^item> \<open>u8\<close>, \<open>u16\<close>, \<open>u32\<close>, \<open>u64\<close> are the typedefs of the same names in
    \<^verbatim>\<open>sqlite3.c\<close>.
  \<^item> A pointer into a byte buffer is the list of the bytes from that address to the end of the
    buffer; a read past the end is \<open>None\<close>, so a result \<open>Some\<close> says that every byte
    the C code touches is inside the buffer.
  \<^item> An allocator is an oracle \<open>nat \<Rightarrow> bool\<close>: entry \<open>k\<close> says whether the
    \<open>k\<close>-th request succeeds. Definitions that allocate thread the number of requests made so
    far.
\<close>

unbundle bit_operations_syntax

type_synonym u8 = "8 word"
type_synonym u16 = "16 word"
type_synonym u32 = "32 word"
type_synonym u64 = "64 word"

text \<open>Result codes, with the values of \<^verbatim>\<open>sqlite3.h\<close>.\<close>

type_synonym rc = nat

abbreviation (input) SQLITE_OK :: rc where "SQLITE_OK \<equiv> 0"
abbreviation (input) SQLITE_ERROR :: rc where "SQLITE_ERROR \<equiv> 1"
abbreviation (input) SQLITE_BUSY :: rc where "SQLITE_BUSY \<equiv> 5"
abbreviation (input) SQLITE_NOMEM :: rc where "SQLITE_NOMEM \<equiv> 7"
abbreviation (input) SQLITE_TOOBIG :: rc where "SQLITE_TOOBIG \<equiv> 18"
abbreviation (input) SQLITE_READONLY :: rc where "SQLITE_READONLY \<equiv> 8"
abbreviation (input) SQLITE_CORRUPT :: rc where "SQLITE_CORRUPT \<equiv> 11"
abbreviation (input) SQLITE_NOTFOUND :: rc where "SQLITE_NOTFOUND \<equiv> 12"
abbreviation (input) SQLITE_FULL :: rc where "SQLITE_FULL \<equiv> 13"
abbreviation (input) SQLITE_IOERR_SHORT_READ :: rc where "SQLITE_IOERR_SHORT_READ \<equiv> 522"
abbreviation (input) SQLITE_IOERR_WRITE :: rc where "SQLITE_IOERR_WRITE \<equiv> 778"
abbreviation (input) SQLITE_IOERR_NOMEM :: rc where "SQLITE_IOERR_NOMEM \<equiv> 3082"

text \<open>The allocator never fails.\<close>

definition all_ok :: "(nat \<Rightarrow> bool) \<Rightarrow> bool" where
  "all_ok mem \<longleftrightarrow> (\<forall>k. mem k)"

named_theorems word_bits \<open>rules that push \<open>bit\<close> through the word operations of the model\<close>

subsection \<open>Bounded reads\<close>

definition rd :: "u8 list \<Rightarrow> nat \<Rightarrow> u8 option" where
  "rd p k = (if k < length p then Some (p ! k) else None)"

lemma rd_Cons_0 [simp]: "rd (b # p) 0 = Some b"
  by (simp add: rd_def)

lemma rd_Cons_Suc [simp]: "rd (b # p) (Suc k) = rd p k"
  by (simp add: rd_def)

lemma rd_Cons_numeral [simp]: "rd (b # p) (numeral k) = rd p (pred_numeral k)"
  by (simp add: rd_def numeral_eq_Suc)

lemma rd_Nil [simp]: "rd [] k = None"
  by (simp add: rd_def)

lemma rd_eq_Some_iff: "rd p k = Some b \<longleftrightarrow> k < length p \<and> p ! k = b"
  by (simp add: rd_def)

lemma rd_append: "rd p k = Some b \<Longrightarrow> rd (p @ q) k = Some b"
  by (auto simp: rd_def nth_append split: if_splits)

subsection \<open>Copies between buffers\<close>

text \<open>\<open>mem_get a i n\<close> reads \<open>n\<close> bytes at \<open>i\<close>; \<open>mem_put a i z\<close> copies \<open>z\<close> to \<open>i\<close>. Both are \<open>None\<close>
  when a byte outside the buffer would be touched.\<close>

definition mem_get :: "'b list \<Rightarrow> nat \<Rightarrow> nat \<Rightarrow> 'b list option" where
  "mem_get a i n = (if i + n \<le> length a then Some (take n (drop i a)) else None)"

definition mem_put :: "'b list \<Rightarrow> nat \<Rightarrow> 'b list \<Rightarrow> 'b list option" where
  "mem_put a i z =
     (if i + length z \<le> length a then Some (take i a @ z @ drop (i + length z) a) else None)"

lemma mem_put_eq_Some:
  "mem_put a i z = Some b \<longleftrightarrow> i + length z \<le> length a \<and> b = take i a @ z @ drop (i + length z) a"
  by (auto simp: mem_put_def)

lemma length_mem_put: "mem_put a i z = Some b \<Longrightarrow> length b = length a"
  by (auto simp: mem_put_eq_Some)

lemma nth_mem_put:
  "mem_put a i z = Some b \<Longrightarrow> j < length a \<Longrightarrow>
   b ! j = (if i \<le> j \<and> j < i + length z then z ! (j - i) else a ! j)"
  by (auto simp: mem_put_eq_Some nth_append)

lemma mem_get_put: "mem_put a i z = Some b \<Longrightarrow> mem_get b i (length z) = Some z"
  by (auto simp: mem_put_eq_Some mem_get_def)

text \<open>Growing or shrinking an allocation keeps the common prefix; the content of new bytes is
  whatever \<open>junk\<close> says, so no theorem may depend on it.\<close>

definition realloc_bytes ::
  "(nat \<Rightarrow> bool) \<Rightarrow> nat \<Rightarrow> (nat \<Rightarrow> u8) \<Rightarrow> u8 list \<Rightarrow> nat \<Rightarrow> u8 list option"
where
  "realloc_bytes mem k junk a n =
     (if n = 0 \<or> 2147483391 < n \<or> \<not> mem k then None
      else Some (take n a @ map junk [length a..<n]))"

lemma realloc_bytes_Some:
  assumes "realloc_bytes mem k junk a n = Some b"
  shows "length b = n" and "m \<le> length a \<Longrightarrow> m \<le> n \<Longrightarrow> take m b = take m a"
  using assms by (auto simp: realloc_bytes_def min_def split: if_splits)

subsection \<open>Words, bit by bit\<close>

lemma word_eq_bits:
  fixes x y :: "'a::len word"
  shows "x = y \<longleftrightarrow> list_all (\<lambda>n. bit x n = bit y n) [0..<LENGTH('a)]"
  by (auto simp: list_all_iff intro: bit_word_eqI)

lemma upt_0_8 [word_bits]:
    "[0..<8] = [0, 1, 2, 3, 4, 5, 6, 7]"
  by code_simp

lemma upt_0_16 [word_bits]:
    "[0..<16] = [0, 1, 2, 3, 4, 5, 6, 7, 8, 9, 10, 11, 12, 13, 14, 15]"
  by code_simp

lemma upt_0_32 [word_bits]:
    "[0..<32] = [0, 1, 2, 3, 4, 5, 6, 7, 8, 9, 10, 11, 12, 13, 14, 15, 16, 17, 18, 19, 20,
      21, 22, 23, 24, 25, 26, 27, 28, 29, 30, 31]"
  by code_simp

lemma upt_0_64 [word_bits]:
    "[0..<64] = [0, 1, 2, 3, 4, 5, 6, 7, 8, 9, 10, 11, 12, 13, 14, 15, 16, 17, 18, 19, 20,
      21, 22, 23, 24, 25, 26, 27, 28, 29, 30, 31, 32, 33, 34, 35, 36, 37, 38, 39, 40, 41,
      42, 43, 44, 45, 46, 47, 48, 49, 50, 51, 52, 53, 54, 55, 56, 57, 58, 59, 60, 61, 62,
      63]"
  by code_simp

lemmas [word_bits] = bit_simps

lemma u8_bit_ge [simp]: "8 \<le> n \<Longrightarrow> \<not> bit (w :: u8) n"
  by (simp add: impossible_bit)

lemma u16_bit_ge [simp]: "16 \<le> n \<Longrightarrow> \<not> bit (w :: u16) n"
  by (simp add: impossible_bit)

lemma u32_bit_ge [simp]: "32 \<le> n \<Longrightarrow> \<not> bit (w :: u32) n"
  by (simp add: impossible_bit)

lemma u64_bit_ge [simp]: "64 \<le> n \<Longrightarrow> \<not> bit (w :: u64) n"
  by (simp add: impossible_bit)

lemma unat_bounds:
  "unat (b :: u8) < 256" "unat (h :: u16) < 65536" "unat (w :: u32) < 4294967296"
  "unat (d :: u64) < 18446744073709551616"
  using unsigned_less [where 'a = nat, of b] unsigned_less [where 'a = nat, of h]
    unsigned_less [where 'a = nat, of w] unsigned_less [where 'a = nat, of d]
  by simp_all

lemma unat_add_one:
  fixes w v :: "'a::len word"
  assumes "unat w < unat v"
  shows "unat (w + 1) = Suc (unat w)"
proof -
  have "Suc (unat w) < 2 ^ LENGTH('a)"
    using assms unsigned_less [where 'a = nat, of v] by linarith
  then show ?thesis by (simp add: unat_word_ariths)
qed

lemma unat_drop_bit_div: "unat (drop_bit n w) = unat w div 2 ^ n"
  using unat_drop_bit_eq [of n w] by (simp only: drop_bit_eq_div [of n "unat w"])

lemma and_0x80: "x AND 0x80 = (0 :: 'a::len word) \<longleftrightarrow> \<not> bit x 7"
  using and_exp_eq_0_iff_not_bit [of x 7] by simp

lemma sint_u8_nonneg: "0 \<le> sint (b :: u8) \<longleftrightarrow> \<not> bit b 7"
  using bit_last_iff [of b] by auto



subsection \<open>Self-delimiting byte codes\<close>

text \<open>The contract between a writer and a reader of the file format: the reader recovers the value
  and the number of bytes from the writer's output, whatever follows it. \<open>decode_seq\<close> is the
  client that reads a run of values, as the record header and the cell parsers do.\<close>

fun decode_seq :: "(u8 list \<Rightarrow> (nat \<times> 'a) option) \<Rightarrow> nat \<Rightarrow> u8 list \<Rightarrow> ('a list \<times> u8 list) option"
where
  "decode_seq dec 0 p = Some ([], p)"
| "decode_seq dec (Suc n) p = do {
     (k, v) \<leftarrow> dec p;
     (vs, q) \<leftarrow> decode_seq dec n (drop k p);
     Some (v # vs, q)
   }"

locale codec =
  fixes enc :: "'a \<Rightarrow> u8 list"
    and dec :: "u8 list \<Rightarrow> (nat \<times> 'a) option"
  assumes dec_enc: "dec (enc v @ q) = Some (length (enc v), v)"
begin

lemma enc_prefix_free:
  assumes "enc v @ q = enc w @ r"
  shows "v = w \<and> q = r"
  using assms dec_enc [of v q] dec_enc [of w r] by auto

lemma enc_inj: "inj enc"
  by (rule injI) (use enc_prefix_free [of _ "[]" _ "[]"] in simp)

lemma decode_seq_enc: "decode_seq dec (length vs) (concat (map enc vs) @ q) = Some (vs, q)"
  by (induction vs) (simp_all add: dec_enc)

end

end
