(* ===== verification/Varint.thy ===== *)
theory Varint
  imports Sqlite_Prelude
begin

text \<open>
  Variable-length integers and four-byte big-endian integers of \<^verbatim>\<open>util.c\<close>: the
  writers \<open>sqlite3PutVarint\<close>, \<open>putVarint64\<close> and \<open>sqlite3Put4byte\<close>, the
  readers \<open>sqlite3GetVarint\<close>, \<open>sqlite3GetVarint32\<close> and \<open>sqlite3Get4byte\<close>, and
  \<open>sqlite3VarintLen\<close>. The reader works on two interleaved 32-bit accumulators; the theory
  shows that it agrees with the one-byte-at-a-time decoder \<open>varint_spec\<close> on every buffer, and
  that reading inverts writing.
\<close>

subsection \<open>Writers\<close>

text \<open>A writer returns the bytes it stores at \<open>p[0]\<close>, \<open>p[1]\<close>, \<dots>; the C return value is
  their number. \<open>put9_loop n v q\<close> is the loop that fills \<open>p[n-1]\<close> down to \<open>p[0]\<close> in
  front of the bytes \<open>q\<close> already stored.\<close>

fun put9_loop :: "nat \<Rightarrow> u64 \<Rightarrow> u8 list \<Rightarrow> u8 list" where
  "put9_loop 0 v q = q"
| "put9_loop (Suc n) v q = put9_loop n (drop_bit 7 v) (ucast ((v AND 0x7f) OR 0x80) # q)"

lemma drop_bit_7_less: "drop_bit 7 v \<noteq> 0 \<Longrightarrow> unat (drop_bit 7 (v :: u64)) < unat v"
proof -
  assume nz: "drop_bit 7 v \<noteq> 0"
  have "unat (drop_bit 7 v) = unat v div 2 ^ 7"
    by (rule unat_drop_bit_div)
  moreover have "unat v \<noteq> 0"
    using nz by (metis drop_bit_of_0 unat_eq_zero)
  ultimately show ?thesis by simp
qed

function put_loop :: "u64 \<Rightarrow> u8 list \<Rightarrow> u8 list" where
  "put_loop v buf =
     (let buf' = buf @ [ucast ((v AND 0x7f) OR 0x80)]; v' = drop_bit 7 v
      in if v' \<noteq> 0 then put_loop v' buf' else buf')"
  by pat_completeness auto
termination
  by (relation "measure (\<lambda>(v, buf). unat v)") (auto simp: drop_bit_7_less)

declare put_loop.simps [simp del]

definition putVarint64 :: "u64 \<Rightarrow> u8 list" where
  "putVarint64 v =
     (if v AND push_bit 32 0xff000000 \<noteq> 0
      then put9_loop 8 (drop_bit 8 v) [ucast v]
      else let buf = put_loop v [] in rev (buf[0 := buf ! 0 AND 0x7f]))"

definition sqlite3PutVarint :: "u64 \<Rightarrow> u8 list" where
  "sqlite3PutVarint v =
     (if v \<le> 0x7f then [ucast (v AND 0x7f)]
      else if v \<le> 0x3fff
           then [ucast ((drop_bit 7 v AND 0x7f) OR 0x80), ucast (v AND 0x7f)]
      else putVarint64 v)"

function VarintLen_loop :: "nat \<Rightarrow> u64 \<Rightarrow> nat" where
  "VarintLen_loop i v =
     (let v' = drop_bit 7 v in if v' \<noteq> 0 then VarintLen_loop (Suc i) v' else i)"
  by pat_completeness auto
termination
  by (relation "measure (\<lambda>(i, v). unat v)") (auto simp: drop_bit_7_less)

declare VarintLen_loop.simps [simp del]

definition sqlite3VarintLen :: "u64 \<Rightarrow> nat" where
  "sqlite3VarintLen v = VarintLen_loop 1 v"

definition sqlite3Put4byte :: "u32 \<Rightarrow> u8 list" where
  "sqlite3Put4byte v =
     [ucast (drop_bit 24 v), ucast (drop_bit 16 v), ucast (drop_bit 8 v), ucast v]"

subsection \<open>Readers\<close>

abbreviation (input) SLOT_2_0 :: u32 where "SLOT_2_0 \<equiv> 0x001fc07f"
abbreviation (input) SLOT_4_2_0 :: u32 where "SLOT_4_2_0 \<equiv> 0xf01fc07f"

text \<open>\<open>hi_lo s a\<close> is the expression \<^verbatim>\<open>((u64)s)<<32 | a\<close> that ends the long cases.\<close>

definition hi_lo :: "u32 \<Rightarrow> u32 \<Rightarrow> u64" where
  "hi_lo s a = push_bit 32 (ucast s) OR ucast a"

definition sqlite3GetVarint :: "u8 list \<Rightarrow> (nat \<times> u64) option" where
  "sqlite3GetVarint p = do {
     p0 \<leftarrow> rd p 0;
     if sint p0 \<ge> 0 then Some (1, ucast p0) else do {
     p1 \<leftarrow> rd p 1;
     if sint p1 \<ge> 0 then Some (2, ucast (push_bit 7 (ucast (p0 AND 0x7f) :: u32) OR ucast p1))
     else do {
     let a = push_bit 14 (ucast p0 :: u32);
     let b = (ucast p1 :: u32);
     p2 \<leftarrow> rd p 2;
     let a = a OR ucast p2;
     if a AND 0x80 = 0 then
       (let a = a AND SLOT_2_0; b = b AND 0x7f; b = push_bit 7 b; a = a OR b
        in Some (3, ucast a))
     else do {
     let a = a AND SLOT_2_0;
     p3 \<leftarrow> rd p 3;
     let b = push_bit 14 b;
     let b = b OR ucast p3;
     if b AND 0x80 = 0 then
       (let b = b AND SLOT_2_0; a = push_bit 7 a; a = a OR b in Some (4, ucast a))
     else do {
     let b = b AND SLOT_2_0;
     let s = a;
     p4 \<leftarrow> rd p 4;
     let a = push_bit 14 a;
     let a = a OR ucast p4;
     if a AND 0x80 = 0 then
       (let b = push_bit 7 b; a = a OR b; s = drop_bit 18 s in Some (5, hi_lo s a))
     else do {
     let s = push_bit 7 s;
     let s = s OR b;
     p5 \<leftarrow> rd p 5;
     let b = push_bit 14 b;
     let b = b OR ucast p5;
     if b AND 0x80 = 0 then
       (let a = a AND SLOT_2_0; a = push_bit 7 a; a = a OR b; s = drop_bit 18 s
        in Some (6, hi_lo s a))
     else do {
     p6 \<leftarrow> rd p 6;
     let a = push_bit 14 a;
     let a = a OR ucast p6;
     if a AND 0x80 = 0 then
       (let a = a AND SLOT_4_2_0; b = b AND SLOT_2_0; b = push_bit 7 b; a = a OR b;
            s = drop_bit 11 s
        in Some (7, hi_lo s a))
     else do {
     let a = a AND SLOT_2_0;
     p7 \<leftarrow> rd p 7;
     let b = push_bit 14 b;
     let b = b OR ucast p7;
     if b AND 0x80 = 0 then
       (let b = b AND SLOT_4_2_0; a = push_bit 7 a; a = a OR b; s = drop_bit 4 s
        in Some (8, hi_lo s a))
     else do {
     p8 \<leftarrow> rd p 8;
     let a = push_bit 15 a;
     let a = a OR ucast p8;
     let b = b AND SLOT_2_0;
     let b = push_bit 8 b;
     let a = a OR b;
     let s = push_bit 4 s;
     let b = (ucast p4 :: u32);
     let b = b AND 0x7f;
     let b = drop_bit 3 b;
     let s = s OR b;
     Some (9, hi_lo s a)
     }}}}}}}}}"

definition sqlite3GetVarint32 :: "u8 list \<Rightarrow> (nat \<times> u32) option" where
  "sqlite3GetVarint32 p = do {
     p0 \<leftarrow> rd p 0;
     p1 \<leftarrow> rd p 1;
     if p1 AND 0x80 = 0 then Some (2, push_bit 7 (ucast (p0 AND 0x7f)) OR ucast p1)
     else do {
     p2 \<leftarrow> rd p 2;
     if p2 AND 0x80 = 0
     then Some (3, push_bit 14 (ucast (p0 AND 0x7f)) OR push_bit 7 (ucast (p1 AND 0x7f))
                   OR ucast p2)
     else do {
     (n, v64) \<leftarrow> sqlite3GetVarint p;
     Some (n, if v64 AND 0xffffffff \<noteq> v64 then 0xffffffff else ucast v64)
     }}}"

definition getVarint32 :: "u8 list \<Rightarrow> (nat \<times> u32) option" where
  "getVarint32 p = do {
     p0 \<leftarrow> rd p 0;
     if p0 < 0x80 then Some (1, ucast p0) else sqlite3GetVarint32 p
   }"

definition sqlite3Get4byte :: "u8 list \<Rightarrow> u32 option" where
  "sqlite3Get4byte p = do {
     p0 \<leftarrow> rd p 0;
     p1 \<leftarrow> rd p 1;
     p2 \<leftarrow> rd p 2;
     p3 \<leftarrow> rd p 3;
     Some (push_bit 24 (ucast p0) OR push_bit 16 (ucast p1) OR push_bit 8 (ucast p2) OR ucast p3)
   }"

subsection \<open>The decoder the format describes\<close>

text \<open>One byte at a time: the low seven bits of each byte that has its high bit set, then all of
  the first byte that has it clear, or all eight bits of a ninth byte.\<close>

fun varint_spec_loop :: "nat \<Rightarrow> u64 \<Rightarrow> u8 list \<Rightarrow> (nat \<times> u64) option" where
  "varint_spec_loop k acc [] = None"
| "varint_spec_loop k acc (b # bs) =
     (if k = 8 then Some (9, push_bit 8 acc OR ucast b)
      else if \<not> bit b 7 then Some (Suc k, push_bit 7 acc OR ucast b)
      else varint_spec_loop (Suc k) (push_bit 7 acc OR (ucast b AND 0x7f)) bs)"

definition varint_spec :: "u8 list \<Rightarrow> (nat \<times> u64) option" where
  "varint_spec p = varint_spec_loop 0 0 p"

text \<open>The clamped value that the 32-bit reader is documented to return.\<close>

definition sat32 :: "u64 \<Rightarrow> u32" where
  "sat32 v = (if v \<le> 0xffffffff then ucast v else 0xffffffff)"

subsection \<open>Reading agrees with the format\<close>

lemmas varint_unfold =
  sqlite3GetVarint_def varint_spec_def Let_def hi_lo_def and_0x80 sint_u8_nonneg

lemma GetVarint_1:
  "\<lbrakk>\<not> bit p0 7\<rbrakk> \<Longrightarrow>
   sqlite3GetVarint (p0 # q) =
   varint_spec (p0 # q)"
  by (simp add: varint_unfold)

lemma GetVarint_2:
  "\<lbrakk>bit p0 7; \<not> bit p1 7\<rbrakk> \<Longrightarrow>
   sqlite3GetVarint (p0 # p1 # q) =
   varint_spec (p0 # p1 # q)"
  by (simp add: varint_unfold word_bits, simp add: word_eq_bits, simp add: word_bits)

lemma GetVarint_3:
  "\<lbrakk>bit p0 7; bit p1 7; \<not> bit p2 7\<rbrakk> \<Longrightarrow>
   sqlite3GetVarint (p0 # p1 # p2 # q) =
   varint_spec (p0 # p1 # p2 # q)"
  by (simp add: varint_unfold word_bits, simp add: word_eq_bits, simp add: word_bits)

lemma GetVarint_4:
  "\<lbrakk>bit p0 7; bit p1 7; bit p2 7; \<not> bit p3 7\<rbrakk> \<Longrightarrow>
   sqlite3GetVarint (p0 # p1 # p2 # p3 # q) =
   varint_spec (p0 # p1 # p2 # p3 # q)"
  by (simp add: varint_unfold word_bits, simp add: word_eq_bits, simp add: word_bits)

lemma GetVarint_5:
  "\<lbrakk>bit p0 7; bit p1 7; bit p2 7; bit p3 7; \<not> bit p4 7\<rbrakk> \<Longrightarrow>
   sqlite3GetVarint (p0 # p1 # p2 # p3 # p4 # q) =
   varint_spec (p0 # p1 # p2 # p3 # p4 # q)"
  by (simp add: varint_unfold word_bits, simp add: word_eq_bits, simp add: word_bits)

lemma GetVarint_6:
  "\<lbrakk>bit p0 7; bit p1 7; bit p2 7; bit p3 7; bit p4 7; \<not> bit p5 7\<rbrakk> \<Longrightarrow>
   sqlite3GetVarint (p0 # p1 # p2 # p3 # p4 # p5 # q) =
   varint_spec (p0 # p1 # p2 # p3 # p4 # p5 # q)"
  by (simp add: varint_unfold word_bits, simp add: word_eq_bits, simp add: word_bits)

lemma GetVarint_7:
  "\<lbrakk>bit p0 7; bit p1 7; bit p2 7; bit p3 7; bit p4 7; bit p5 7; \<not> bit p6 7\<rbrakk> \<Longrightarrow>
   sqlite3GetVarint (p0 # p1 # p2 # p3 # p4 # p5 # p6 # q) =
   varint_spec (p0 # p1 # p2 # p3 # p4 # p5 # p6 # q)"
  by (simp add: varint_unfold word_bits, simp add: word_eq_bits, simp add: word_bits)

lemma GetVarint_8:
  "\<lbrakk>bit p0 7; bit p1 7; bit p2 7; bit p3 7; bit p4 7; bit p5 7; bit p6 7; \<not> bit p7 7\<rbrakk> \<Longrightarrow>
   sqlite3GetVarint (p0 # p1 # p2 # p3 # p4 # p5 # p6 # p7 # q) =
   varint_spec (p0 # p1 # p2 # p3 # p4 # p5 # p6 # p7 # q)"
  by (simp add: varint_unfold word_bits, simp add: word_eq_bits, simp add: word_bits)

lemma GetVarint_9:
  "\<lbrakk>bit p0 7; bit p1 7; bit p2 7; bit p3 7; bit p4 7; bit p5 7; bit p6 7; bit p7 7\<rbrakk> \<Longrightarrow>
   sqlite3GetVarint (p0 # p1 # p2 # p3 # p4 # p5 # p6 # p7 # p8 # q) =
   varint_spec (p0 # p1 # p2 # p3 # p4 # p5 # p6 # p7 # p8 # q)"
  by (simp add: varint_unfold word_bits, simp add: word_eq_bits, simp add: word_bits)

lemma GetVarint_short:
  "sqlite3GetVarint [] = varint_spec []"
  "\<lbrakk>bit p0 7\<rbrakk> \<Longrightarrow> sqlite3GetVarint [p0] = varint_spec [p0]"
  "\<lbrakk>bit p0 7; bit p1 7\<rbrakk> \<Longrightarrow> sqlite3GetVarint [p0, p1] = varint_spec [p0, p1]"
  "\<lbrakk>bit p0 7; bit p1 7; bit p2 7\<rbrakk> \<Longrightarrow> sqlite3GetVarint [p0, p1, p2] = varint_spec [p0, p1, p2]"
  "\<lbrakk>bit p0 7; bit p1 7; bit p2 7; bit p3 7\<rbrakk> \<Longrightarrow> sqlite3GetVarint [p0, p1, p2, p3] = varint_spec [p0, p1, p2, p3]"
  "\<lbrakk>bit p0 7; bit p1 7; bit p2 7; bit p3 7; bit p4 7\<rbrakk> \<Longrightarrow> sqlite3GetVarint [p0, p1, p2, p3, p4] = varint_spec [p0, p1, p2, p3, p4]"
  "\<lbrakk>bit p0 7; bit p1 7; bit p2 7; bit p3 7; bit p4 7; bit p5 7\<rbrakk> \<Longrightarrow> sqlite3GetVarint [p0, p1, p2, p3, p4, p5] = varint_spec [p0, p1, p2, p3, p4, p5]"
  "\<lbrakk>bit p0 7; bit p1 7; bit p2 7; bit p3 7; bit p4 7; bit p5 7; bit p6 7\<rbrakk> \<Longrightarrow> sqlite3GetVarint [p0, p1, p2, p3, p4, p5, p6] = varint_spec [p0, p1, p2, p3, p4, p5, p6]"
  "\<lbrakk>bit p0 7; bit p1 7; bit p2 7; bit p3 7; bit p4 7; bit p5 7; bit p6 7; bit p7 7\<rbrakk> \<Longrightarrow> sqlite3GetVarint [p0, p1, p2, p3, p4, p5, p6, p7] = varint_spec [p0, p1, p2, p3, p4, p5, p6, p7]"
  by (simp_all add: varint_unfold word_bits)

lemma GetVarint_from_8:
  "\<lbrakk>bit p0 7; bit p1 7; bit p2 7; bit p3 7; bit p4 7; bit p5 7; bit p6 7; bit p7 7\<rbrakk> \<Longrightarrow>
   sqlite3GetVarint (p0 # p1 # p2 # p3 # p4 # p5 # p6 # p7 # q) = varint_spec (p0 # p1 # p2 # p3 # p4 # p5 # p6 # p7 # q)"
  by (cases q; cases "bit (hd q) 7") (simp_all add: GetVarint_9 GetVarint_short word_bits)

lemma GetVarint_from_7:
  "\<lbrakk>bit p0 7; bit p1 7; bit p2 7; bit p3 7; bit p4 7; bit p5 7; bit p6 7\<rbrakk> \<Longrightarrow>
   sqlite3GetVarint (p0 # p1 # p2 # p3 # p4 # p5 # p6 # q) = varint_spec (p0 # p1 # p2 # p3 # p4 # p5 # p6 # q)"
  by (cases q; cases "bit (hd q) 7") (simp_all add: GetVarint_8 GetVarint_from_8 GetVarint_short word_bits)

lemma GetVarint_from_6:
  "\<lbrakk>bit p0 7; bit p1 7; bit p2 7; bit p3 7; bit p4 7; bit p5 7\<rbrakk> \<Longrightarrow>
   sqlite3GetVarint (p0 # p1 # p2 # p3 # p4 # p5 # q) = varint_spec (p0 # p1 # p2 # p3 # p4 # p5 # q)"
  by (cases q; cases "bit (hd q) 7") (simp_all add: GetVarint_7 GetVarint_from_7 GetVarint_short word_bits)

lemma GetVarint_from_5:
  "\<lbrakk>bit p0 7; bit p1 7; bit p2 7; bit p3 7; bit p4 7\<rbrakk> \<Longrightarrow>
   sqlite3GetVarint (p0 # p1 # p2 # p3 # p4 # q) = varint_spec (p0 # p1 # p2 # p3 # p4 # q)"
  by (cases q; cases "bit (hd q) 7") (simp_all add: GetVarint_6 GetVarint_from_6 GetVarint_short word_bits)

lemma GetVarint_from_4:
  "\<lbrakk>bit p0 7; bit p1 7; bit p2 7; bit p3 7\<rbrakk> \<Longrightarrow>
   sqlite3GetVarint (p0 # p1 # p2 # p3 # q) = varint_spec (p0 # p1 # p2 # p3 # q)"
  by (cases q; cases "bit (hd q) 7") (simp_all add: GetVarint_5 GetVarint_from_5 GetVarint_short word_bits)

lemma GetVarint_from_3:
  "\<lbrakk>bit p0 7; bit p1 7; bit p2 7\<rbrakk> \<Longrightarrow>
   sqlite3GetVarint (p0 # p1 # p2 # q) = varint_spec (p0 # p1 # p2 # q)"
  by (cases q; cases "bit (hd q) 7") (simp_all add: GetVarint_4 GetVarint_from_4 GetVarint_short word_bits)

lemma GetVarint_from_2:
  "\<lbrakk>bit p0 7; bit p1 7\<rbrakk> \<Longrightarrow>
   sqlite3GetVarint (p0 # p1 # q) = varint_spec (p0 # p1 # q)"
  by (cases q; cases "bit (hd q) 7") (simp_all add: GetVarint_3 GetVarint_from_3 GetVarint_short word_bits)

lemma GetVarint_from_1:
  "\<lbrakk>bit p0 7\<rbrakk> \<Longrightarrow>
   sqlite3GetVarint (p0 # q) = varint_spec (p0 # q)"
  by (cases q; cases "bit (hd q) 7") (simp_all add: GetVarint_2 GetVarint_from_2 GetVarint_short word_bits)

lemma GetVarint_from_0:
  "sqlite3GetVarint (q) = varint_spec (q)"
  by (cases q; cases "bit (hd q) 7") (simp_all add: GetVarint_1 GetVarint_from_1 GetVarint_short word_bits)

text \<open>C23: on every buffer the two-accumulator reader returns exactly what the byte-at-a-time decoder of
  the documented format returns: the same value, the same number of bytes, and a read past the end
  of the buffer in exactly the same cases.\<close>

theorem sqlite3GetVarint_eq_spec: "sqlite3GetVarint p = varint_spec p"
  by (rule GetVarint_from_0)

subsection \<open>Reading inverts writing\<close>

lemma and_0x7f: "w AND 0x7f = take_bit 7 (w :: 'a::len word)"
  by (simp add: take_bit_eq_mask mask_eq_exp_minus_1)

abbreviation vflag :: "u64 \<Rightarrow> u8" where "vflag v \<equiv> ucast ((v AND 0x7f) OR 0x80)"

lemma vflag_bit7: "bit (vflag v) 7"
  by (simp add: bit_simps)

lemma vflag_low: "(ucast (vflag v) :: u64) AND 0x7f = take_bit 7 v"
  by (simp add: word_eq_bits and_0x7f, simp add: word_bits)

lemma acc_step:
  "push_bit 7 (push_bit m acc OR take_bit m (drop_bit 7 w)) OR take_bit 7 w
   = push_bit (7 + m) acc OR take_bit (7 + m) (w :: u64)"
  by (rule bit_word_eqI) (auto simp: bit_simps)

lemma spec_put9_loop:
  "k + n \<le> 8 \<Longrightarrow> varint_spec_loop k acc (put9_loop n w q)
   = varint_spec_loop (k + n) (push_bit (7 * n) acc OR take_bit (7 * n) w) q"
proof (induction n arbitrary: w q)
  case (Suc n)
  then show ?case
    using acc_step[of "7*n" acc w] by (simp add: vflag_bit7 vflag_low del: take_bit_or )
qed simp

lemma VarintLen_loop_add: "VarintLen_loop (i + j) v = i + VarintLen_loop j v"
proof (induction j v arbitrary: i rule: VarintLen_loop.induct)
  case (1 j v)
  show ?case 
    by (subst (1 2) VarintLen_loop.simps)  (use 1 in \<open>auto simp: Let_def  simp flip: add_Suc_right\<close>)
qed

lemma VarintLen_rec:
  "sqlite3VarintLen v = (if drop_bit 7 v = 0 then 1 else Suc (sqlite3VarintLen (drop_bit 7 v)))"
  using VarintLen_loop_add[of 1 1 "drop_bit 7 v"]
  unfolding sqlite3VarintLen_def by (subst VarintLen_loop.simps) (simp add: Let_def)

lemma rev_put_loop: "rev (put_loop v buf) = put9_loop (sqlite3VarintLen v) v (rev buf)"
proof (induction v buf rule: put_loop.induct)
  case (1 v buf)
  show ?case
    by (subst put_loop.simps, subst VarintLen_rec) (use 1 in \<open>auto simp: Let_def\<close>)
qed
lemma VarintLen_pos: "0 < sqlite3VarintLen v"
  by (subst VarintLen_rec) simp

lemma drop_bit_7_Suc: "drop_bit (7 * Suc n) (v :: u64) = drop_bit (7 * n) (drop_bit 7 v)"
  by (simp add: add.commute)

lemma VarintLen_drop: "drop_bit (7 * sqlite3VarintLen v) v = 0"
proof (induction v rule: measure_induct_rule [of unat])
  case (less v)
  then show ?case
    using drop_bit_7_less [of v]
    by (cases "drop_bit 7 v = 0")
      (simp_all add: VarintLen_rec [of v] drop_bit_7_Suc del: mult_Suc_right drop_bit_drop_bit)
qed

lemma VarintLen_le: "0 < n \<Longrightarrow> drop_bit (7 * n) v = 0 \<Longrightarrow> sqlite3VarintLen v \<le> n"
proof (induction n arbitrary: v)
  case (Suc n)
  then show ?case
    by (cases "n = 0"; cases "drop_bit 7 v = 0")
      (auto simp: VarintLen_rec [of v] drop_bit_7_Suc simp del: mult_Suc_right drop_bit_drop_bit)
qed simp

lemma VarintLen_ge: "drop_bit (7 * n) v \<noteq> 0 \<Longrightarrow> n < sqlite3VarintLen v"
proof (induction n arbitrary: v)
  case (Suc n)
  then show ?case
    by (cases "drop_bit 7 v = 0")
      (auto simp: VarintLen_rec [of v] drop_bit_7_Suc simp del: mult_Suc_right drop_bit_drop_bit)
qed (simp add: VarintLen_pos)

lemma put9_loop_append: "put9_loop n w q = put9_loop n w [] @ q"
proof (induction n arbitrary: w q)
  case (Suc n)
  show ?case by (simp add: Suc [of _ "_ # q"] Suc [of _ "[_]"])
qed simp

lemma length_put9_loop: "length (put9_loop n w q) = n + length q"
  by (induction n arbitrary: w q) auto

lemma and_top_byte: "v AND push_bit 32 0xff000000 = 0 \<longleftrightarrow> drop_bit 56 (v :: u64) = 0"
  by (simp add: word_eq_bits, simp add: word_bits)

lemma putVarint64_small:
  assumes "drop_bit 56 v = 0"
  shows "putVarint64 v = put9_loop (sqlite3VarintLen v - 1) (drop_bit 7 v) [ucast (v AND 0x7f)]"
proof -
  let ?A = "put9_loop (sqlite3VarintLen v - 1) (drop_bit 7 v) []"
  obtain n where n: "sqlite3VarintLen v = Suc n"
    using VarintLen_pos [of v] gr0_conv_Suc by blast
  have "rev (put_loop v []) = ?A @ [vflag v]"
    by (simp add: rev_put_loop n put9_loop_append [of n _ "[_]"])
  then have b: "put_loop v [] = vflag v # rev ?A"
    by (simp add: rev_swap)
  have m: "vflag v AND 0x7f = ucast (v AND 0x7f)"
    by (simp add: word_eq_bits, simp add: word_bits)
  show ?thesis
    unfolding putVarint64_def and_top_byte using assms
    by (simp add: Let_def b m put9_loop_append [of _ _ "[_]"])
qed

lemma low_byte7: "\<not> bit (ucast (v AND 0x7f :: u64) :: u8) 7"
  by (simp add: bit_simps)

lemma low_byte: "(ucast (ucast (v AND 0x7f :: u64) :: u8) :: u64) = take_bit 7 v"
  by (simp add: word_eq_bits, simp add: word_bits)

lemma push_drop_7: "push_bit 7 (drop_bit 7 v) OR take_bit 7 (v :: u64) = v"
  by (rule bit_word_eqI) (auto simp: bit_simps)

lemma push_drop_8: "push_bit 8 (drop_bit 8 v) OR ucast (ucast v :: u8) = (v :: u64)"
  by (simp add: word_eq_bits, simp add: word_bits)

lemma take_eq_self: "drop_bit n (v :: u64) = 0 \<Longrightarrow> take_bit n v = v"
  by (simp add: take_bit_eq_self_iff_drop_bit_eq_0)

lemma spec_putVarint64:
  "varint_spec (putVarint64 v @ q) = Some (length (putVarint64 v), v)"
proof (cases "drop_bit 56 v = 0")
  case True
  let ?n = "sqlite3VarintLen v - 1"
  have "sqlite3VarintLen v \<le> 8"
    using True by (intro VarintLen_le) auto
  moreover have "take_bit (7 * ?n) (drop_bit 7 v) = drop_bit 7 v"
    using VarintLen_drop [of v] VarintLen_pos [of v]
    by (intro take_eq_self) (metis drop_bit_7_Suc Suc_diff_1)
  moreover have "putVarint64 v @ q = put9_loop ?n (drop_bit 7 v) (ucast (v AND 0x7f) # q)"
    using True by (simp add: putVarint64_small put9_loop_append [of _ _ "_ # _"])
  ultimately show ?thesis
    using True VarintLen_pos [of v]
    by (simp add: putVarint64_small varint_spec_def length_put9_loop spec_put9_loop low_byte7
        low_byte push_drop_7)
next
  case False
  have t: "take_bit 56 (drop_bit 8 v) = drop_bit 8 v"
    by (intro take_eq_self) (simp add: word_eq_bits word_bits)
  have e: "putVarint64 v @ q = put9_loop 8 (drop_bit 8 v) (ucast v # q)"
    unfolding putVarint64_def and_top_byte
    using False by (simp add: put9_loop_append [of _ _ "_ # _"])
  show ?thesis
    unfolding e varint_spec_def unfolding putVarint64_def and_top_byte using False
    by (simp add: spec_put9_loop t push_drop_8 length_put9_loop)
qed

lemma u64_le_drop_bit:
  assumes "Suc (unat m) = 2 ^ n"
  shows "(v :: u64) \<le> m \<longleftrightarrow> drop_bit n v = 0"
proof -
  have "v \<le> m \<longleftrightarrow> unat v < 2 ^ n"
    unfolding assms [symmetric] by (simp add: word_le_nat_alt less_Suc_eq_le)
  also have "\<dots> \<longleftrightarrow> unat (drop_bit n v) = 0"
    by (simp add: unat_drop_bit_div div_eq_0_iff)
  finally show ?thesis by (simp add: unat_eq_zero)
qed

lemma u64_le_0x7f: "(v :: u64) \<le> 0x7f \<longleftrightarrow> drop_bit 7 v = 0"
  by (rule u64_le_drop_bit) simp

lemma u64_le_0x3fff: "(v :: u64) \<le> 0x3fff \<longleftrightarrow> drop_bit 7 (drop_bit 7 v) = 0"
  using u64_le_drop_bit [of "0x3fff" 14 v] by simp

lemma PutVarint_eq_putVarint64: "sqlite3PutVarint v = putVarint64 v"
proof (cases "drop_bit 7 (drop_bit 7 v) = 0")
  case True
  have "drop_bit 56 v = drop_bit 42 (drop_bit 7 (drop_bit 7 v))" by simp
  also have "\<dots> = 0" by (simp only: True drop_bit_of_0)
  finally have small: "drop_bit 56 v = 0" .
  show ?thesis
    unfolding sqlite3PutVarint_def putVarint64_small [OF small] u64_le_0x7f u64_le_0x3fff
    using True by (auto simp: VarintLen_rec [of v] VarintLen_rec [of "drop_bit 7 v"]
        simp del: drop_bit_drop_bit)
next
  case False
  then show ?thesis
    unfolding sqlite3PutVarint_def u64_le_0x7f u64_le_0x3fff
    by (auto simp del: drop_bit_drop_bit)
qed

interpretation varint: codec sqlite3PutVarint sqlite3GetVarint
  by unfold_locales (simp only: GetVarint_from_0 PutVarint_eq_putVarint64 spec_putVarint64)

text \<open>C24: reading inverts writing. Whatever bytes follow, decoding the bytes that the varint writer
  stores for a 64-bit value returns that value and the number of bytes written.\<close>

theorem GetVarint_PutVarint:
  "sqlite3GetVarint (sqlite3PutVarint v @ q) = Some (length (sqlite3PutVarint v), v)"
  by (rule varint.dec_enc)

text \<open>varints written back to back can be read back one after the other, with nothing lost at
  the boundaries: this is how record headers and cells are laid out.\<close>

theorem decode_varint_run:
  "decode_seq sqlite3GetVarint (length vs) (concat (map sqlite3PutVarint vs) @ q) = Some (vs, q)"
  by (rule varint.decode_seq_enc)

lemma length_PutVarint: "length (sqlite3PutVarint v) = min 9 (sqlite3VarintLen v)"
proof (cases "drop_bit 56 v = 0")
  case True
  moreover have "sqlite3VarintLen v \<le> 8"
    using True by (intro VarintLen_le) auto
  ultimately show ?thesis
    using VarintLen_pos [of v]
    by (simp add: PutVarint_eq_putVarint64 putVarint64_small length_put9_loop)
next
  case False
  then have "8 < sqlite3VarintLen v"
    by (intro VarintLen_ge) simp
  with False show ?thesis
    unfolding PutVarint_eq_putVarint64 putVarint64_def and_top_byte by (simp add: length_put9_loop)
qed

lemma VarintLen_le_10: "sqlite3VarintLen v \<le> 10"
  by (rule VarintLen_le) (simp_all add: word_eq_bits word_bits)

text \<open>C31: \<open>sqlite3VarintLen\<close> is the number of bytes the writer stores for every value below
  \<open>2\<^sup>6\<^sup>3\<close>; for larger values the writer stores nine bytes and \<open>sqlite3VarintLen\<close>
  returns ten.\<close>

theorem VarintLen_PutVarint:
  "sqlite3VarintLen v =
     (if v < 0x8000000000000000 then length (sqlite3PutVarint v) else length (sqlite3PutVarint v) + 1)
   \<and> 1 \<le> length (sqlite3PutVarint v) \<and> length (sqlite3PutVarint v) \<le> 9"
proof -
  have "v < 0x8000000000000000 \<longleftrightarrow> unat (drop_bit 63 v) = 0"
    by (simp add: word_less_nat_alt unat_drop_bit_div div_eq_0_iff)
  then have "v < 0x8000000000000000 \<longleftrightarrow> drop_bit (7 * 9) v = 0"
    by (simp add: unat_eq_zero)
  then show ?thesis
    using VarintLen_le [of 9 v] VarintLen_ge [of 9 v] VarintLen_le_10 [of v] VarintLen_pos [of v]
    by (auto simp: length_PutVarint)
qed

lemma Get4byte_Put4byte: "sqlite3Get4byte (sqlite3Put4byte v @ q) = Some v"
  by (simp add: sqlite3Get4byte_def sqlite3Put4byte_def word_eq_bits, simp add: word_bits)

lemma Put4byte_Get4byte: "sqlite3Get4byte p = Some v \<Longrightarrow> sqlite3Put4byte v = take 4 p"
proof -
  assume g: "sqlite3Get4byte p = Some v"
  then obtain p0 p1 p2 p3 q where p: "p = p0 # p1 # p2 # p3 # q"
    by (auto simp: sqlite3Get4byte_def rd_def Suc_less_eq2 neq_Nil_conv length_Suc_conv
        split: if_splits bind_splits)
  show ?thesis
    using g by (auto simp: p sqlite3Get4byte_def sqlite3Put4byte_def word_eq_bits)
      (auto simp: word_bits)
qed

interpretation four_byte: codec sqlite3Put4byte "\<lambda>p. map_option (Pair 4) (sqlite3Get4byte p)"
  by unfold_locales (simp add: Get4byte_Put4byte, simp add: sqlite3Put4byte_def)

subsection \<open>The 32-bit reader\<close>

lemma sat32_and: "(if v AND 0xffffffff \<noteq> v then 0xffffffff else ucast v) = sat32 v"
proof -
  have "v AND 0xffffffff = take_bit 32 v"
    by (simp add: take_bit_eq_mask mask_eq_exp_minus_1)
  then have "v AND 0xffffffff = v \<longleftrightarrow> v \<le> 0xffffffff"
    using u64_le_drop_bit [of "0xffffffff" 32 v]
    by (simp add: take_bit_eq_self_iff_drop_bit_eq_0)
  then show ?thesis by (auto simp: sat32_def)
qed

lemma sat32_ucast: "sat32 (ucast (w :: u32)) = w"
proof -
  have "ucast w \<le> (0xffffffff :: u64)"
    using u64_le_drop_bit [of "0xffffffff" 32 "ucast w"] by (simp add: word_eq_bits word_bits)
  then show ?thesis by (simp add: sat32_def word_eq_bits word_bits)
qed

lemma u8_less_0x80: "(b :: u8) < 0x80 \<longleftrightarrow> \<not> bit b 7"
proof -
  have "b < 0x80 \<longleftrightarrow> unat b div 2 ^ 7 = 0"
    by (simp add: word_less_nat_alt div_eq_0_iff)
  also have "\<dots> \<longleftrightarrow> drop_bit 7 b = 0"
    by (metis unat_drop_bit_div unat_eq_zero)
  also have "\<dots> \<longleftrightarrow> \<not> bit b 7"
    by (simp add: word_eq_bits, simp add: word_bits)
  finally show ?thesis .
qed

lemma sat32_u8: "sat32 (ucast (b :: u8)) = ucast b"
proof -
  have "(ucast b :: u64) = ucast (ucast b :: u32)"
    by (simp add: word_eq_bits word_bits)
  then show ?thesis by (simp only: sat32_ucast)
qed

lemma GetVarint32_3:
  fixes p0 p1 p2 :: u8
  assumes "\<not> bit p2 7"
  shows "(push_bit 14 (ucast p0) OR ucast p2) AND SLOT_2_0 OR push_bit 7 (ucast p1 AND 0x7f) =
    (push_bit 14 (ucast (p0 AND 0x7f)) OR push_bit 7 (ucast (p1 AND 0x7f)) OR ucast p2 :: u32)"
  using assms by (simp add: word_eq_bits, simp add: word_bits)

lemma GetVarint32_saturates:
  assumes "rd p 0 = Some p0" and "bit p0 7"
  shows "sqlite3GetVarint32 p = map_option (\<lambda>(n, v). (n, sat32 v)) (sqlite3GetVarint p)"
proof (cases "rd p 1")
  case None
  with assms show ?thesis
    by (simp add: sqlite3GetVarint32_def sqlite3GetVarint_def sint_u8_nonneg)
next
  case (Some p1)
  note p1 = this
  show ?thesis
  proof (cases "bit p1 7")
    case False
    have "ucast (p0 AND 0x7f) = (ucast p0 AND 0x7f :: u32)"
      by (simp add: word_eq_bits word_bits)
    with assms p1 False show ?thesis
      by (simp add: sqlite3GetVarint32_def sqlite3GetVarint_def and_0x80 sint_u8_nonneg sat32_ucast)
  next
    case True
    note b1 = this
    show ?thesis
    proof (cases "rd p 2")
      case None
      with assms p1 b1 show ?thesis
        by (simp add: sqlite3GetVarint32_def sqlite3GetVarint_def and_0x80 sint_u8_nonneg Let_def)
    next
      case (Some p2)
      show ?thesis
      proof (cases "bit p2 7")
        case False
        with assms p1 b1 Some show ?thesis
          unfolding sqlite3GetVarint32_def sqlite3GetVarint_def
          by (simp add: and_0x80 sint_u8_nonneg Let_def sat32_ucast bit_simps
              GetVarint32_3 [simplified])
      next
        case True
        with assms p1 b1 Some show ?thesis
          by (simp add: sqlite3GetVarint32_def and_0x80 sat32_and map_option_case
              split: option.split)
      qed
    qed
  qed
qed

text \<open>C32: the 32-bit reader with its inlined one-, two- and three-byte cases returns what the
  64-bit reader returns, clamped to \<^verbatim>\<open>0xffffffff\<close>.\<close>

theorem getVarint32_saturates:
  "getVarint32 p = map_option (\<lambda>(n, v). (n, sat32 v)) (sqlite3GetVarint p)"
proof (cases "rd p 0")
  case None
  then show ?thesis by (simp add: getVarint32_def sqlite3GetVarint_def)
next
  case (Some p0)
  then show ?thesis
    by (cases "bit p0 7")
      (simp_all add: getVarint32_def u8_less_0x80 GetVarint32_saturates sqlite3GetVarint_def
        sint_u8_nonneg sat32_u8)
qed

end
