(* ===== verification/Bitvec.thy ===== *)
theory Bitvec
  imports Sqlite_Prelude
begin

text \<open>
  \<^verbatim>\<open>bitvec.c\<close>: a fixed-size bitmap with three representations chosen by size and
  occupancy: a plain bitmap, an open-addressing hash table of the members, and a table of
  sub-bitmaps. A \<open>Bitvec\<close> owns its sub-bitmaps and never shares them, so it is a tree here. A
  result \<open>None\<close> stands for a run that reads outside an array, follows a representation that the
  union does not hold, or does not end; the theory shows that well-formed bitmaps never produce it.
\<close>

subsection \<open>Compile-time parameters (64-bit pointers)\<close>

definition BITVEC_SZ :: nat where "BITVEC_SZ = 512"
definition BITVEC_USIZE :: nat where "BITVEC_USIZE = ((BITVEC_SZ - 3 * 4) div 8) * 8"
definition BITVEC_SZELEM :: nat where "BITVEC_SZELEM = 8"
definition BITVEC_NELEM :: nat where "BITVEC_NELEM = BITVEC_USIZE div 1"
definition BITVEC_NBIT :: nat where "BITVEC_NBIT = BITVEC_NELEM * BITVEC_SZELEM"
definition BITVEC_NINT :: nat where "BITVEC_NINT = BITVEC_USIZE div 4"
definition BITVEC_MXHASH :: nat where "BITVEC_MXHASH = BITVEC_NINT div 2"
definition BITVEC_NPTR :: nat where "BITVEC_NPTR = BITVEC_USIZE div 8"

definition BITVEC_HASH :: "u32 \<Rightarrow> nat" where
  "BITVEC_HASH x = unat (x * 1) mod BITVEC_NINT"

subsection \<open>The structure\<close>

datatype bitvec =
  Bitvec (iSize: u32) (nSet: u32) (iDivisor: u32) (bvu: bv_union)
and bv_union =
  ABitmap "u8 list" | AHash "u32 list" | ApSub "bitvec option list"

subsection \<open>Operations\<close>

text \<open>A fresh object is zero-filled, which reads as an empty array of whichever member of the union
  \<open>iSize\<close> selects.\<close>

definition sqlite3BitvecCreate :: "(nat \<Rightarrow> bool) \<Rightarrow> nat \<Rightarrow> u32 \<Rightarrow> bitvec option \<times> nat" where
  "sqlite3BitvecCreate mem k n =
     (if mem k
      then (Some (Bitvec n 0 0
              (if unat n \<le> BITVEC_NBIT then ABitmap (replicate BITVEC_NELEM 0)
               else AHash (replicate BITVEC_NINT 0))), Suc k)
      else (None, Suc k))"

fun bv_test_loop :: "nat \<Rightarrow> u32 list \<Rightarrow> u32 \<Rightarrow> nat \<Rightarrow> bool option" where
  "bv_test_loop 0 a i h = None"
| "bv_test_loop (Suc fuel) a i h =
     (if h < length a then
        if a ! h = 0 then Some False
        else if a ! h = i then Some True
        else bv_test_loop fuel a i ((h + 1) mod BITVEC_NINT)
      else None)"

definition bv_test_leaf :: "bitvec \<Rightarrow> u32 \<Rightarrow> bool option" where
  "bv_test_leaf p i =
     (if unat (iSize p) \<le> BITVEC_NBIT then
        (case bvu p of
           ABitmap a \<Rightarrow>
             if unat i div BITVEC_SZELEM < length a
             then Some (a ! (unat i div BITVEC_SZELEM) AND push_bit (unat (i AND 7)) 1 \<noteq> 0)
             else None
         | _ \<Rightarrow> None)
      else
        (case bvu p of
           AHash a \<Rightarrow> bv_test_loop BITVEC_NINT a (i + 1) (BITVEC_HASH i)
         | _ \<Rightarrow> None))"

function bv_test_from :: "bitvec \<Rightarrow> u32 \<Rightarrow> bool option" where
  "bv_test_from (Bitvec n s d u) i =
     (if d \<noteq> 0 then
        (case u of
           ApSub subs \<Rightarrow>
             (let bin = unat (i div d) in
              if bin < length subs then
                (case subs ! bin of
                   None \<Rightarrow> Some False
                 | Some q \<Rightarrow> bv_test_from q (i mod d))
              else None)
         | _ \<Rightarrow> None)
      else bv_test_leaf (Bitvec n s d u) i)"
  by pat_completeness auto

lemma size_bv_sub:
  assumes "b < length subs" and "subs ! b = Some q"
  shows "size q < Suc (size_list (size_option size) subs)"
proof -
  have "Some q \<in> set subs"
    using assms by (metis nth_mem)
  then have "size_option size (Some q) \<le> size_list (size_option size) subs"
    by (rule size_list_estimation') simp
  then show ?thesis by simp
qed

termination bv_test_from
  by (relation "measure (\<lambda>(p, i). size p)") (auto dest: size_bv_sub simp: less_SucI)

declare bv_test_from.simps [simp del]

definition sqlite3BitvecTestNotNull :: "bitvec \<Rightarrow> u32 \<Rightarrow> bool option" where
  "sqlite3BitvecTestNotNull p i =
     (let i = i - 1 in if i \<ge> iSize p then Some False else bv_test_from p i)"

definition sqlite3BitvecTest :: "bitvec option \<Rightarrow> u32 \<Rightarrow> bool option" where
  "sqlite3BitvecTest po i =
     (case po of None \<Rightarrow> Some False | Some p \<Rightarrow> sqlite3BitvecTestNotNull p i)"

text \<open>The probe of \<open>sqlite3BitvecSet\<close> after a collision: \<open>Some None\<close> when the value is already
  in the table, \<open>Some (Some h)\<close> with the first free slot otherwise.\<close>

fun bv_set_loop :: "nat \<Rightarrow> u32 list \<Rightarrow> u32 \<Rightarrow> nat \<Rightarrow> nat option option" where
  "bv_set_loop 0 a i h = None"
| "bv_set_loop (Suc fuel) a i h =
     (if h < length a then
        if a ! h = i then Some None
        else
          let h = h + 1; h = (if h \<ge> BITVEC_NINT then 0 else h) in
          if h < length a then
            if a ! h \<noteq> 0 then bv_set_loop fuel a i h else Some (Some h)
          else None
      else None)"

definition bv_set_end :: "bitvec \<Rightarrow> u32 list \<Rightarrow> nat \<Rightarrow> u32 \<Rightarrow> bitvec" where
  "bv_set_end p a h i = Bitvec (iSize p) (nSet p + 1) (iDivisor p) (AHash (a[h := i]))"

definition bv_divisor :: "u32 \<Rightarrow> u32" where
  "bv_divisor n =
     (let d = n div of_nat BITVEC_NPTR;
          d = (if n mod of_nat BITVEC_NPTR \<noteq> 0 then d + 1 else d)
      in if unat d < BITVEC_NBIT then of_nat BITVEC_NBIT else d)"

fun bv_reinsert ::
  "(nat \<Rightarrow> bitvec \<Rightarrow> u32 \<Rightarrow> (bitvec \<times> rc \<times> nat) option) \<Rightarrow> u32 list \<Rightarrow> bitvec \<Rightarrow> rc \<Rightarrow> nat
   \<Rightarrow> (bitvec \<times> rc \<times> nat) option"
where
  "bv_reinsert set_fn [] p rc k = Some (p, rc, k)"
| "bv_reinsert set_fn (v # vs) p rc k =
     (if v \<noteq> 0 then do {
        (p, rc', k) \<leftarrow> set_fn k p v;
        bv_reinsert set_fn vs p (rc OR rc') k
      } else bv_reinsert set_fn vs p rc k)"

text \<open>\<open>bv_set_from\<close> is \<open>sqlite3BitvecSet\<close> from the line after \<^verbatim>\<open>i--\<close> on: each turn
  of its descent into a sub-bitmap and each recursive call of the rehash spends one unit of fuel.\<close>

fun bv_set_from ::
  "nat \<Rightarrow> (nat \<Rightarrow> bool) \<Rightarrow> nat \<Rightarrow> bitvec \<Rightarrow> u32 \<Rightarrow> (bitvec \<times> rc \<times> nat) option"
where
  "bv_set_from 0 mem k p i = None"
| "bv_set_from (Suc fuel) mem k p i =
     (if unat (iSize p) > BITVEC_NBIT \<and> iDivisor p \<noteq> 0 then
        (case bvu p of
           ApSub subs \<Rightarrow>
             (let bin = unat (i div iDivisor p); i = i mod iDivisor p in
              if bin < length subs then
                (case (case subs ! bin of
                         None \<Rightarrow> sqlite3BitvecCreate mem k (iDivisor p)
                       | Some q \<Rightarrow> (Some q, k)) of
                   (None, k) \<Rightarrow> Some (p, SQLITE_NOMEM, k)
                 | (Some q, k) \<Rightarrow> do {
                     (q, rc, k) \<leftarrow> bv_set_from fuel mem k q i;
                     Some (Bitvec (iSize p) (nSet p) (iDivisor p) (ApSub (subs[bin := Some q])),
                           rc, k)
                   })
              else None)
         | _ \<Rightarrow> None)
      else if unat (iSize p) \<le> BITVEC_NBIT then
        (case bvu p of
           ABitmap a \<Rightarrow>
             (let j = unat i div BITVEC_SZELEM in
              if j < length a then
                Some (Bitvec (iSize p) (nSet p) (iDivisor p)
                        (ABitmap (a[j := a ! j OR push_bit (unat (i AND 7)) 1])), SQLITE_OK, k)
              else None)
         | _ \<Rightarrow> None)
      else
        (case bvu p of
           AHash a \<Rightarrow>
             (let h = BITVEC_HASH i; i = i + 1;
                  rehash = (\<lambda>h.
                    if unat (nSet p) \<ge> BITVEC_MXHASH then
                      if \<not> mem k then Some (p, SQLITE_NOMEM, Suc k)
                      else do {
                        (p, rc, k) \<leftarrow> bv_set_from fuel mem (Suc k)
                          (Bitvec (iSize p) (nSet p) (bv_divisor (iSize p))
                            (ApSub (replicate BITVEC_NPTR None))) (i - 1);
                        bv_reinsert (\<lambda>k p v. bv_set_from fuel mem k p (v - 1)) a p rc k
                      }
                    else Some (bv_set_end p a h i, SQLITE_OK, k))
              in if h < length a then
                   if a ! h = 0 then
                     if unat (nSet p) < BITVEC_NINT - 1
                     then Some (bv_set_end p a h i, SQLITE_OK, k)
                     else rehash h
                   else
                     (case bv_set_loop BITVEC_NINT a i h of
                        None \<Rightarrow> None
                      | Some None \<Rightarrow> Some (p, SQLITE_OK, k)
                      | Some (Some h) \<Rightarrow> rehash h)
                 else None)
         | _ \<Rightarrow> None))"

text \<open>Nine units cover every 32-bit size (see \<open>bv_set_from_ok\<close>).\<close>

definition bitvec_fuel :: nat where "bitvec_fuel = 9"

definition sqlite3BitvecSet ::
  "(nat \<Rightarrow> bool) \<Rightarrow> nat \<Rightarrow> bitvec option \<Rightarrow> u32 \<Rightarrow> (bitvec option \<times> rc \<times> nat) option"
where
  "sqlite3BitvecSet mem k po i =
     (case po of
        None \<Rightarrow> Some (None, SQLITE_OK, k)
      | Some p \<Rightarrow> do {
          (p, rc, k) \<leftarrow> bv_set_from bitvec_fuel mem k p (i - 1);
          Some (Some p, rc, k)
        })"

fun bv_free_slot :: "nat \<Rightarrow> u32 list \<Rightarrow> nat \<Rightarrow> nat option" where
  "bv_free_slot 0 a h = None"
| "bv_free_slot (Suc fuel) a h =
     (if h < length a then
        if a ! h \<noteq> 0
        then let h = h + 1; h = (if h \<ge> BITVEC_NINT then 0 else h) in bv_free_slot fuel a h
        else Some h
      else None)"

fun bv_clear_loop :: "u32 list \<Rightarrow> u32 \<Rightarrow> u32 list \<Rightarrow> u32 \<Rightarrow> (u32 list \<times> u32) option" where
  "bv_clear_loop [] i a n = Some (a, n)"
| "bv_clear_loop (v # vs) i a n =
     (if v \<noteq> 0 \<and> v \<noteq> i + 1 then do {
        h \<leftarrow> bv_free_slot BITVEC_NINT a (BITVEC_HASH (v - 1));
        bv_clear_loop vs i (a[h := v]) (n + 1)
      } else bv_clear_loop vs i a n)"

definition bv_clear_leaf :: "bitvec \<Rightarrow> u32 \<Rightarrow> bitvec option" where
  "bv_clear_leaf p i =
     (if unat (iSize p) \<le> BITVEC_NBIT then
        (case bvu p of
           ABitmap a \<Rightarrow>
             (let j = unat i div BITVEC_SZELEM in
              if j < length a then
                Some (Bitvec (iSize p) (nSet p) (iDivisor p)
                        (ABitmap (a[j := a ! j AND NOT (push_bit (unat (i AND 7)) 1)])))
              else None)
         | _ \<Rightarrow> None)
      else
        (case bvu p of
           AHash a \<Rightarrow> do {
             (a, n) \<leftarrow> bv_clear_loop a i (replicate BITVEC_NINT 0) 0;
             Some (Bitvec (iSize p) n (iDivisor p) (AHash a))
           }
         | _ \<Rightarrow> None))"

function bv_clear_from :: "bitvec \<Rightarrow> u32 \<Rightarrow> bitvec option" where
  "bv_clear_from (Bitvec n s d u) i =
     (if d \<noteq> 0 then
        (case u of
           ApSub subs \<Rightarrow>
             (let bin = unat (i div d) in
              if bin < length subs then
                (case subs ! bin of
                   None \<Rightarrow> Some (Bitvec n s d u)
                 | Some q \<Rightarrow> do {
                     q \<leftarrow> bv_clear_from q (i mod d);
                     Some (Bitvec n s d (ApSub (subs[bin := Some q])))
                   })
              else None)
         | _ \<Rightarrow> None)
      else bv_clear_leaf (Bitvec n s d u) i)"
  by pat_completeness auto
termination bv_clear_from
  by (relation "measure (\<lambda>(p, i). size p)") (auto dest: size_bv_sub simp: less_SucI)

declare bv_clear_from.simps [simp del]

definition sqlite3BitvecClear :: "bitvec option \<Rightarrow> u32 \<Rightarrow> bitvec option option" where
  "sqlite3BitvecClear po i =
     (case po of
        None \<Rightarrow> Some None
      | Some p \<Rightarrow> do { p \<leftarrow> bv_clear_from p (i - 1); Some (Some p) })"

definition sqlite3BitvecSize :: "bitvec \<Rightarrow> u32" where
  "sqlite3BitvecSize p = iSize p"

declare bv_test_loop.simps [simp del] bv_set_loop.simps [simp del] bv_free_slot.simps [simp del]

subsection \<open>Linear probing\<close>

lemma bitvec_params:
  "BITVEC_NBIT = 3968" "BITVEC_NINT = 124" "BITVEC_MXHASH = 62" "BITVEC_NPTR = 62"
  "BITVEC_NELEM = 496" "BITVEC_SZELEM = 8"
  by (simp_all add: BITVEC_NBIT_def BITVEC_NINT_def BITVEC_MXHASH_def BITVEC_NPTR_def
      BITVEC_NELEM_def BITVEC_SZELEM_def BITVEC_USIZE_def BITVEC_SZ_def)

definition slot :: "u32 list \<Rightarrow> nat \<Rightarrow> nat \<Rightarrow> u32" where
  "slot a h m = a ! ((h + m) mod length a)"

definition first_free :: "u32 list \<Rightarrow> nat \<Rightarrow> nat \<Rightarrow> bool" where
  "first_free a h m \<longleftrightarrow> m < length a \<and> slot a h m = 0 \<and> (\<forall>j < m. slot a h j \<noteq> 0)"

abbreviation nonzero :: "u32 list \<Rightarrow> u32 list" where
  "nonzero a \<equiv> filter (\<lambda>x. x \<noteq> 0) a"

lemma free_slot_exists:
  assumes "length (nonzero a) < length a"
  shows "\<exists>k < length a. a ! k = 0"
proof (rule ccontr)
  assume "\<not> (\<exists>k < length a. a ! k = 0)"
  then have "nonzero a = a"
    by (auto simp: filter_id_conv in_set_conv_nth)
  with assms show False by simp
qed

lemma first_free_exists:
  assumes "length (nonzero a) < length a" and "h < length a"
  shows "\<exists>m. first_free a h m"
proof -
  obtain k where k: "k < length a" "a ! k = 0"
    using free_slot_exists [OF assms(1)] by blast
  let ?P = "\<lambda>m. slot a h m = 0"
  have "(h + (k + length a - h) mod length a) mod length a = (h + (k + length a - h)) mod length a"
    by (rule mod_add_right_eq)
  also have "\<dots> = k"
    using assms k by simp
  finally have P: "?P ((k + length a - h) mod length a)"
    using k by (simp only: slot_def)
  define m where "m = (LEAST m. ?P m)"
  have "?P m" "m \<le> (k + length a - h) mod length a"
    unfolding m_def by (rule LeastI [of ?P, OF P], rule Least_le [of ?P, OF P])
  moreover have "\<forall>j < m. \<not> ?P j"
    unfolding m_def using not_less_Least [of _ ?P] by blast
  moreover have "(k + length a - h) mod length a < length a"
    using k by (intro mod_less_divisor) auto
  ultimately have "first_free a h m"
    by (simp add: first_free_def)
  then show ?thesis ..
qed

lemma first_free_pos: "first_free a h m \<Longrightarrow> x mod length a < length a"
  by (cases a) (simp_all add: first_free_def)

lemma slot_Suc: "slot a h (Suc m) = slot a (Suc h mod length a) m"
  by (simp add: slot_def mod_add_left_eq)

lemma slot_0: "h < length a \<Longrightarrow> slot a h 0 = a ! h"
  by (simp add: slot_def)

lemma first_free_0: "h < length a \<Longrightarrow> first_free a h 0 \<longleftrightarrow> a ! h = 0"
  by (auto simp: first_free_def slot_0)

lemma first_free_Suc:
  assumes "h < length a" and "first_free a h (Suc m)"
  shows "a ! h \<noteq> 0" and "first_free a (Suc h mod length a) m"
    and "Suc h mod length a < length a"
  using assms slot_0 [OF assms(1)]
    first_free_pos [OF assms(2)] by (auto simp: first_free_def slot_Suc [symmetric])

lemma ex_less_Suc_0: "(\<exists>j < Suc m. P j) \<longleftrightarrow> P 0 \<or> (\<exists>j < m. P (Suc j))"
  by (metis less_Suc_eq_0_disj)

text \<open>One turn of each loop, with the wrapped successor as a remainder.\<close>

lemma probe_steps:
  assumes "length a = BITVEC_NINT" and "h < length a"
  shows "bv_test_loop (Suc f) a i h =
      (if a ! h = 0 then Some False else if a ! h = i then Some True
       else bv_test_loop f a i (Suc h mod length a))"
    and "bv_set_loop (Suc f) a i h =
      (if a ! h = i then Some None
       else if a ! (Suc h mod length a) \<noteq> 0 then bv_set_loop f a i (Suc h mod length a)
       else Some (Some (Suc h mod length a)))"
    and "bv_free_slot (Suc f) a h =
      (if a ! h \<noteq> 0 then bv_free_slot f a (Suc h mod length a) else Some h)"
  using assms
  by (cases "Suc h = BITVEC_NINT";
      simp add: Let_def bv_test_loop.simps bv_set_loop.simps bv_free_slot.simps)+

lemma test_loop_result:
  assumes "length a = BITVEC_NINT" and "i \<noteq> 0"
  shows "first_free a h m \<Longrightarrow> h < length a \<Longrightarrow> m < fuel \<Longrightarrow>
    bv_test_loop fuel a i h = Some (\<exists>j < m. slot a h j = i)"
proof (induction m arbitrary: h fuel)
  case 0
  then show ?case
    by (cases fuel) (simp_all add: first_free_0 probe_steps [OF assms(1)])
next
  case (Suc m)
  then obtain f where f: "fuel = Suc f" by (cases fuel) auto
  note ff = first_free_Suc [OF Suc.prems(2,1)]
  show ?case
    using Suc.IH [OF ff(2,3), of f] Suc.prems ff(1) f
    by (simp add: probe_steps [OF assms(1)] ex_less_Suc_0 slot_0 slot_Suc)
qed

lemma set_loop_result:
  assumes "length a = BITVEC_NINT"
  shows "first_free a h (Suc m) \<Longrightarrow> h < length a \<Longrightarrow> m < fuel \<Longrightarrow>
    bv_set_loop fuel a i h =
      Some (if \<exists>j < Suc m. slot a h j = i then None else Some ((h + Suc m) mod length a))"
proof (induction m arbitrary: h fuel)
  case 0
  then obtain f where f: "fuel = Suc f" by (cases fuel) auto
  note ff = first_free_Suc [OF "0.prems"(2,1)]
  show ?case
    using ff "0.prems" f first_free_0 [OF ff(3)]
    by (simp add: probe_steps [OF assms] slot_0)
next
  case (Suc m)
  then obtain f where f: "fuel = Suc f" by (cases fuel) auto
  note ff = first_free_Suc [OF Suc.prems(2,1)]
  have idx: "(Suc h mod length a + Suc m) mod length a = (h + Suc (Suc m)) mod length a"
    by (metis add_Suc_shift mod_add_left_eq)
  have "bv_set_loop fuel a i h =
    (if a ! h = i then Some None else bv_set_loop f a i (Suc h mod length a))"
    using first_free_Suc(1) [OF ff(3,2)] Suc.prems f by (simp add: probe_steps(2) [OF assms])
  then show ?case
    using Suc.IH [OF ff(2,3), of f] Suc.prems f idx
    by (auto simp: ex_less_Suc_0 [of "Suc m"] slot_0 slot_Suc [of a h])
qed

lemma free_slot_result:
  assumes "length a = BITVEC_NINT"
  shows "first_free a h m \<Longrightarrow> h < length a \<Longrightarrow> m < fuel \<Longrightarrow>
    bv_free_slot fuel a h = Some ((h + m) mod length a)"
proof (induction m arbitrary: h fuel)
  case 0
  then show ?case
    by (cases fuel) (simp_all add: first_free_0 probe_steps [OF assms(1)])
next
  case (Suc m)
  then obtain f where f: "fuel = Suc f" by (cases fuel) auto
  note ff = first_free_Suc [OF Suc.prems(2,1)]
  show ?case
    using Suc.IH [OF ff(2,3), of f] Suc.prems ff(1) f
    by (simp add: probe_steps [OF assms] mod_add_left_eq)
qed

subsection \<open>The hash-table invariant\<close>

definition probe_ok :: "u32 list \<Rightarrow> bool" where
  "probe_ok a \<longleftrightarrow>
     (\<forall>k < length a. a ! k \<noteq> 0 \<longrightarrow>
        (\<exists>m. k = (BITVEC_HASH (a ! k - 1) + m) mod length a \<and>
             (\<forall>j < m. slot a (BITVEC_HASH (a ! k - 1)) j \<noteq> 0)))"

definition table_ok :: "u32 list \<Rightarrow> bool" where
  "table_ok a \<longleftrightarrow> length a = BITVEC_NINT \<and> probe_ok a \<and> distinct (nonzero a)
     \<and> length (nonzero a) < length a"

lemma hash_less: "table_ok a \<Longrightarrow> BITVEC_HASH x < length a"
  by (simp add: table_ok_def BITVEC_HASH_def bitvec_params)

lemma probe_finds:
  assumes "probe_ok a" and "first_free a (BITVEC_HASH (v - 1)) m" and "v \<noteq> 0"
  shows "(\<exists>j < m. slot a (BITVEC_HASH (v - 1)) j = v) \<longleftrightarrow> v \<in> set a"
proof
  assume "\<exists>j < m. slot a (BITVEC_HASH (v - 1)) j = v"
  then obtain j where "a ! ((BITVEC_HASH (v - 1) + j) mod length a) = v"
    by (auto simp: slot_def)
  moreover have "(BITVEC_HASH (v - 1) + j) mod length a < length a"
    using assms(2) by (rule first_free_pos)
  ultimately show "v \<in> set a"
    by (metis nth_mem)
next
  let ?h = "BITVEC_HASH (v - 1)"
  assume "v \<in> set a"
  then obtain k where k: "k < length a" "a ! k = v"
    by (auto simp: in_set_conv_nth)
  then obtain m' where m': "k = (?h + m') mod length a" "\<forall>j < m'. slot a ?h j \<noteq> 0"
    using assms(1,3) unfolding probe_ok_def by blast
  then have s: "slot a ?h m' = v"
    using k(2) by (simp only: slot_def)
  with m'(2) have "\<not> m \<le> m'"
    using assms(2,3) m'(2) by (auto simp: first_free_def le_less)
  with s show "\<exists>j < m. slot a ?h j = v" by (meson not_le)
qed

lemma nonzero_update:
  fixes a :: "u32 list"
  assumes "k < length a" and "a ! k = 0" and "v \<noteq> 0"
  obtains xs ys where "nonzero a = xs @ ys" and "nonzero (a[k := v]) = xs @ v # ys"
proof
  show "nonzero a = nonzero (take k a) @ nonzero (drop (Suc k) a)"
    using assms by (subst id_take_nth_drop [OF assms(1)]) simp
  show "nonzero (a[k := v]) = nonzero (take k a) @ v # nonzero (drop (Suc k) a)"
    using assms by (simp add: upd_conv_take_nth_drop)
qed

lemma table_insert:
  assumes "table_ok a" and "first_free a (BITVEC_HASH (v - 1)) m" and "v \<noteq> 0" and "v \<notin> set a"
    and "Suc (length (nonzero a)) < length a"
  defines "k \<equiv> (BITVEC_HASH (v - 1) + m) mod length a"
  shows "table_ok (a[k := v])" and "length (nonzero (a[k := v])) = Suc (length (nonzero a))"
    and "set (nonzero (a[k := v])) = insert v (set (nonzero a))"
proof -
  let ?h = "BITVEC_HASH (v - 1)"
  have k: "k < length a" "a ! k = 0"
    using assms(2) first_free_pos [OF assms(2)] by (simp_all add: first_free_def k_def slot_def)
  then obtain xs ys where xy: "nonzero a = xs @ ys" "nonzero (a[k := v]) = xs @ v # ys"
    using nonzero_update assms(3) by blast
  then show len: "length (nonzero (a[k := v])) = Suc (length (nonzero a))"
    and "set (nonzero (a[k := v])) = insert v (set (nonzero a))"
    by auto
  have mono: "slot a h j \<noteq> 0 \<Longrightarrow> slot (a[k := v]) h j \<noteq> 0" for h j
    using assms(3) k by (auto simp: slot_def nth_list_update)
  have "probe_ok (a[k := v])"
    unfolding probe_ok_def
  proof (intro allI impI)
    fix l
    assume l: "l < length (a[k := v])" "a[k := v] ! l \<noteq> 0"
    show "\<exists>m. l = (BITVEC_HASH (a[k := v] ! l - 1) + m) mod length (a[k := v]) \<and>
      (\<forall>j < m. slot (a[k := v]) (BITVEC_HASH (a[k := v] ! l - 1)) j \<noteq> 0)"
    proof (cases "l = k")
      case True
      then show ?thesis
        using assms(2) k mono by (auto simp: first_free_def k_def)
    next
      case False
      then have "a[k := v] ! l = a ! l" by simp
      moreover obtain m' where "l = (BITVEC_HASH (a ! l - 1) + m') mod length a"
        "\<forall>j < m'. slot a (BITVEC_HASH (a ! l - 1)) j \<noteq> 0"
        using assms(1) l False unfolding table_ok_def probe_ok_def by auto
      ultimately show ?thesis
        using mono by auto
    qed
  qed
  moreover have "distinct (nonzero (a[k := v]))"
  proof -
    have "v \<notin> set (xs @ ys)"
      using assms(4) by (simp only: xy(1) [symmetric]) simp
    then show ?thesis
      using assms(1) xy by (auto simp: table_ok_def)
  qed
  ultimately show "table_ok (a[k := v])"
    using assms(1,5) len by (simp add: table_ok_def)
qed

subsection \<open>Well-formed bitmaps and their members\<close>

definition hash_ok :: "u32 \<Rightarrow> u32 \<Rightarrow> u32 list \<Rightarrow> bool" where
  "hash_ok n s a \<longleftrightarrow>
     table_ok a \<and> unat s = length (nonzero a) \<and> (\<forall>x \<in> set a. x \<le> n)"

definition bitmap_ok :: "u32 \<Rightarrow> u8 list \<Rightarrow> bool" where
  "bitmap_ok n a \<longleftrightarrow>
     length a = BITVEC_NELEM \<and> (\<forall>i < BITVEC_NBIT. bit (a ! (i div 8)) (i mod 8) \<longrightarrow> i < unat n)"

function bv_wf :: "bitvec \<Rightarrow> bool" where
  "bv_wf (Bitvec n s d u) =
     (if unat n \<le> BITVEC_NBIT then d = 0 \<and> (case u of ABitmap a \<Rightarrow> bitmap_ok n a | _ \<Rightarrow> False)
      else if d = 0 then (case u of AHash a \<Rightarrow> hash_ok n s a | _ \<Rightarrow> False)
      else d = bv_divisor n \<and>
        (case u of
           ApSub subs \<Rightarrow> length subs = BITVEC_NPTR \<and>
             list_all (\<lambda>sub. case sub of None \<Rightarrow> True | Some q \<Rightarrow> iSize q = d \<and> bv_wf q) subs
         | _ \<Rightarrow> False))"
  by pat_completeness auto

lemma size_bv_mem:
  assumes "Some q \<in> set subs"
  shows "size q < Suc (size_list (size_option size) subs)"
  using assms size_bv_sub by (metis in_set_conv_nth)

termination bv_wf
  by (relation "measure size") (auto dest: size_bv_mem simp: less_SucI)

declare bv_wf.simps [simp del]

text \<open>Membership, with the zero-based index the code uses after \<^verbatim>\<open>i--\<close>.\<close>

function bv_mem :: "bitvec \<Rightarrow> nat \<Rightarrow> bool" where
  "bv_mem (Bitvec n s d u) i =
     (case u of
        ABitmap a \<Rightarrow> i div 8 < length a \<and> bit (a ! (i div 8)) (i mod 8)
      | AHash a \<Rightarrow> \<exists>x \<in> set a. x \<noteq> 0 \<and> unat x = Suc i
      | ApSub subs \<Rightarrow>
          if i div unat d < length subs
          then (case subs ! (i div unat d) of None \<Rightarrow> False | Some q \<Rightarrow> bv_mem q (i mod unat d))
          else False)"
  by pat_completeness auto
termination bv_mem
  by (relation "measure (\<lambda>(p, i). size p)") (auto dest: size_bv_sub simp: less_SucI)

declare bv_mem.simps [simp del]

text \<open>The abstract value of a bitmap: the set of the bits that are set, numbered from one.\<close>

definition bits :: "bitvec \<Rightarrow> nat set" where
  "bits p = {i. 0 < i \<and> bv_mem p (i - 1)}"

lemma ceil_div_62:
  fixes q r :: nat
  assumes "r < 62"
  shows "(62 * q + r + 61) div 62 = (if r \<noteq> 0 then Suc q else q)"
proof (cases r)
  case (Suc s)
  then have "62 * q + r + 61 = 62 * Suc q + s" "s < 62" using assms by simp_all
  then show ?thesis using Suc by (simp only: div_mult_self4) simp
qed simp

lemma unat_bv_divisor: "unat (bv_divisor n) = max 3968 ((unat n + 61) div 62)"
proof -
  have ceil: "(N + 61) div 62 = (if N mod 62 \<noteq> 0 then Suc (N div 62) else N div 62)" for N :: nat
    using ceil_div_62 [of "N mod 62" "N div 62"] by simp
  let ?d = "n div of_nat BITVEC_NPTR" and ?m = "n mod of_nat BITVEC_NPTR"
  have d: "unat ?d = unat n div 62" and m: "unat ?m = unat n mod 62"
    by (simp_all add: bitvec_params unat_div unat_mod)
  have "unat (?d + 1) = (unat ?d + 1) mod 2 ^ 32"
    by (simp add: unat_word_ariths)
  also have "\<dots> = Suc (unat n div 62)"
    using unat_bounds(3) [of n] by (simp only: d) simp
  finally have "unat (?d + 1) = Suc (unat n div 62)" .
  moreover have "?m \<noteq> 0 \<longleftrightarrow> unat n mod 62 \<noteq> 0"
    unfolding m [symmetric] unat_eq_zero ..
  ultimately show ?thesis
    using d by (simp only: bv_divisor_def Let_def ceil if_distrib [of unat] bitvec_params(1)) simp
qed

lemma bv_divisor_bounds:
  assumes "BITVEC_NBIT < unat n"
  shows "bv_divisor n \<noteq> 0" and "unat n \<le> 62 * unat (bv_divisor n)"
    and "unat n \<le> 62 * b \<Longrightarrow> BITVEC_NBIT \<le> b \<Longrightarrow> unat (bv_divisor n) \<le> b"
  using unat_bv_divisor [of n] by (auto simp: bitvec_params unat_eq_zero [symmetric] max_def)

lemma unat_and_7: "unat (i AND 7 :: u32) = unat i mod 8"
proof -
  have "i AND 7 = take_bit 3 i"
    by (simp add: take_bit_eq_mask mask_eq_exp_minus_1)
  then show ?thesis
    by (simp add: take_bit_eq_mod unat_mod)
qed

lemma div_mod_eq_iff: "x div n = y div n \<and> x mod n = y mod n \<longleftrightarrow> x = (y :: nat)"
  by (metis div_mult_mod_eq)

lemma bitmap_index:
  assumes "length a = BITVEC_NELEM" and "i < 3968"
  shows "i div 8 < length a"
  using assms by (simp add: bitvec_params)

lemma bitmap_update:
  assumes "length (a :: u8 list) = BITVEC_NELEM" and "i < 3968"
  shows "x div 8 < length a \<and> bit (a[i div 8 := a ! (i div 8) OR push_bit (i mod 8) 1] ! (x div 8)) (x mod 8)
     \<longleftrightarrow> x = i \<or> x div 8 < length a \<and> bit (a ! (x div 8)) (x mod 8)"
    and "x div 8 < length a \<and> bit (a[i div 8 := a ! (i div 8) AND NOT (push_bit (i mod 8) 1)] ! (x div 8)) (x mod 8)
     \<longleftrightarrow> x \<noteq> i \<and> x div 8 < length a \<and> bit (a ! (x div 8)) (x mod 8)"
  using bitmap_index [OF assms] div_mod_eq_iff [of x 8 i]
  by (auto simp: nth_list_update bit_simps)

lemma probe_test:
  assumes "table_ok a" and "v \<noteq> 0"
  shows "bv_test_loop BITVEC_NINT a v (BITVEC_HASH (v - 1)) = Some (v \<in> set a)"
proof -
  note h = hash_less [OF assms(1), of "v - 1"]
  obtain m where m: "first_free a (BITVEC_HASH (v - 1)) m"
    using first_free_exists [OF _ h] assms(1) by (auto simp: table_ok_def)
  then have "m < BITVEC_NINT"
    using assms(1) by (simp add: first_free_def table_ok_def)
  then show ?thesis
    using test_loop_result [OF _ assms(2) m h] probe_finds [OF _ m assms(2)] assms(1)
    by (simp add: table_ok_def)
qed

lemma sub_index:
  assumes "BITVEC_NBIT < unat n" and "unat i < unat n"
  shows "unat (i div bv_divisor n) < BITVEC_NPTR"
    and "unat (i div bv_divisor n) = unat i div unat (bv_divisor n)"
    and "unat (i mod bv_divisor n) = unat i mod unat (bv_divisor n)"
    and "unat i mod unat (bv_divisor n) < unat (bv_divisor n)"
proof -
  let ?d = "bv_divisor n"
  show e: "unat (i div ?d) = unat i div unat ?d" and "unat (i mod ?d) = unat i mod unat ?d"
    by (simp_all add: unat_div unat_mod)
  have "0 < unat ?d"
    using unat_bv_divisor [of n] by simp
  then show "unat i mod unat ?d < unat ?d" by simp
  have "unat i < 62 * unat ?d"
    using bv_divisor_bounds(2) [OF assms(1)] assms(2) by linarith
  then show "unat (i div ?d) < BITVEC_NPTR"
    by (simp add: e bitvec_params less_mult_imp_div_less)
qed

lemma bv_wf_sub:
  assumes "bv_wf (Bitvec n s d (ApSub subs))"
  shows "BITVEC_NBIT < unat n" and "d = bv_divisor n" and "d \<noteq> 0" and "length subs = BITVEC_NPTR"
    and "b < length subs \<Longrightarrow> subs ! b = Some q \<Longrightarrow> iSize q = d \<and> bv_wf q"
  using assms by (auto simp: bv_wf.simps list_all_length split: if_splits option.splits)

lemma bv_test_from_ok:
  "bv_wf p \<Longrightarrow> unat i < unat (iSize p) \<Longrightarrow> bv_test_from p i = Some (bv_mem p (unat i))"
proof (induction p i rule: bv_test_from.induct)
  case (1 n s d u i)
  show ?case
  proof (cases u)
    case (ABitmap a)
    then have "d = 0" "bitmap_ok n a" "unat n \<le> BITVEC_NBIT"
      using "1.prems" by (auto simp: bv_wf.simps split: if_splits)
    then show ?thesis
      using ABitmap "1.prems" bitmap_index [of a "unat i"]
      by (auto simp: bv_test_from.simps bv_test_leaf_def bv_mem.simps bitmap_ok_def unat_and_7
          and_exp_eq_0_iff_not_bit bitvec_params)
  next
    case (AHash a)
    then have h: "d = 0" "hash_ok n s a" "\<not> unat n \<le> BITVEC_NBIT"
      using "1.prems" by (auto simp: bv_wf.simps split: if_splits)
    have v: "unat (i + 1) = Suc (unat i)"
      using "1.prems" by (intro unat_add_one) simp
    then have "i + 1 \<noteq> 0" by (metis unat_eq_zero nat.distinct(1))
    then have "bv_test_loop BITVEC_NINT a (i + 1) (BITVEC_HASH i) = Some (i + 1 \<in> set a)"
      using probe_test [of a "i + 1"] h by (simp add: hash_ok_def)
    moreover have "i + 1 \<in> set a \<longleftrightarrow> (\<exists>x \<in> set a. x \<noteq> 0 \<and> unat x = Suc (unat i))"
      using v \<open>i + 1 \<noteq> 0\<close> by (metis unsigned_word_eqI)
    ultimately show ?thesis
      using AHash h by (simp add: bv_test_from.simps bv_test_leaf_def bv_mem.simps)
  next
    case (ApSub subs)
    note w = bv_wf_sub [OF "1.prems"(1) [unfolded ApSub]]
    note ix = sub_index [OF w(1), of i, folded w(2)]
    show ?thesis
      using "1.IH" [OF w(3) ApSub refl] "1.prems" w ix ApSub
      by (auto simp: bv_test_from.simps bv_mem.simps Let_def split: option.splits)
  qed
qed

subsection \<open>Setting a bit\<close>

text \<open>What a run of \<open>bv_set_from\<close> delivers: it returns; the result is well-formed and of the same
  size; the only bit that can have appeared is \<open>i\<close>; with \<open>SQLITE_OK\<close> exactly \<open>i\<close> has been
  added; and with no failing allocation the result is \<open>SQLITE_OK\<close>.\<close>

definition members :: "bitvec \<Rightarrow> nat set" where
  "members p = {i. bv_mem p i}"

definition set_post :: "(nat \<Rightarrow> bool) \<Rightarrow> bitvec \<Rightarrow> nat \<Rightarrow> (bitvec \<times> rc \<times> nat) option \<Rightarrow> bool" where
  "set_post mem p i r \<longleftrightarrow>
     (case r of None \<Rightarrow> False | Some (p', rc, k) \<Rightarrow> bv_wf p' \<and> iSize p' = iSize p
        \<and> (iDivisor p \<noteq> 0 \<longrightarrow> iDivisor p' \<noteq> 0) \<and> (rc = SQLITE_OK \<or> rc = SQLITE_NOMEM)
        \<and> members p' \<subseteq> insert i (members p)
        \<and> (rc = SQLITE_OK \<longrightarrow> insert i (members p) \<subseteq> members p')
        \<and> (all_ok mem \<longrightarrow> rc = SQLITE_OK))"

lemma table_ok_empty: "table_ok (replicate BITVEC_NINT 0)"
  by (simp add: table_ok_def probe_ok_def bitvec_params)

lemma bv_create_ok:
  assumes "sqlite3BitvecCreate mem k n = (Some q, k')"
  shows "bv_wf q" and "iSize q = n" and "\<not> bv_mem q x"
proof -
  have q: "q = Bitvec n 0 0 (if unat n \<le> BITVEC_NBIT then ABitmap (replicate BITVEC_NELEM 0)
      else AHash (replicate BITVEC_NINT 0))"
    using assms by (auto simp: sqlite3BitvecCreate_def split: if_splits)
  show "iSize q = n" by (simp add: q)
  show "bv_wf q"
    by (auto simp: q bv_wf.simps hash_ok_def bitmap_ok_def bitvec_params
        table_ok_empty [unfolded bitvec_params])
  show "\<not> bv_mem q x"
    by (auto simp: q bv_mem.simps)
qed

lemma bv_create_fails: "sqlite3BitvecCreate mem k n = (None, k') \<Longrightarrow> \<not> mem k"
  by (auto simp: sqlite3BitvecCreate_def split: if_splits)

lemma bv_wf_update:
  assumes "bv_wf (Bitvec n s d (ApSub subs))" and "bv_wf q" and "iSize q = d"
  shows "bv_wf (Bitvec n s d (ApSub (subs[b := Some q])))"
proof -
  have upd: "x = Some q \<or> x \<in> set subs" if "x \<in> set (subs[b := Some q])" for x
    using that set_update_subset_insert [of subs b "Some q"] by auto
  show ?thesis
    using assms by (auto simp: bv_wf.simps list_all_iff split: if_splits dest!: upd)
qed

lemma set_sub_ok:
  assumes wf: "bv_wf (Bitvec n s d (ApSub subs))" and i: "unat i < unat n"
    and q: "bv_wf q" "iSize q = d"
    and mem_q: "\<And>x. bv_mem q x \<longleftrightarrow>
      (case subs ! (unat i div unat d) of None \<Rightarrow> False | Some q' \<Rightarrow> bv_mem q' x)"
    and post: "set_post mem q (unat (i mod d)) r"
  shows "set_post mem (Bitvec n s d (ApSub subs)) (unat i)
    (do { (q, rc, k) \<leftarrow> r;
          Some (Bitvec n s d (ApSub (subs[unat (i div d) := Some q])), rc, k) })"
proof -
  note w = bv_wf_sub [OF wf]
  note ix = sub_index [OF w(1) i, folded w(2)]
  let ?p' = "\<lambda>q'. Bitvec n s d (ApSub (subs[unat (i div d) := Some q']))"
  obtain q' rc k where r: "r = Some (q', rc, k)"
    using post by (cases r) (auto simp: set_post_def)
  then have q': "bv_wf q'" "iSize q' = d"
    and rc: "rc = SQLITE_OK \<or> rc = SQLITE_NOMEM" "all_ok mem \<longrightarrow> rc = SQLITE_OK"
    and le: "\<forall>x. bv_mem q' x \<longrightarrow> x = unat (i mod d) \<or> bv_mem q x"
    and ge: "rc = SQLITE_OK \<longrightarrow> (\<forall>x. x = unat (i mod d) \<or> bv_mem q x \<longrightarrow> bv_mem q' x)"
    using post q by (auto simp: set_post_def members_def)
  have mem': "bv_mem (?p' q') x \<longleftrightarrow>
      (if x div unat d = unat i div unat d then bv_mem q' (x mod unat d)
       else bv_mem (Bitvec n s d (ApSub subs)) x)" for x
    using ix(1) w(4) by (auto simp: bv_mem.simps ix(2) nth_list_update)
  have mem: "x div unat d = unat i div unat d \<Longrightarrow>
      bv_mem (Bitvec n s d (ApSub subs)) x \<longleftrightarrow> bv_mem q (x mod unat d)" for x
    using ix(1) w(4) by (simp add: bv_mem.simps ix(2) mem_q)
  have "bv_wf (?p' q')"
    using wf q' by (rule bv_wf_update)
  moreover have "bv_mem (?p' q') x \<Longrightarrow> x = unat i \<or> bv_mem (Bitvec n s d (ApSub subs)) x" for x
    using le ix(3) div_mod_eq_iff [of x "unat d" "unat i"] mem' [of x] mem [of x]
    by (auto split: if_splits)
  moreover have "bv_mem (?p' q') x"
    if "rc = SQLITE_OK" "x = unat i \<or> bv_mem (Bitvec n s d (ApSub subs)) x" for x
    using ge ix(3) that mem' [of x] mem [of x] by (auto split: if_splits)
  ultimately show ?thesis
    unfolding set_post_def r using rc w(3) by (auto simp: members_def)
qed

lemma set_bitmap_ok:
  assumes "bv_wf (Bitvec n s d (ABitmap a))" and "unat i < unat n"
  shows "set_post mem (Bitvec n s d (ABitmap a)) (unat i)
    (bv_set_from (Suc fuel) mem k (Bitvec n s d (ABitmap a)) i)"
proof -
  have w: "unat n \<le> BITVEC_NBIT" "d = 0" "bitmap_ok n a"
    using assms(1) by (auto simp: bv_wf.simps split: if_splits)
  have i: "length a = BITVEC_NELEM" "unat i < 3968"
    using w assms(2) by (auto simp: bitmap_ok_def bitvec_params)
  define b where "b = a[unat i div 8 := a ! (unat i div 8) OR push_bit (unat i mod 8) 1]"
  note upd = bitmap_update(1) [OF i, folded b_def]
  have run: "bv_set_from (Suc fuel) mem k (Bitvec n s d (ABitmap a)) i =
      Some (Bitvec n s d (ABitmap b), SQLITE_OK, k)"
    using w bitmap_index [OF i] by (simp add: Let_def unat_and_7 bitvec_params(6) b_def)
  have mem: "bv_mem (Bitvec n s d (ABitmap b)) x \<longleftrightarrow>
      x = unat i \<or> bv_mem (Bitvec n s d (ABitmap a)) x" for x
    using upd [of x] by (simp add: bv_mem.simps b_def)
  have "bitmap_ok n b"
    unfolding bitmap_ok_def
  proof (intro conjI allI impI)
    fix x
    assume "x < BITVEC_NBIT" "bit (b ! (x div 8)) (x mod 8)"
    then show "x < unat n"
      using upd [of x] w(3) assms(2) bitmap_index [OF i(1), of x]
      by (auto simp: bitmap_ok_def bitvec_params)
  qed (simp add: i b_def)
  then have "bv_wf (Bitvec n s d (ABitmap b))"
    using w by (simp add: bv_wf.simps)
  then show ?thesis
    unfolding run set_post_def by (auto simp: mem members_def)
qed

lemma bv_mem_hash:
  "bv_mem (Bitvec n s d (AHash a)) x \<longleftrightarrow> (\<exists>v \<in> set (nonzero a). unat v = Suc x)"
  by (auto simp: bv_mem.simps)

lemma set_hash_insert_ok:
  assumes "bv_wf (Bitvec n s 0 (AHash a))" and "unat i < unat n"
    and "first_free a (BITVEC_HASH i) m" and "i + 1 \<notin> set a"
    and "Suc (length (nonzero a)) < length a"
  shows "set_post mem (Bitvec n s 0 (AHash a)) (unat i)
    (Some (bv_set_end (Bitvec n s 0 (AHash a)) a ((BITVEC_HASH i + m) mod length a) (i + 1),
       SQLITE_OK, k))"
proof -
  let ?k = "(BITVEC_HASH i + m) mod length a"
  have w: "\<not> unat n \<le> BITVEC_NBIT" "hash_ok n s a"
    using assms(1) by (auto simp: bv_wf.simps split: if_splits)
  have v: "unat (i + 1) = Suc (unat i)"
    using assms(2) by (rule unat_add_one)
  then have nz: "i + 1 \<noteq> 0" by (metis unat_eq_zero nat.distinct(1))
  have t: "table_ok a" using w by (simp add: hash_ok_def)
  note ins = table_insert [OF t _ nz assms(4,5), of m, simplified, OF assms(3)]
  have s: "unat (s + 1) = Suc (unat s)"
    using w t assms(5) by (intro unat_add_one [of _ 124]) (simp add: hash_ok_def table_ok_def bitvec_params)
  have mem: "bv_mem (Bitvec n (s + 1) 0 (AHash (a[?k := i + 1]))) x \<longleftrightarrow>
      x = unat i \<or> bv_mem (Bitvec n s 0 (AHash a)) x" for x
    using ins(3) v by (auto simp: bv_mem_hash)
  have "\<forall>x \<in> set (a[?k := i + 1]). x \<le> n"
    using w(2) assms(2) v set_update_subset_insert [of a ?k "i + 1"]
    by (auto simp: hash_ok_def word_le_nat_alt)
  then have "bv_wf (Bitvec n (s + 1) 0 (AHash (a[?k := i + 1])))"
    using w ins s by (simp add: bv_wf.simps hash_ok_def)
  then show ?thesis
    unfolding set_post_def bv_set_end_def by (auto simp: mem members_def)
qed

lemma rc_or: "(a = 0 \<or> a = 7) \<Longrightarrow> (b = 0 \<or> b = 7) \<Longrightarrow> (a OR b = 0 \<or> a OR b = 7) \<and> (a OR b = 0 \<longleftrightarrow> a = 0 \<and> b = (0::nat))"
  by auto

lemma unat_pred: "v \<noteq> 0 \<Longrightarrow> unat v = Suc (unat (v - 1 :: u32))"
  by (simp add: unat_minus_one unat_gt_0)

lemma bv_mem_fresh_subs:
  "\<not> bv_mem (Bitvec n s d (ApSub (replicate m None))) x"
  by (simp add: bv_mem.simps)

text \<open>The loop that puts the old members back after the table has been replaced by sub-bitmaps.\<close>

definition reinsert_post ::
  "(nat \<Rightarrow> bool) \<Rightarrow> bitvec \<Rightarrow> rc \<Rightarrow> nat set \<Rightarrow> (bitvec \<times> rc \<times> nat) option \<Rightarrow> bool"
where
  "reinsert_post mem p rc vs r \<longleftrightarrow>
     (case r of None \<Rightarrow> False | Some (p', rc', k) \<Rightarrow> bv_wf p' \<and> iSize p' = iSize p
        \<and> iDivisor p' \<noteq> 0 \<and> (rc' = SQLITE_OK \<or> rc' = SQLITE_NOMEM)
        \<and> members p' \<subseteq> vs \<union> members p
        \<and> (rc' = SQLITE_OK \<longrightarrow> rc = SQLITE_OK \<and> vs \<union> members p \<subseteq> members p')
        \<and> (all_ok mem \<longrightarrow> rc = SQLITE_OK \<longrightarrow> rc' = SQLITE_OK))"

definition preds :: "u32 list \<Rightarrow> nat set" where
  "preds vs = (\<lambda>v. unat (v - 1)) ` set (nonzero vs)"

lemma preds_Cons: "preds (v # vs) = (if v = 0 then preds vs else insert (unat (v - 1)) (preds vs))"
  by (simp add: preds_def)

lemma reinsert_ok:
  assumes set_fn: "\<And>k p v. \<lbrakk>bv_wf p; iSize p = n; iDivisor p \<noteq> 0; unat v < unat n\<rbrakk> \<Longrightarrow>
      set_post mem p (unat v) (F k p v)"
  shows "\<lbrakk>bv_wf p; iSize p = n; iDivisor p \<noteq> 0; rc = SQLITE_OK \<or> rc = SQLITE_NOMEM;
      \<forall>v \<in> set vs. v \<le> n\<rbrakk> \<Longrightarrow>
    reinsert_post mem p rc (preds vs) (bv_reinsert (\<lambda>k p v. F k p (v - 1)) vs p rc k)"
proof (induction vs arbitrary: p rc k)
  case Nil
  then show ?case by (simp add: reinsert_post_def preds_def)
next
  case (Cons v vs)
  show ?case
  proof (cases "v = 0")
    case True
    then show ?thesis using Cons by (simp add: preds_Cons)
  next
    case False
    have "unat (v - 1) < unat n"
      using unat_pred [OF False] Cons.prems(5) by (simp add: word_le_nat_alt)
    then have post: "set_post mem p (unat (v - 1)) (F k p (v - 1))"
      using Cons.prems by (intro set_fn) auto
    then obtain p1 rc1 k1 where r: "F k p (v - 1) = Some (p1, rc1, k1)"
      by (cases "F k p (v - 1)") (auto simp: set_post_def)
    have p1: "bv_wf p1" "iSize p1 = n" "iDivisor p1 \<noteq> 0" "rc1 = SQLITE_OK \<or> rc1 = SQLITE_NOMEM"
      "all_ok mem \<longrightarrow> rc1 = SQLITE_OK" "members p1 \<subseteq> insert (unat (v - 1)) (members p)"
      "rc1 = SQLITE_OK \<longrightarrow> insert (unat (v - 1)) (members p) \<subseteq> members p1"
      using post Cons.prems(2,3) unfolding set_post_def r by simp_all
    note o = rc_or [OF Cons.prems(4) p1(4)]
    let ?r = "bv_reinsert (\<lambda>k p v. F k p (v - 1)) vs p1 (rc OR rc1) k1"
    have post2: "reinsert_post mem p1 (rc OR rc1) (preds vs) ?r"
      using Cons.prems(5) o by (intro Cons.IH p1) auto
    then obtain p2 rc2 k2 where r2: "?r = Some (p2, rc2, k2)"
      by (cases ?r) (auto simp: reinsert_post_def)
    have "members p2 \<subseteq> preds (v # vs) \<union> members p"
      using post2 p1(6) False unfolding reinsert_post_def r2 preds_Cons by auto
    moreover have "rc2 = SQLITE_OK \<longrightarrow> rc = SQLITE_OK \<and> preds (v # vs) \<union> members p \<subseteq> members p2"
      using post2 p1(7) False o unfolding reinsert_post_def r2 preds_Cons by auto
    ultimately show ?thesis
      using post2 p1(2,5) Cons.prems(2) o False unfolding reinsert_post_def
      by (simp add: r r2)
  qed
qed

lemma members_hash: "members (Bitvec n s d (AHash a)) = preds a"
proof -
  have "unat v = Suc x \<longleftrightarrow> unat (v - 1) = x" if "v \<in> set (nonzero a)" for v :: u32 and x
    using that unat_pred [of v] by auto
  then show ?thesis
    unfolding members_def preds_def bv_mem_hash by (auto simp: image_iff)
qed

lemma rehash_ok:
  fixes F :: "nat \<Rightarrow> bitvec \<Rightarrow> u32 \<Rightarrow> (bitvec \<times> rc \<times> nat) option"
  assumes set_fn: "\<And>k p v. \<lbrakk>bv_wf p; iSize p = n; iDivisor p \<noteq> 0; unat v < unat n\<rbrakk> \<Longrightarrow>
      set_post mem p (unat v) (F k p v)"
    and wf: "bv_wf (Bitvec n s 0 (AHash a))" and i: "unat i < unat n"
  shows "set_post mem (Bitvec n s 0 (AHash a)) (unat i)
    (if \<not> mem k then Some (Bitvec n s 0 (AHash a), SQLITE_NOMEM, Suc k)
     else do {
       (p, rc, k) \<leftarrow> F (Suc k) (Bitvec n s (bv_divisor n) (ApSub (replicate BITVEC_NPTR None))) i;
       bv_reinsert (\<lambda>k p v. F k p (v - 1)) a p rc k
     })"
proof (cases "mem k")
  case False
  then show ?thesis
    using wf by (auto simp: set_post_def all_ok_def)
next
  case True
  let ?p0 = "Bitvec n s (bv_divisor n) (ApSub (replicate BITVEC_NPTR None))"
  have n: "\<not> unat n \<le> BITVEC_NBIT" "hash_ok n s a"
    using wf by (auto simp: bv_wf.simps split: if_splits)
  then have d: "bv_divisor n \<noteq> 0" using bv_divisor_bounds(1) [of n] by simp
  then have "bv_wf ?p0"
    using n by (simp add: bv_wf.simps list_all_iff)
  then have post: "set_post mem ?p0 (unat i) (F (Suc k) ?p0 i)"
    using d i by (intro set_fn) auto
  then obtain p1 rc1 k1 where r: "F (Suc k) ?p0 i = Some (p1, rc1, k1)"
    by (cases "F (Suc k) ?p0 i") (auto simp: set_post_def)
  have "members ?p0 = {}"
    by (simp add: members_def bv_mem_fresh_subs)
  then have p1: "bv_wf p1" "iSize p1 = n" "iDivisor p1 \<noteq> 0" "rc1 = SQLITE_OK \<or> rc1 = SQLITE_NOMEM"
    "all_ok mem \<longrightarrow> rc1 = SQLITE_OK" "members p1 \<subseteq> {unat i}"
    "rc1 = SQLITE_OK \<longrightarrow> {unat i} \<subseteq> members p1"
    using post d unfolding set_post_def r by simp_all
  let ?r = "bv_reinsert (\<lambda>k p v. F k p (v - 1)) a p1 rc1 k1"
  have "\<forall>v \<in> set a. v \<le> n"
    using n by (simp add: hash_ok_def)
  then have post2: "reinsert_post mem p1 rc1 (preds a) ?r"
    using p1 by (intro reinsert_ok set_fn) auto
  then obtain p2 rc2 k2 where r2: "?r = Some (p2, rc2, k2)"
    by (cases ?r) (auto simp: reinsert_post_def)
  have "members p2 \<subseteq> insert (unat i) (preds a)"
    using post2 p1(6) unfolding reinsert_post_def r2 by auto
  moreover have "rc2 = SQLITE_OK \<longrightarrow> insert (unat i) (preds a) \<subseteq> members p2"
    using post2 p1(7) unfolding reinsert_post_def r2 by auto
  ultimately show ?thesis
    using post2 p1(2,5) True unfolding set_post_def reinsert_post_def members_hash
    by (simp add: r r2)
qed

lemma set_hash_ok:
  assumes set_fn: "\<And>k p v. \<lbrakk>bv_wf p; iSize p = n; iDivisor p \<noteq> 0; unat v < unat n\<rbrakk> \<Longrightarrow>
      set_post mem p (unat v) (bv_set_from fuel mem k p v)"
    and wf: "bv_wf (Bitvec n s 0 (AHash a))" and i: "unat i < unat n"
  shows "set_post mem (Bitvec n s 0 (AHash a)) (unat i)
    (bv_set_from (Suc fuel) mem k (Bitvec n s 0 (AHash a)) i)"
proof -
  let ?p = "Bitvec n s 0 (AHash a)"
  have n: "\<not> unat n \<le> BITVEC_NBIT" "table_ok a" "unat s = length (nonzero a)"
    using wf by (auto simp: bv_wf.simps hash_ok_def split: if_splits)
  have len: "length a = BITVEC_NINT" using n by (simp add: table_ok_def)
  note h = hash_less [OF n(2), of i]
  have "i + 1 \<noteq> 0"
    using unat_add_one [OF i] by (metis unat_eq_zero nat.distinct(1))
  obtain m where m: "first_free a (BITVEC_HASH i) m"
    using first_free_exists [OF _ h] n by (auto simp: table_ok_def)
  have find: "(\<exists>j < m. slot a (BITVEC_HASH i) j = i + 1) \<longleftrightarrow> i + 1 \<in> set a"
    using probe_finds [of a "i + 1" m] m n \<open>i + 1 \<noteq> 0\<close> by (simp add: table_ok_def)
  note re = rehash_ok [where F = "bv_set_from fuel mem", OF set_fn wf i, of k, unfolded bitvec_params]
  note ins = set_hash_insert_ok [OF wf i m, of mem k]
  show ?thesis
  proof (cases m)
    case 0
    then have "a ! BITVEC_HASH i = 0" "i + 1 \<notin> set a"
      using m h find by (auto simp: first_free_0)
    then show ?thesis
      using re ins 0 n h len by (cases "mem k") (simp_all add: Let_def bitvec_params)
  next
    case (Suc m')
    then have nz: "a ! BITVEC_HASH i \<noteq> 0"
      using first_free_Suc(1) [OF h] m by simp
    have "m' < BITVEC_NINT"
      using m Suc len by (simp add: first_free_def)
    note loop = set_loop_result [OF len, of "BITVEC_HASH i" m', OF m [unfolded Suc] h this, of "i + 1", folded Suc, unfolded find]
    show ?thesis
    proof (cases "i + 1 \<in> set a")
      case True
      then have "unat i \<in> members ?p"
        using \<open>i + 1 \<noteq> 0\<close> by (auto simp: members_hash preds_def image_iff intro!: bexI [of _ "i + 1"])
      then have "set_post mem ?p (unat i) (Some (?p, SQLITE_OK, k))"
        using wf by (auto simp: set_post_def)
      then show ?thesis
        using True n h nz loop by (simp add: Let_def)
    next
      case False
      then show ?thesis
        using re ins n h len nz loop by (cases "mem k") (simp_all add: Let_def bitvec_params)
    qed
  qed
qed

lemma set_node_ok:
  assumes wf: "bv_wf (Bitvec n s d (ApSub subs))" and i: "unat i < unat n"
    and IH: "\<And>q k. \<lbrakk>bv_wf q; iSize q = d\<rbrakk> \<Longrightarrow>
      set_post mem q (unat (i mod d)) (bv_set_from fuel mem k q (i mod d))"
  shows "set_post mem (Bitvec n s d (ApSub subs)) (unat i)
    (bv_set_from (Suc fuel) mem k (Bitvec n s d (ApSub subs)) i)"
proof -
  note w = bv_wf_sub [OF wf]
  note ix = sub_index [OF w(1) i, folded w(2)]
  have step: "set_post mem (Bitvec n s d (ApSub subs)) (unat i)
    (do { (q, rc, k) \<leftarrow> bv_set_from fuel mem k' q (i mod d);
          Some (Bitvec n s d (ApSub (subs[unat (i div d) := Some q])), rc, k) })"
    if "bv_wf q" "iSize q = d" "\<And>x. bv_mem q x \<longleftrightarrow>
      (case subs ! (unat i div unat d) of None \<Rightarrow> False | Some q' \<Rightarrow> bv_mem q' x)" for q k'
    using set_sub_ok [OF wf i that IH] that by blast
  show ?thesis
  proof (cases "subs ! (unat i div unat d)")
    case (Some q)
    then show ?thesis
      using step [of q k] w ix by (simp add: Let_def)
  next
    case None
    note bin = None
    obtain sub k' where c: "sqlite3BitvecCreate mem k d = (sub, k')" by fastforce
    show ?thesis
    proof (cases sub)
      case None
      then have "\<not> all_ok mem"
        using bv_create_fails [of mem k d k'] c by (auto simp: all_ok_def)
      then show ?thesis
        using None bin c w ix wf by (auto simp: Let_def set_post_def)
    next
      case (Some q)
      then show ?thesis
        using step [of q k'] bv_create_ok [of mem k d q k'] bin c w ix by (simp add: Let_def)
    qed
  qed
qed

text \<open>One unit of fuel per level of sub-bitmaps and one per rehash: \<open>3968 * 62 ^ j\<close> bits need
  at most \<open>2 * j + 1\<close> units.\<close>

lemma bv_set_from_ok:
  "\<lbrakk>bv_wf p; unat i < unat (iSize p); unat (iSize p) \<le> 3968 * 62 ^ j;
    (if iDivisor p \<noteq> 0 then 2 * j else 2 * j + 1) \<le> fuel\<rbrakk> \<Longrightarrow>
   set_post mem p (unat i) (bv_set_from fuel mem k p i)"
proof (induction fuel arbitrary: p i j k)
  case 0
  then show ?case
    by (cases p) (auto simp: bv_wf.simps bitvec_params split: if_splits)
next
  case (Suc fuel)
  obtain n s d u where p: "p = Bitvec n s d u" by (cases p)
  show ?case
  proof (cases u)
    case (ABitmap a)
    then show ?thesis
      using Suc.prems by (simp only: p bitvec.sel set_bitmap_ok)
  next
    case (AHash a)
    then have "d = 0"
      using Suc.prems p by (auto simp: bv_wf.simps split: if_splits)
    then show ?thesis
      using Suc.prems AHash unfolding p
      by (auto intro!: set_hash_ok Suc.IH [of _ _ j] simp del: bv_set_from.simps)
  next
    case (ApSub subs)
    note w = bv_wf_sub [OF Suc.prems(1) [unfolded p ApSub]]
    have i: "unat i < unat n" using Suc.prems(2) p by simp
    obtain j' where j: "j = Suc j'"
      using Suc.prems(3) w(1) p by (cases j) (auto simp: bitvec_params)
    have d: "unat d \<le> 3968 * 62 ^ j'"
      using bv_divisor_bounds(3) [OF w(1), of "3968 * 62 ^ j'"] Suc.prems(3) p j w(2)
      by (simp add: bitvec_params)
    show ?thesis
      unfolding p ApSub
    proof (rule set_node_ok [OF Suc.prems(1) [unfolded p ApSub] i])
      show "set_post mem q (unat (i mod d)) (bv_set_from fuel mem k q (i mod d))"
        if "bv_wf q" "iSize q = d" for q k
        using that d Suc.IH [of q "i mod d" j' k] Suc.prems(4) p j w(3)
          sub_index(3,4) [OF w(1) i, folded w(2)]
        by (simp split: if_splits)
    qed
  qed
qed

subsection \<open>Clearing a bit\<close>

lemma probe_free:
  assumes "table_ok a"
  obtains m where "first_free a (BITVEC_HASH x) m"
    and "bv_free_slot BITVEC_NINT a (BITVEC_HASH x) = Some ((BITVEC_HASH x + m) mod length a)"
proof -
  note h = hash_less [OF assms, of x]
  obtain m where m: "first_free a (BITVEC_HASH x) m"
    using first_free_exists [OF _ h] assms by (auto simp: table_ok_def)
  moreover have "m < BITVEC_NINT"
    using assms m by (simp add: first_free_def table_ok_def)
  ultimately show ?thesis
    using that free_slot_result [OF _ m h] assms by (simp add: table_ok_def)
qed

lemma clear_loop_ok:
  "\<lbrakk>table_ok a; distinct (nonzero vs); set (nonzero vs) \<inter> set (nonzero a) = {};
    length (nonzero a) + length (nonzero vs) < BITVEC_NINT; unat c = length (nonzero a)\<rbrakk> \<Longrightarrow>
   \<exists>a' c'. bv_clear_loop vs i a c = Some (a', c') \<and> table_ok a' \<and> unat c' = length (nonzero a')
     \<and> set (nonzero a') = set (nonzero a) \<union> (set (nonzero vs) - {i + 1})"
proof (induction vs arbitrary: a c)
  case Nil
  then show ?case by simp
next
  case (Cons v vs)
  show ?case
  proof (cases "v \<noteq> 0 \<and> v \<noteq> i + 1")
    case False
    then show ?thesis
      using Cons.IH [of a c] Cons.prems by (auto split: if_splits)
  next
    case True
    obtain m where m: "first_free a (BITVEC_HASH (v - 1)) m"
      and run: "bv_free_slot BITVEC_NINT a (BITVEC_HASH (v - 1)) =
        Some ((BITVEC_HASH (v - 1) + m) mod length a)"
      using probe_free [OF Cons.prems(1)] .
    let ?b = "a[(BITVEC_HASH (v - 1) + m) mod length a := v]"
    have "v \<notin> set a" "Suc (length (nonzero a)) < length a"
      using Cons.prems True by (auto simp: table_ok_def)
    note ins = table_insert [OF Cons.prems(1) m conjunct1 [OF True] this]
    have "unat (c + 1) = length (nonzero ?b)"
      using Cons.prems(4,5) ins(2) by (subst unat_add_one [of _ 124]) (auto simp: bitvec_params)
    then obtain a' c' where "bv_clear_loop vs i ?b (c + 1) = Some (a', c')" "table_ok a'"
      "unat c' = length (nonzero a')"
      "set (nonzero a') = set (nonzero ?b) \<union> (set (nonzero vs) - {i + 1})"
      using Cons.IH [of ?b "c + 1"] Cons.prems True ins by auto
    then show ?thesis
      using True run ins(3) by auto
  qed
qed

definition clear_post :: "bitvec \<Rightarrow> nat \<Rightarrow> bitvec option \<Rightarrow> bool" where
  "clear_post p i r \<longleftrightarrow>
     (case r of None \<Rightarrow> False
      | Some p' \<Rightarrow> bv_wf p' \<and> iSize p' = iSize p \<and> members p' = members p - {i})"

lemma clear_bitmap_ok:
  assumes "bv_wf (Bitvec n s d (ABitmap a))" and "unat i < unat n"
  shows "clear_post (Bitvec n s d (ABitmap a)) (unat i) (bv_clear_from (Bitvec n s d (ABitmap a)) i)"
proof -
  have w: "unat n \<le> BITVEC_NBIT" "d = 0" "bitmap_ok n a"
    using assms(1) by (auto simp: bv_wf.simps split: if_splits)
  have i: "length a = BITVEC_NELEM" "unat i < 3968"
    using w assms(2) by (auto simp: bitmap_ok_def bitvec_params)
  define b where "b = a[unat i div 8 := a ! (unat i div 8) AND NOT (push_bit (unat i mod 8) 1)]"
  note upd = bitmap_update(2) [OF i, folded b_def]
  have run: "bv_clear_from (Bitvec n s d (ABitmap a)) i = Some (Bitvec n s d (ABitmap b))"
    using w bitmap_index [OF i]
    by (simp add: bv_clear_from.simps bv_clear_leaf_def Let_def unat_and_7 bitvec_params(6) b_def)
  have mem: "bv_mem (Bitvec n s d (ABitmap b)) x \<longleftrightarrow>
      x \<noteq> unat i \<and> bv_mem (Bitvec n s d (ABitmap a)) x" for x
    using upd [of x] by (simp add: bv_mem.simps b_def)
  have "bitmap_ok n b"
    unfolding bitmap_ok_def
  proof (intro conjI allI impI)
    fix x
    assume "x < BITVEC_NBIT" "bit (b ! (x div 8)) (x mod 8)"
    then show "x < unat n"
      using upd [of x] w(3) assms(2) bitmap_index [OF i(1), of x]
      by (auto simp: bitmap_ok_def bitvec_params)
  qed (simp add: i b_def)
  then have "bv_wf (Bitvec n s d (ABitmap b))"
    using w by (simp add: bv_wf.simps)
  then show ?thesis
    unfolding run clear_post_def by (auto simp: mem members_def)
qed

lemma clear_hash_ok:
  assumes "bv_wf (Bitvec n s d (AHash a))" and "unat i < unat n"
  shows "clear_post (Bitvec n s d (AHash a)) (unat i) (bv_clear_from (Bitvec n s d (AHash a)) i)"
proof -
  have w: "\<not> unat n \<le> BITVEC_NBIT" "d = 0" "hash_ok n s a"
    using assms(1) by (auto simp: bv_wf.simps split: if_splits)
  then obtain b c where b: "bv_clear_loop a i (replicate BITVEC_NINT 0) 0 = Some (b, c)"
      "table_ok b" "unat c = length (nonzero b)" "set (nonzero b) = set (nonzero a) - {i + 1}"
    using clear_loop_ok [of "replicate BITVEC_NINT 0" a 0 i] table_ok_empty
    by (auto simp: hash_ok_def table_ok_def)
  have "x \<le> n" if "x \<in> set b" for x
    using that b(4) w(3) by (cases "x = 0") (auto simp: hash_ok_def)
  then have wf: "bv_wf (Bitvec n c d (AHash b))"
    using w b by (simp add: bv_wf.simps hash_ok_def)
  have "unat v - 1 = unat (v - 1)" if "v \<noteq> 0" for v :: u32
    using unat_pred [OF that] by simp
  then have "preds b = preds a - {unat i}"
    unfolding preds_def b(4) by (auto simp: image_iff) (metis add_diff_cancel diff_add_cancel unsigned_word_eqI)+
  then show ?thesis
    using wf w b(1)
    by (simp add: bv_clear_from.simps bv_clear_leaf_def clear_post_def members_hash)
qed

lemma bv_clear_from_ok:
  "bv_wf p \<Longrightarrow> unat i < unat (iSize p) \<Longrightarrow> clear_post p (unat i) (bv_clear_from p i)"
proof (induction p i rule: bv_clear_from.induct)
  case (1 n s d u i)
  show ?case
  proof (cases u)
    case (ABitmap a)
    then show ?thesis using "1.prems" clear_bitmap_ok by simp
  next
    case (AHash a)
    then show ?thesis using "1.prems" clear_hash_ok by simp
  next
    case (ApSub subs)
    note wf = "1.prems"(1) [unfolded ApSub]
    note w = bv_wf_sub [OF wf]
    have i: "unat i < unat n" using "1.prems"(2) by simp
    note ix = sub_index [OF w(1) i, folded w(2)]
    let ?p = "Bitvec n s d (ApSub subs)" and ?b = "unat i div unat d"
    show ?thesis
    proof (cases "subs ! ?b")
      case None
      then have "\<not> bv_mem ?p (unat i)" by (simp add: bv_mem.simps)
      then show ?thesis
        using None wf w ix
        by (auto simp: ApSub bv_clear_from.simps Let_def clear_post_def members_def)
    next
      case (Some q)
      have q: "bv_wf q" "iSize q = d"
        using w(4,5) ix(1,2) Some by auto
      have "clear_post q (unat i mod unat d) (bv_clear_from q (i mod d))"
        using "1.IH" [OF w(3) ApSub refl] q ix w(4) Some by simp
      then obtain q' where q': "bv_clear_from q (i mod d) = Some q'" "bv_wf q'" "iSize q' = d"
        "members q' = members q - {unat i mod unat d}"
        using q by (cases "bv_clear_from q (i mod d)") (auto simp: clear_post_def)
      let ?p' = "Bitvec n s d (ApSub (subs[?b := Some q']))"
      have run: "bv_clear_from ?p i = Some ?p'"
        using w ix Some q'(1) by (simp add: bv_clear_from.simps Let_def)
      have "bv_wf ?p'" by (rule bv_wf_update [OF wf q'(2,3)])
      moreover have "bv_mem ?p' x \<longleftrightarrow> x \<noteq> unat i \<and> bv_mem ?p x" for x
      proof (cases "x div unat d = ?b")
        case True
        have "bv_mem q' (x mod unat d) \<longleftrightarrow> x mod unat d \<in> members q - {unat i mod unat d}"
          unfolding q'(4) [symmetric] by (simp add: members_def)
        then show ?thesis
          using True ix(1,2) w(4) Some div_mod_eq_iff [of x "unat d" "unat i"]
          by (simp add: bv_mem.simps members_def) blast
      next
        case False
        then show ?thesis by (auto simp: bv_mem.simps)
      qed
      ultimately show ?thesis
        unfolding ApSub run clear_post_def by (auto simp: members_def)
    qed
  qed
qed

subsection \<open>The contract of the five operations\<close>

definition bitvec_inv :: "bitvec \<Rightarrow> bool" where
  "bitvec_inv p \<longleftrightarrow> bv_wf p \<and> bits p \<subseteq> {1..unat (iSize p)}"

lemma bits_members: "bits p = Suc ` members p"
  by (auto simp: bits_def members_def image_iff gr0_conv_Suc)

text \<open>An index in range is the successor of the zero-based index the code works with.\<close>

lemma in_range_pred:
  fixes i :: u32
  assumes "1 \<le> unat i" and "unat i \<le> unat (n :: u32)"
  shows "unat i = Suc (unat (i - 1))" and "unat (i - 1) < unat n"
proof -
  have "i \<noteq> 0" using assms(1) by auto
  then show "unat i = Suc (unat (i - 1))" by (rule unat_pred)
  then show "unat (i - 1) < unat n" using assms(2) by simp
qed

lemma out_of_range_pred:
  fixes i :: u32
  assumes "\<not> (1 \<le> unat i \<and> unat i \<le> unat (n :: u32))"
  shows "n \<le> i - 1"
proof (cases "i = 0")
  case True
  then show ?thesis by simp
next
  case False
  then show ?thesis
    using assms unat_pred [OF False] by (auto simp: word_le_nat_alt)
qed

lemma bitvec_test_ok:
  assumes "bitvec_inv p"
  shows "sqlite3BitvecTest (Some p) i = Some (unat i \<in> bits p)"
proof (cases "1 \<le> unat i \<and> unat i \<le> unat (iSize p)")
  case True
  note r = in_range_pred [of i "iSize p"]
  show ?thesis
    using True r bv_test_from_ok [of p "i - 1"] assms
    by (auto simp: sqlite3BitvecTest_def sqlite3BitvecTestNotNull_def bitvec_inv_def
        word_le_nat_alt bits_def)
next
  case False
  then have "unat i \<notin> bits p"
    using assms by (auto simp: bitvec_inv_def)
  then show ?thesis
    using out_of_range_pred [OF False]
    by (simp add: sqlite3BitvecTest_def sqlite3BitvecTestNotNull_def)
qed

lemma BitvecSet_post:
  assumes "bitvec_inv p" and "1 \<le> unat i" and "unat i \<le> unat (iSize p)"
  shows "set_post mem p (unat (i - 1)) (bv_set_from bitvec_fuel mem k p (i - 1))"
proof (rule bv_set_from_ok [of _ _ 4])
  show "unat (iSize p) \<le> 3968 * 62 ^ 4"
    using unat_bounds(3) [of "iSize p"] by simp
qed (use assms in_range_pred [OF assms(2,3)] in \<open>auto simp: bitvec_inv_def bitvec_fuel_def\<close>)

lemma bitvec_set_ok:
  assumes "bitvec_inv p" and "1 \<le> unat i" and "unat i \<le> unat (iSize p)"
  shows "\<exists>p' rc k'. sqlite3BitvecSet mem k (Some p) i = Some (Some p', rc, k')
    \<and> bitvec_inv p' \<and> iSize p' = iSize p
    \<and> (rc = SQLITE_OK \<and> bits p' = insert (unat i) (bits p)
       \<or> rc = SQLITE_NOMEM \<and> bits p' \<subseteq> insert (unat i) (bits p) \<and> \<not> all_ok mem)"
proof -
  note post = BitvecSet_post [OF assms, of mem k]
  then obtain p' rc k' where r: "bv_set_from bitvec_fuel mem k p (i - 1) = Some (p', rc, k')"
    by (cases "bv_set_from bitvec_fuel mem k p (i - 1)") (auto simp: set_post_def)
  have p': "bv_wf p'" "iSize p' = iSize p" "rc = SQLITE_OK \<or> rc = SQLITE_NOMEM"
    "members p' \<subseteq> insert (unat (i - 1)) (members p)"
    "rc = SQLITE_OK \<longrightarrow> insert (unat (i - 1)) (members p) \<subseteq> members p'"
    "all_ok mem \<longrightarrow> rc = SQLITE_OK"
    using post unfolding set_post_def r by simp_all
  note ix = in_range_pred [OF assms(2,3)]
  have le: "bits p' \<subseteq> insert (unat i) (bits p)"
    using p'(4) unfolding bits_members ix(1) by auto
  moreover have "rc = SQLITE_OK \<longrightarrow> insert (unat i) (bits p) \<subseteq> bits p'"
    using p'(5) unfolding bits_members ix(1) by auto
  moreover have "bits p' \<subseteq> {1..unat (iSize p)}"
    using le assms by (auto simp: bitvec_inv_def)
  ultimately show ?thesis
    using p' r by (auto simp: sqlite3BitvecSet_def bitvec_inv_def)
qed

lemma bitvec_clear_ok:
  assumes "bitvec_inv p" and "1 \<le> unat i" and "unat i \<le> unat (iSize p)"
  shows "\<exists>p'. sqlite3BitvecClear (Some p) i = Some (Some p') \<and> bitvec_inv p'
    \<and> iSize p' = iSize p \<and> bits p' = bits p - {unat i}"
proof -
  note ix = in_range_pred [OF assms(2,3)]
  have post: "clear_post p (unat (i - 1)) (bv_clear_from p (i - 1))"
    using assms(1) ix(2) by (intro bv_clear_from_ok) (auto simp: bitvec_inv_def)
  then obtain p' where r: "bv_clear_from p (i - 1) = Some p'"
    by (cases "bv_clear_from p (i - 1)") (auto simp: clear_post_def)
  have p': "bv_wf p'" "iSize p' = iSize p" "members p' = members p - {unat (i - 1)}"
    using post unfolding clear_post_def r by simp_all
  then have "bits p' = bits p - {unat i}"
    unfolding bits_members ix(1) by auto
  then show ?thesis
    using p' r assms(1) by (auto simp: sqlite3BitvecClear_def bitvec_inv_def)
qed

lemma BitvecCreate_bits:
  assumes "sqlite3BitvecCreate mem k n = (Some p, k')"
  shows "bitvec_inv p" and "iSize p = n" and "bits p = {}"
  using bv_create_ok [OF assms] by (auto simp: bitvec_inv_def bits_def)

subsection \<open>A bitmap as an implementation of a bounded set\<close>

text \<open>The history of set and clear calls that a client such as the pager makes, and the set it
  expects to find.\<close>

datatype bit_op = Bit_Set u32 | Bit_Clear u32

fun bit_run ::
  "('s \<Rightarrow> u32 \<Rightarrow> 's option) \<Rightarrow> ('s \<Rightarrow> u32 \<Rightarrow> 's option) \<Rightarrow> bit_op list \<Rightarrow> 's \<Rightarrow> 's option"
where
  "bit_run ins del [] s = Some s"
| "bit_run ins del (Bit_Set i # ops) s = do { s \<leftarrow> ins s i; bit_run ins del ops s }"
| "bit_run ins del (Bit_Clear i # ops) s = do { s \<leftarrow> del s i; bit_run ins del ops s }"

fun bit_spec :: "bit_op list \<Rightarrow> nat set \<Rightarrow> nat set" where
  "bit_spec [] X = X"
| "bit_spec (Bit_Set i # ops) X = bit_spec ops (insert (unat i) X)"
| "bit_spec (Bit_Clear i # ops) X = bit_spec ops (X - {unat i})"

fun bit_op_in :: "u32 \<Rightarrow> bit_op \<Rightarrow> bool" where
  "bit_op_in n (Bit_Set i) \<longleftrightarrow> 1 \<le> unat i \<and> unat i \<le> unat n"
| "bit_op_in n (Bit_Clear i) \<longleftrightarrow> 1 \<le> unat i \<and> unat i \<le> unat n"

locale bounded_set =
  fixes inv :: "'s \<Rightarrow> bool" and elems :: "'s \<Rightarrow> nat set" and cap :: "'s \<Rightarrow> u32"
    and ins del :: "'s \<Rightarrow> u32 \<Rightarrow> 's option"
  assumes ins_law: "\<lbrakk>inv s; 1 \<le> unat i; unat i \<le> unat (cap s)\<rbrakk> \<Longrightarrow>
      \<exists>s'. ins s i = Some s' \<and> inv s' \<and> cap s' = cap s \<and> elems s' = insert (unat i) (elems s)"
    and del_law: "\<lbrakk>inv s; 1 \<le> unat i; unat i \<le> unat (cap s)\<rbrakk> \<Longrightarrow>
      \<exists>s'. del s i = Some s' \<and> inv s' \<and> cap s' = cap s \<and> elems s' = elems s - {unat i}"
begin

lemma run_refines:
  "\<lbrakk>inv s; list_all (bit_op_in (cap s)) ops\<rbrakk> \<Longrightarrow>
   \<exists>s'. bit_run ins del ops s = Some s' \<and> inv s' \<and> cap s' = cap s
     \<and> elems s' = bit_spec ops (elems s)"
proof (induction ops arbitrary: s)
  case Nil
  then show ?case by simp
next
  case (Cons op ops)
  have "\<exists>s1. inv s1 \<and> cap s1 = cap s \<and> bit_run ins del (op # ops) s = bit_run ins del ops s1
    \<and> bit_spec (op # ops) (elems s) = bit_spec ops (elems s1)"
  proof (cases op)
    case (Bit_Set i)
    then show ?thesis
      using ins_law [of s i] Cons.prems by force
  next
    case (Bit_Clear i)
    then show ?thesis
      using del_law [of s i] Cons.prems by force
  qed
  then obtain s1 where s1: "inv s1" "cap s1 = cap s"
    "bit_run ins del (op # ops) s = bit_run ins del ops s1"
    "bit_spec (op # ops) (elems s) = bit_spec ops (elems s1)"
    by blast
  then show ?case
    using Cons.IH [of s1] Cons.prems(2) by simp
qed

end

text \<open>The C calls as the client sees them while no allocation fails.\<close>

definition bitvec_set :: "(nat \<Rightarrow> bool) \<Rightarrow> bitvec \<Rightarrow> u32 \<Rightarrow> bitvec option" where
  "bitvec_set mem p i =
     (case sqlite3BitvecSet mem 0 (Some p) i of
        Some (po, rc, k) \<Rightarrow> if rc = SQLITE_OK then po else None
      | None \<Rightarrow> None)"

definition bitvec_clear :: "bitvec \<Rightarrow> u32 \<Rightarrow> bitvec option" where
  "bitvec_clear p i = (case sqlite3BitvecClear (Some p) i of Some po \<Rightarrow> po | None \<Rightarrow> None)"

interpretation bv: bounded_set bitvec_inv bits iSize "bitvec_set (\<lambda>_. True)" bitvec_clear
proof
  fix p and i :: u32
  assume p: "bitvec_inv p" "1 \<le> unat i" "unat i \<le> unat (iSize p)"
  show "\<exists>s'. bitvec_set (\<lambda>_. True) p i = Some s' \<and> bitvec_inv s' \<and> iSize s' = iSize p
    \<and> bits s' = insert (unat i) (bits p)"
    using bitvec_set_ok [OF p, of "\<lambda>_. True" 0] by (auto simp: bitvec_set_def all_ok_def)
  show "\<exists>s'. bitvec_clear p i = Some s' \<and> bitvec_inv s' \<and> iSize s' = iSize p
    \<and> bits s' = bits p - {unat i}"
    using bitvec_clear_ok [OF p] by (auto simp: bitvec_clear_def)
qed

text \<open>A concrete bitmap in the hash representation, and the same with one bit set.\<close>

definition empty5000 :: bitvec where
  "empty5000 = Bitvec 5000 0 0 (AHash (replicate BITVEC_NINT 0))"

lemma empty5000_create: "sqlite3BitvecCreate (\<lambda>_. True) 0 5000 = (Some empty5000, 1)"
  by (simp add: sqlite3BitvecCreate_def empty5000_def bitvec_params)

lemma empty5000_ok: "bitvec_inv empty5000" "iSize empty5000 = 5000" "bits empty5000 = {}"
  using BitvecCreate_bits [OF empty5000_create] by simp_all

lemma set_77_ok:
  defines "p \<equiv> the (bitvec_set (\<lambda>_. True) empty5000 77)"
  shows "bitvec_inv p" "iSize p = 5000" "bits p = {77}"
proof -
  have "1 \<le> unat (77 :: u32)" "unat (77 :: u32) \<le> unat (iSize empty5000)"
    by (simp_all add: empty5000_ok)
  from bv.ins_law [OF empty5000_ok(1) this] obtain s where
    s: "bitvec_set (\<lambda>_. True) empty5000 77 = Some s" "bitvec_inv s" "iSize s = iSize empty5000"
       "bits s = insert (unat (77 :: u32)) (bits empty5000)"
    by blast
  have "p = s" unfolding p_def s(1) by simp
  then show "bitvec_inv p" "iSize p = 5000" "bits p = {77}"
    using s(2-4) by (simp_all add: empty5000_ok)
qed

text \<open>On every bitmap that satisfies the invariant, \<open>sqlite3BitvecTest\<close> returns, reads no
  array out of bounds, and answers exactly whether bit \<open>i\<close> is set, for every 32-bit \<open>i\<close>:
  zero and an index past the size included.\<close>

theorem BitvecTest_bits:
  assumes "bitvec_inv p"
  shows "sqlite3BitvecTest (Some p) i = Some (unat i \<in> bits p)"
  using assms by (rule bitvec_test_ok)

theorem BitvecTest_bits_witness:
  "sqlite3BitvecTest (Some (the (bitvec_set (\<lambda>_. True) empty5000 77))) 77 = Some True"
  using BitvecTest_bits [OF set_77_ok(1), of 77] by (simp add: set_77_ok)

text \<open>C25: Setting a bit in range always returns, whatever the allocator does. With
  \<open>SQLITE_OK\<close> the bitmap has gained exactly bit \<open>i\<close>; with \<open>SQLITE_NOMEM\<close> it has gained at
  most bit \<open>i\<close>; the invariant and the size survive in both cases, through the change of
  representation and the re-insertion of the old members; and the call fails only if an
  allocation failed.\<close>

theorem BitvecSet_bits:
  assumes "bitvec_inv p" and "1 \<le> unat i" and "unat i \<le> unat (iSize p)"
  shows "\<exists>p' rc k'. sqlite3BitvecSet mem k (Some p) i = Some (Some p', rc, k')
    \<and> bitvec_inv p' \<and> iSize p' = iSize p
    \<and> (rc = SQLITE_OK \<and> bits p' = insert (unat i) (bits p)
       \<or> rc = SQLITE_NOMEM \<and> bits p' \<subseteq> insert (unat i) (bits p) \<and> \<not> all_ok mem)"
  using assms by (rule bitvec_set_ok)

theorem BitvecSet_bits_witness:
  "\<exists>p' rc k'. sqlite3BitvecSet (\<lambda>k. k < 3) 0 (Some empty5000) 4999 = Some (Some p', rc, k')
    \<and> bitvec_inv p' \<and> iSize p' = 5000
    \<and> (rc = SQLITE_OK \<and> bits p' = {4999}
       \<or> rc = SQLITE_NOMEM \<and> bits p' \<subseteq> {4999} \<and> \<not> all_ok (\<lambda>k. k < 3))"
  using BitvecSet_bits [OF empty5000_ok(1), of 4999 "\<lambda>k. k < 3" 0] by (simp add: empty5000_ok)

text \<open>C30: Clearing a bit in range returns and removes exactly that bit, also when the hash table
  has to be rebuilt, and keeps the invariant and the size.\<close>

theorem BitvecClear_bits:
  assumes "bitvec_inv p" and "1 \<le> unat i" and "unat i \<le> unat (iSize p)"
  shows "\<exists>p'. sqlite3BitvecClear (Some p) i = Some (Some p') \<and> bitvec_inv p'
    \<and> iSize p' = iSize p \<and> bits p' = bits p - {unat i}"
  using assms by (rule bitvec_clear_ok)

theorem BitvecClear_bits_witness:
  "\<exists>p'. sqlite3BitvecClear (Some (the (bitvec_set (\<lambda>_. True) empty5000 77))) 77 = Some (Some p')
    \<and> bitvec_inv p' \<and> iSize p' = 5000 \<and> bits p' = {}"
  using BitvecClear_bits [OF set_77_ok(1), of 77] by (simp add: set_77_ok)

text \<open>C26: Refinement of a bounded set, for an allocator that never fails: a bitmap of any size that is created and
  then put through any sequence of set and clear calls in range answers every later test as the set of the bits
  that were set and not cleared since.\<close>

theorem bitvec_history:
  assumes "sqlite3BitvecCreate (\<lambda>_. True) 0 n = (Some p, k)" and "list_all (bit_op_in n) ops"
  shows "\<exists>q. bit_run (bitvec_set (\<lambda>_. True)) bitvec_clear ops p = Some q
    \<and> (\<forall>i. sqlite3BitvecTest (Some q) i = Some (unat i \<in> bit_spec ops {}))"
  using BitvecCreate_bits [OF assms(1)] bv.run_refines [of p ops] assms(2)
  by (auto simp: bitvec_test_ok)

theorem bitvec_history_witness:
  "\<exists>q. bit_run (bitvec_set (\<lambda>_. True)) bitvec_clear [Bit_Set 7, Bit_Set 4000, Bit_Clear 7] empty5000
      = Some q
    \<and> (\<forall>i. sqlite3BitvecTest (Some q) i = Some (unat i \<in> {4000}))"
  using bitvec_history [OF empty5000_create, of "[Bit_Set 7, Bit_Set 4000, Bit_Clear 7]"]
  by (simp add: insert_Diff_if)

end
