(* ===== verification/Byte_File.thy ===== *)
theory Byte_File
  imports Sqlite_Prelude
begin

text \<open>
  The part of the \<^verbatim>\<open>sqlite3_io_methods\<close> interface that a journal relies on: bytes that are
  appended to a file can be read back. The in-memory database file (\<^verbatim>\<open>memdb.c\<close>) and the
  in-memory journal (\<^verbatim>\<open>memjournal.c\<close>) implement it; the pager's use of it, writing a run of
  records and playing them back, is proved once against the contract.

  A method returns \<open>None\<close> when it would touch memory outside an allocation.
\<close>

text \<open>Write a run of records one behind the other, stopping at the first error.\<close>

fun write_records ::
  "('s \<Rightarrow> u8 list \<Rightarrow> nat \<Rightarrow> (rc \<times> 's) option) \<Rightarrow> u8 list list \<Rightarrow> nat \<Rightarrow> 's \<Rightarrow> (rc \<times> 's) option"
where
  "write_records xWrite [] off s = Some (SQLITE_OK, s)"
| "write_records xWrite (r # rs) off s = do {
     (rc, s) \<leftarrow> xWrite s r off;
     if rc = SQLITE_OK then write_records xWrite rs (off + length r) s else Some (rc, s)
   }"

text \<open>Read consecutive records of the given lengths.\<close>

fun read_records ::
  "('s \<Rightarrow> nat \<Rightarrow> nat \<Rightarrow> (rc \<times> u8 list \<times> 's) option) \<Rightarrow> nat list \<Rightarrow> nat \<Rightarrow> 's
   \<Rightarrow> (rc \<times> u8 list list \<times> 's) option"
where
  "read_records xRead [] off s = Some (SQLITE_OK, [], s)"
| "read_records xRead (n # ns) off s = do {
     (rc, r, s) \<leftarrow> xRead s n off;
     if rc = SQLITE_OK then do {
       (rc, rs, s) \<leftarrow> read_records xRead ns (off + n) s;
       Some (rc, r # rs, s)
     } else Some (rc, [], s)
   }"

text \<open>\<open>room\<close> says to which sizes a file can grow: offsets are 64-bit integers.\<close>

locale byte_file =
  fixes inv :: "'s \<Rightarrow> bool" and content :: "'s \<Rightarrow> u8 list" and room :: "nat \<Rightarrow> bool"
    and xRead :: "'s \<Rightarrow> nat \<Rightarrow> nat \<Rightarrow> (rc \<times> u8 list \<times> 's) option"
    and xWrite :: "'s \<Rightarrow> u8 list \<Rightarrow> nat \<Rightarrow> (rc \<times> 's) option"
  assumes room_mono: "m \<le> n \<Longrightarrow> room n \<Longrightarrow> room m"
    and read_law: "\<lbrakk>inv s; 0 < n; i + n \<le> length (content s)\<rbrakk> \<Longrightarrow>
      \<exists>s'. xRead s n i = Some (SQLITE_OK, take n (drop i (content s)), s') \<and> inv s'
        \<and> content s' = content s"
    and append_law: "\<lbrakk>inv s; z \<noteq> []; room (length (content s) + length z)\<rbrakk> \<Longrightarrow>
      \<exists>rc s'. xWrite s z (length (content s)) = Some (rc, s') \<and> inv s'
        \<and> (rc = SQLITE_OK \<longrightarrow> content s' = content s @ z)"
begin

lemma write_records_content:
  "\<lbrakk>inv s; [] \<notin> set rs; room (length (content s) + length (concat rs))\<rbrakk> \<Longrightarrow>
   \<exists>rc s'. write_records xWrite rs (length (content s)) s = Some (rc, s') \<and> inv s'
     \<and> (rc = SQLITE_OK \<longrightarrow> content s' = content s @ concat rs)"
proof (induction rs arbitrary: s)
  case Nil
  then show ?case by simp
next
  case (Cons r rs)
  have "room (length (content s) + length r)"
    by (rule room_mono [OF _ Cons.prems(3)]) simp
  with Cons.prems obtain rc s1 where s1: "xWrite s r (length (content s)) = Some (rc, s1)" "inv s1"
    "rc = SQLITE_OK \<longrightarrow> content s1 = content s @ r"
    using append_law [of s r] by auto
  show ?case
  proof (cases "rc = SQLITE_OK")
    case True
    then have c: "content s1 = content s @ r" using s1(3) by simp
    obtain rc' s2 where "write_records xWrite rs (length (content s1)) s1 = Some (rc', s2)"
      "inv s2" "rc' = SQLITE_OK \<longrightarrow> content s2 = content s1 @ concat rs"
      using Cons.IH [OF s1(2)] Cons.prems(2,3) c by (auto simp: add.assoc)
    then show ?thesis
      using s1(1) True c by simp
  next
    case False
    with s1 show ?thesis by simp
  qed
qed

lemma read_records_content:
  "\<lbrakk>inv s; [] \<notin> set rs; content s = pre @ concat rs @ post\<rbrakk> \<Longrightarrow>
   \<exists>s'. read_records xRead (map length rs) (length pre) s = Some (SQLITE_OK, rs, s') \<and> inv s'
     \<and> content s' = content s"
proof (induction rs arbitrary: s pre)
  case Nil
  then show ?case by simp
next
  case (Cons r rs)
  then obtain s1 where s1: "xRead s (length r) (length pre) = Some (SQLITE_OK, r, s1)" "inv s1"
    "content s1 = content s"
    using read_law [of s "length r" "length pre"] by auto
  obtain s2 where "read_records xRead (map length rs) (length (pre @ r)) s1
      = Some (SQLITE_OK, rs, s2)" "inv s2" "content s2 = content s1"
    using Cons.IH [of s1 "pre @ r"] Cons.prems s1(2,3) by auto
  then show ?case
    using s1 by simp
qed

text \<open>What was journaled is what is played back.\<close>

lemma write_then_read:
  assumes "inv s" and "[] \<notin> set rs" and "room (length (content s) + length (concat rs))"
    and "write_records xWrite rs (length (content s)) s = Some (SQLITE_OK, s')"
  shows "\<exists>s''. read_records xRead (map length rs) (length (content s)) s' = Some (SQLITE_OK, rs, s'')"
  using write_records_content [OF assms(1-3)] read_records_content [of s' rs "content s" "[]"]
    assms(2,4) by auto

end

text \<open>A file whose appends cannot fail, such as one over an allocator that never does.\<close>

locale reliable_byte_file = byte_file +
  assumes append_ok: "\<lbrakk>inv s; z \<noteq> []; room (length (content s) + length z)\<rbrakk> \<Longrightarrow> \<exists>s'. xWrite s z (length (content s)) = Some (SQLITE_OK, s')"
begin

lemma write_records_total:
  "\<lbrakk>inv s; [] \<notin> set rs; room (length (content s) + length (concat rs))\<rbrakk> \<Longrightarrow>
   \<exists>s'. write_records xWrite rs (length (content s)) s = Some (SQLITE_OK, s')"
proof (induction rs arbitrary: s)
  case Nil
  then show ?case by simp
next
  case (Cons r rs)
  have "room (length (content s) + length r)"
    by (rule room_mono [OF _ Cons.prems(3)]) simp
  with Cons.prems obtain s1 where s1: "xWrite s r (length (content s)) = Some (SQLITE_OK, s1)" "inv s1"
    "content s1 = content s @ r"
    using append_law [of s r] append_ok [of s r] by auto
  then obtain s2 where "write_records xWrite rs (length (content s1)) s1 = Some (SQLITE_OK, s2)"
    using Cons.IH [OF s1(2)] Cons.prems(2,3) s1(3) by (auto simp: add.assoc)
  then show ?case using s1 by simp
qed

end

end
