(* ===== verification/Mem_Db.thy ===== *)
theory Mem_Db
  imports Byte_File
begin

text \<open>
  \<^verbatim>\<open>memdb.c\<close>: the in-memory VFS. A \<open>MemStore\<close> holds the bytes of a database and the counters
  of the lock protocol; a \<open>MemFile\<close> is one connection's handle on a store; shared stores are
  registered under their name in \<open>memdb_g\<close>. Every method runs under the store's mutex, so one
  method call is one atomic step. File offsets and sizes are natural numbers; a sum or product of the
  source that does not fit a signed 64-bit integer has no defined result, and the operation is \<open>None\<close>.
\<close>

subsection \<open>Data\<close>

definition SQLITE_DESERIALIZE_FREEONCLOSE :: u32 where "SQLITE_DESERIALIZE_FREEONCLOSE = 1"
definition SQLITE_DESERIALIZE_RESIZEABLE :: u32 where "SQLITE_DESERIALIZE_RESIZEABLE = 2"
definition SQLITE_DESERIALIZE_READONLY :: u32 where "SQLITE_DESERIALIZE_READONLY = 4"

definition SQLITE_LOCK_NONE :: nat where "SQLITE_LOCK_NONE = 0"
definition SQLITE_LOCK_SHARED :: nat where "SQLITE_LOCK_SHARED = 1"
definition SQLITE_LOCK_RESERVED :: nat where "SQLITE_LOCK_RESERVED = 2"
definition SQLITE_LOCK_PENDING :: nat where "SQLITE_LOCK_PENDING = 3"
definition SQLITE_LOCK_EXCLUSIVE :: nat where "SQLITE_LOCK_EXCLUSIVE = 4"

lemmas lock_levels = SQLITE_LOCK_NONE_def SQLITE_LOCK_SHARED_def SQLITE_LOCK_RESERVED_def
  SQLITE_LOCK_PENDING_def SQLITE_LOCK_EXCLUSIVE_def

record MemStore =
  sz :: nat
  szAlloc :: nat
  szMax :: nat
  aData :: "u8 list"
  nMmap :: int
  mFlags :: u32
  nRdLock :: int
  nWrLock :: int
  nRef :: int
  zFName :: "string option"

record MemFile =
  pStore :: nat
  eLock :: nat

text \<open>The heap of stores, the open files and the table of shared stores.\<close>

record MemWorld =
  stores :: "nat \<rightharpoonup> MemStore"
  mfiles :: "nat \<rightharpoonup> MemFile"
  apMemStore :: "nat list"

subsection \<open>Content\<close>

text \<open>A value of type \<^verbatim>\<open>sqlite3_int64\<close>: signed overflow is undefined.\<close>

definition i64_val :: "nat \<Rightarrow> nat option" where
  "i64_val x = (if x < 2 ^ 63 then Some x else None)"

definition memdbRead :: "MemStore \<Rightarrow> nat \<Rightarrow> nat \<Rightarrow> (rc \<times> u8 list) option" where
  "memdbRead p iAmt iOfst = do {
     iEnd \<leftarrow> i64_val (iOfst + iAmt);
     if iEnd > sz p then
       let zBuf = replicate iAmt 0 in
       if iOfst < sz p then do {
         z \<leftarrow> mem_get (aData p) iOfst (sz p - iOfst);
         zBuf \<leftarrow> mem_put zBuf 0 z;
         Some (SQLITE_IOERR_SHORT_READ, zBuf)
       } else Some (SQLITE_IOERR_SHORT_READ, zBuf)
     else do {
       z \<leftarrow> mem_get (aData p) iOfst iAmt;
       Some (SQLITE_OK, z)
     }
   }"

definition memdbEnlarge ::
  "(nat \<Rightarrow> bool) \<Rightarrow> nat \<Rightarrow> (nat \<Rightarrow> u8) \<Rightarrow> MemStore \<Rightarrow> nat \<Rightarrow> (rc \<times> MemStore) option"
where
  "memdbEnlarge mem k junk p newSz =
     (if mFlags p AND SQLITE_DESERIALIZE_RESIZEABLE = 0 \<or> nMmap p > 0 then Some (SQLITE_FULL, p)
      else if newSz > szMax p then Some (SQLITE_FULL, p)
      else do {
        newSz \<leftarrow> i64_val (newSz * 2);
        let newSz = (if newSz > szMax p then szMax p else newSz);
        Some (case realloc_bytes mem k junk (aData p) newSz of
            None \<Rightarrow> (SQLITE_IOERR_NOMEM, p)
          | Some pNew \<Rightarrow> (SQLITE_OK, p\<lparr>aData := pNew, szAlloc := newSz\<rparr>))
      })"

definition memdbWrite ::
  "(nat \<Rightarrow> bool) \<Rightarrow> nat \<Rightarrow> (nat \<Rightarrow> u8) \<Rightarrow> MemStore \<Rightarrow> u8 list \<Rightarrow> nat \<Rightarrow> (rc \<times> MemStore) option"
where
  "memdbWrite mem k junk p z iOfst =
     (let iAmt = length z;
          put = (\<lambda>p. do { a \<leftarrow> mem_put (aData p) iOfst z; Some (SQLITE_OK, p\<lparr>aData := a\<rparr>) }) in
      if mFlags p AND SQLITE_DESERIALIZE_READONLY \<noteq> 0 then Some (SQLITE_IOERR_WRITE, p)
      else do {
        iEnd \<leftarrow> i64_val (iOfst + iAmt);
        if iEnd > sz p then do {
          (rc, p) \<leftarrow> (if iEnd > szAlloc p then memdbEnlarge mem k junk p iEnd else Some (SQLITE_OK, p));
          if rc \<noteq> SQLITE_OK then Some (rc, p)
          else do {
            a \<leftarrow> (if iOfst > sz p then mem_put (aData p) (sz p) (replicate (iOfst - sz p) 0)
                 else Some (aData p));
            put (p\<lparr>aData := a, sz := iEnd\<rparr>)
          }
        } else put p
      })"

definition memdbTruncate :: "MemStore \<Rightarrow> nat \<Rightarrow> rc \<times> MemStore" where
  "memdbTruncate p size' =
     (if size' > sz p then (SQLITE_CORRUPT, p) else (SQLITE_OK, p\<lparr>sz := size'\<rparr>))"

definition memdbSync :: "MemStore \<Rightarrow> rc" where
  "memdbSync p = SQLITE_OK"

definition memdbFileSize :: "MemStore \<Rightarrow> rc \<times> nat" where
  "memdbFileSize p = (SQLITE_OK, sz p)"

text \<open>The two control operations the file knows: the name, which only formats a string for the
  caller, and the size limit, whose argument is read and written back.\<close>

definition SQLITE_FCNTL_VFSNAME :: nat where "SQLITE_FCNTL_VFSNAME = 12"
definition SQLITE_FCNTL_SIZE_LIMIT :: nat where "SQLITE_FCNTL_SIZE_LIMIT = 36"

definition memdbFileControl :: "MemStore \<Rightarrow> nat \<Rightarrow> int \<Rightarrow> rc \<times> int \<times> MemStore" where
  "memdbFileControl p op iLimit =
     (let rc = (if op = SQLITE_FCNTL_VFSNAME then SQLITE_OK else SQLITE_NOTFOUND) in
      if op = SQLITE_FCNTL_SIZE_LIMIT then
        let iLimit = (if iLimit < int (sz p) then
                        if iLimit < 0 then int (szMax p) else int (sz p)
                      else iLimit)
        in (SQLITE_OK, iLimit, p\<lparr>szMax := nat iLimit\<rparr>)
      else (rc, iLimit, p))"

text \<open>\<open>Some i\<close> is the address \<^verbatim>\<open>p->aData + i\<close>, \<open>None\<close> the null pointer.\<close>

definition memdbFetch :: "MemStore \<Rightarrow> nat \<Rightarrow> nat \<Rightarrow> (rc \<times> nat option \<times> MemStore) option" where
  "memdbFetch p iOfst iAmt =
     map_option (\<lambda>iEnd.
       if iEnd > sz p \<or> mFlags p AND SQLITE_DESERIALIZE_RESIZEABLE \<noteq> 0
       then (SQLITE_OK, None, p)
       else (SQLITE_OK, Some iOfst, p\<lparr>nMmap := nMmap p + 1\<rparr>)) (i64_val (iOfst + iAmt))"

definition memdbUnfetch :: "MemStore \<Rightarrow> rc \<times> MemStore" where
  "memdbUnfetch p = (SQLITE_OK, p\<lparr>nMmap := nMmap p - 1\<rparr>)"

subsection \<open>Locks\<close>

definition memdbLock :: "MemFile \<Rightarrow> MemStore \<Rightarrow> nat \<Rightarrow> rc \<times> MemFile \<times> MemStore" where
  "memdbLock pThis p lk =
     (if lk \<le> eLock pThis then (SQLITE_OK, pThis, p)
      else
        let (rc, p) =
          (if lk > SQLITE_LOCK_SHARED \<and> mFlags p AND SQLITE_DESERIALIZE_READONLY \<noteq> 0
           then (SQLITE_READONLY, p)
           else if lk = SQLITE_LOCK_SHARED then
             if nWrLock p > 0 then (SQLITE_BUSY, p)
             else (SQLITE_OK, p\<lparr>nRdLock := nRdLock p + 1\<rparr>)
           else if lk = SQLITE_LOCK_RESERVED \<or> lk = SQLITE_LOCK_PENDING then
             if eLock pThis = SQLITE_LOCK_SHARED then
               if nWrLock p > 0 then (SQLITE_BUSY, p)
               else (SQLITE_OK, p\<lparr>nWrLock := 1\<rparr>)
             else (SQLITE_OK, p)
           else
             if nRdLock p > 1 then (SQLITE_BUSY, p)
             else if eLock pThis = SQLITE_LOCK_SHARED then (SQLITE_OK, p\<lparr>nWrLock := 1\<rparr>)
             else (SQLITE_OK, p))
        in (rc, if rc = SQLITE_OK then pThis\<lparr>eLock := lk\<rparr> else pThis, p))"

definition memdbUnlock :: "MemFile \<Rightarrow> MemStore \<Rightarrow> nat \<Rightarrow> rc \<times> MemFile \<times> MemStore" where
  "memdbUnlock pThis p lk =
     (if lk \<ge> eLock pThis then (SQLITE_OK, pThis, p)
      else
        let p = (if lk = SQLITE_LOCK_SHARED then
                   if eLock pThis > SQLITE_LOCK_SHARED then p\<lparr>nWrLock := nWrLock p - 1\<rparr> else p
                 else
                   let p = (if eLock pThis > SQLITE_LOCK_SHARED
                            then p\<lparr>nWrLock := nWrLock p - 1\<rparr> else p)
                   in p\<lparr>nRdLock := nRdLock p - 1\<rparr>)
        in (SQLITE_OK, pThis\<lparr>eLock := lk\<rparr>, p))"

subsection \<open>Opening and closing\<close>

definition memdb_new :: "nat \<Rightarrow> string option \<Rightarrow> int \<Rightarrow> MemStore" where
  "memdb_new mxMemdbSize name refs =
     \<lparr>sz = 0, szAlloc = 0, szMax = mxMemdbSize, aData = [], nMmap = 0,
      mFlags = SQLITE_DESERIALIZE_RESIZEABLE OR SQLITE_DESERIALIZE_FREEONCLOSE,
      nRdLock = 0, nWrLock = 0, nRef = refs, zFName = name\<rparr>"

definition memdb_shared_name :: "string \<Rightarrow> bool" where
  "memdb_shared_name zName \<longleftrightarrow> length zName > 1 \<and> (hd zName = CHR ''/'' \<or> hd zName = CHR 92)"

text \<open>The search loop over \<open>apMemStore\<close>.\<close>

fun memdb_find :: "(nat \<rightharpoonup> MemStore) \<Rightarrow> string \<Rightarrow> nat list \<Rightarrow> nat option" where
  "memdb_find st zName [] = None"
| "memdb_find st zName (s # ss) =
     (if map_option zFName (st s) = Some (Some zName) then Some s else memdb_find st zName ss)"

text \<open>\<open>new\<close> is what \<^verbatim>\<open>sqlite3Malloc\<close> returns for the store, \<open>ok_tab\<close> and \<open>ok_mutex\<close> whether
  the table could be grown and the mutex allocated; \<open>f\<close> is the caller's file handle.\<close>

definition memdbOpen ::
  "nat \<Rightarrow> nat option \<Rightarrow> bool \<Rightarrow> bool \<Rightarrow> MemWorld \<Rightarrow> string \<Rightarrow> nat \<Rightarrow> rc \<times> MemWorld"
where
  "memdbOpen mxMemdbSize new ok_tab ok_mutex w zName f =
     (let ret = (\<lambda>p w. (SQLITE_OK, w\<lparr>mfiles := (mfiles w)(f \<mapsto> \<lparr>pStore = p, eLock = 0\<rparr>)\<rparr>)) in
      if memdb_shared_name zName then
        (case memdb_find (stores w) zName (apMemStore w) of
           Some p \<Rightarrow>
             ret p (w\<lparr>stores := (stores w)(p := map_option (\<lambda>s. s\<lparr>nRef := nRef s + 1\<rparr>) (stores w p))\<rparr>)
         | None \<Rightarrow>
             (case new of
                None \<Rightarrow> (SQLITE_NOMEM, w)
              | Some p \<Rightarrow>
                  if \<not> ok_tab then (SQLITE_NOMEM, w)
                  else if \<not> ok_mutex then (SQLITE_NOMEM, w)
                  else ret p (w\<lparr>stores := (stores w)(p \<mapsto> memdb_new mxMemdbSize (Some zName) 1),
                                apMemStore := apMemStore w @ [p]\<rparr>)))
      else
        (case new of
           None \<Rightarrow> (SQLITE_NOMEM, w)
         | Some p \<Rightarrow> ret p (w\<lparr>stores := (stores w)(p \<mapsto> memdb_new mxMemdbSize None 0)\<rparr>)))"

text \<open>Remove entry \<open>i\<close> of the table by moving the last entry into its place.\<close>

definition memdb_table_drop :: "nat list \<Rightarrow> nat \<Rightarrow> nat list" where
  "memdb_table_drop ss i = take (length ss - 1) (ss[i := last ss])"

fun memdb_index :: "nat list \<Rightarrow> nat \<Rightarrow> nat option" where
  "memdb_index [] p = None"
| "memdb_index (s # ss) p = (if s = p then Some 0 else map_option Suc (memdb_index ss p))"

definition memdbClose :: "MemWorld \<Rightarrow> nat \<Rightarrow> (rc \<times> MemWorld) option" where
  "memdbClose w f = do {
     pFile \<leftarrow> mfiles w f;
     let s = pStore pFile;
     p \<leftarrow> stores w s;
     let tab = (if zFName p \<noteq> None then
                  (case memdb_index (apMemStore w) s of
                     Some i \<Rightarrow> if nRef p = 1 then memdb_table_drop (apMemStore w) i else apMemStore w
                   | None \<Rightarrow> apMemStore w)
                else apMemStore w);
     let p = p\<lparr>nRef := nRef p - 1\<rparr>;
     Some (SQLITE_OK, w\<lparr>mfiles := (mfiles w)(f := None), apMemStore := tab,
       stores := (stores w)(s := (if nRef p \<le> 0 then None else Some p))\<rparr>)
   }"

text \<open>Lift a method on a file and its store to the world; \<open>None\<close> when the handle is not open or
  its store has been freed.\<close>

definition on_file ::
  "MemWorld \<Rightarrow> nat \<Rightarrow> (MemFile \<Rightarrow> MemStore \<Rightarrow> rc \<times> MemFile \<times> MemStore) \<Rightarrow> (rc \<times> MemWorld) option"
where
  "on_file w f m = do {
     pFile \<leftarrow> mfiles w f;
     p \<leftarrow> stores w (pStore pFile);
     let (rc, pFile', p') = m pFile p;
     Some (rc, w\<lparr>mfiles := (mfiles w)(f \<mapsto> pFile'), stores := (stores w)(pStore pFile \<mapsto> p')\<rparr>)
   }"

subsection \<open>The store as a byte file\<close>

definition store_ok :: "MemStore \<Rightarrow> bool" where
  "store_ok p \<longleftrightarrow> sz p \<le> szAlloc p \<and> szAlloc p = length (aData p) \<and> szAlloc p < 2 ^ 63"

definition store_content :: "MemStore \<Rightarrow> u8 list" where
  "store_content p = take (sz p) (aData p)"

text \<open>What a write at any offset means: the gap between the end of the file and the offset reads as
  zeros.\<close>

definition splice :: "u8 list \<Rightarrow> nat \<Rightarrow> u8 list \<Rightarrow> u8 list" where
  "splice c i z = take i c @ replicate (i - length c) 0 @ z @ drop (i + length z) c"

lemma length_store_content: "store_ok p \<Longrightarrow> length (store_content p) = sz p"
  by (simp add: store_content_def store_ok_def)

lemma memdb_read_ok:
  assumes "store_ok p" and "i + n < 2 ^ 63"
  shows "memdbRead p n i =
    Some (if i + n \<le> sz p then (SQLITE_OK, take n (drop i (store_content p)))
          else (SQLITE_IOERR_SHORT_READ,
                drop i (store_content p) @ replicate (n - (sz p - i)) 0))"
  using assms
  by (auto simp: memdbRead_def i64_val_def mem_get_def mem_put_def store_content_def store_ok_def Let_def
      drop_take min_def)

lemma memdb_enlarge_ok:
  assumes p: "store_ok p" and run: "memdbEnlarge mem k junk p n = Some (rc, q)" and n: "szAlloc p < n"
  shows "if rc = SQLITE_OK then store_ok q \<and> n \<le> szAlloc q \<and> sz q = sz p \<and> store_content q = store_content p
    else q = p"
proof (cases "rc = SQLITE_OK")
  case True
  then obtain b m where b: "realloc_bytes mem k junk (aData p) m = Some b"
    "q = p\<lparr>aData := b, szAlloc := m\<rparr>" "n \<le> m" "m < 2 ^ 63"
    using run by (auto simp: memdbEnlarge_def i64_val_def Let_def split: if_splits option.splits)
  have "sz p \<le> length (aData p)" "sz p \<le> m"
    using p n b(3) by (auto simp: store_ok_def)
  then show ?thesis
    using p n b realloc_bytes_Some [OF b(1)] True by (auto simp: store_ok_def store_content_def)
next
  case False
  then show ?thesis
    using run by (auto simp: memdbEnlarge_def i64_val_def Let_def split: if_splits option.splits)
qed

lemma memdb_enlarge_total: "n < 2 ^ 62 \<Longrightarrow> \<exists>rc q. memdbEnlarge mem k junk p n = Some (rc, q)"
  by (auto simp: memdbEnlarge_def i64_val_def Let_def split: option.splits)

lemma memdb_put_ok:
  assumes "store_ok p" and "i + length z \<le> sz p"
  shows "mem_put (aData p) i z = Some (take i (aData p) @ z @ drop (i + length z) (aData p))"
    and "store_ok (p\<lparr>aData := take i (aData p) @ z @ drop (i + length z) (aData p)\<rparr>)"
    and "store_content (p\<lparr>aData := take i (aData p) @ z @ drop (i + length z) (aData p)\<rparr>) =
      splice (store_content p) i z"
  using assms
  by (cases "i = sz p"; auto simp: mem_put_def store_ok_def store_content_def splice_def drop_take min_def)+

lemma memdb_extend_ok:
  assumes "store_ok p" and "sz p < i + length z" and "i + length z \<le> szAlloc p"
  shows "\<exists>a q. (if i > sz p then mem_put (aData p) (sz p) (replicate (i - sz p) 0)
      else Some (aData p)) = Some a
    \<and> map_option (\<lambda>b. p\<lparr>aData := b, sz := i + length z\<rparr>) (mem_put a i z) = Some q
    \<and> store_ok q \<and> store_content q = splice (store_content p) i z"
  using assms
  by (auto simp: mem_put_def store_ok_def store_content_def splice_def min_def take_Cons' not_less)

lemma memdb_write_core:
  assumes p: "store_ok p" and v: "i64_val (i + length z) = Some (i + length z)"
    and e: "memdbEnlarge mem k junk p (i + length z) \<noteq> None \<or> i + length z \<le> szAlloc p"
  shows "\<exists>rc q. memdbWrite mem k junk p z i = Some (rc, q) \<and> store_ok q
    \<and> store_content q = (if rc = SQLITE_OK then splice (store_content p) i z else store_content p)"
proof -
  consider (ro) "mFlags p AND SQLITE_DESERIALIZE_READONLY \<noteq> 0"
    | (inside) "mFlags p AND SQLITE_DESERIALIZE_READONLY = 0" "i + length z \<le> sz p"
    | (past) "mFlags p AND SQLITE_DESERIALIZE_READONLY = 0" "sz p < i + length z"
    by linarith
  then show ?thesis
  proof cases
    case ro
    then show ?thesis using p by (simp add: memdbWrite_def)
  next
    case inside
    then show ?thesis
      using memdb_put_ok [OF p, of i z] v by (simp add: memdbWrite_def)
  next
    case past
    obtain rc q where grow: "(if i + length z > szAlloc p then memdbEnlarge mem k junk p (i + length z)
        else Some (SQLITE_OK, p)) = Some (rc, q)"
      using e by (cases "i + length z > szAlloc p") auto
    have q: "if rc = SQLITE_OK then store_ok q \<and> i + length z \<le> szAlloc q \<and> sz q = sz p
        \<and> store_content q = store_content p else q = p"
      using memdb_enlarge_ok [OF p, of mem k junk "i + length z" rc q] grow p
      by (auto split: if_splits)
    show ?thesis
    proof (cases "rc = SQLITE_OK")
      case False
      then show ?thesis
        using past q grow p v by (simp add: memdbWrite_def)
    next
      case True
      then obtain a r where r: "(if i > sz q then mem_put (aData q) (sz q) (replicate (i - sz q) 0)
          else Some (aData q)) = Some a"
        "map_option (\<lambda>b. q\<lparr>aData := b, sz := i + length z\<rparr>) (mem_put a i z) = Some r"
        "store_ok r" "store_content r = splice (store_content q) i z"
        using memdb_extend_ok [of q i z] q past by auto
      then obtain b where b: "mem_put a i z = Some b" "r = q\<lparr>aData := b, sz := i + length z\<rparr>"
        by auto
      have "memdbWrite mem k junk p z i = Some (SQLITE_OK, r)"
        using True grow r(1) b past v by (simp add: memdbWrite_def)
      then show ?thesis
        using r q True by simp
    qed
  qed
qed


lemma memdb_write_ok:
  assumes "store_ok p" and "i + length z < 2 ^ 62"
  shows "\<exists>rc q. memdbWrite mem k junk p z i = Some (rc, q) \<and> store_ok q
    \<and> store_content q = (if rc = SQLITE_OK then splice (store_content p) i z else store_content p)"
proof (rule memdb_write_core [OF assms(1)])
  show "i64_val (i + length z) = Some (i + length z)" using assms(2) by (simp add: i64_val_def)
  show "memdbEnlarge mem k junk p (i + length z) \<noteq> None \<or> i + length z \<le> szAlloc p"
    using memdb_enlarge_total [OF assms(2)] by blast
qed

lemma memdb_write_defined:
  assumes p: "store_ok p" and run: "memdbWrite mem k junk p z i = Some (rc, q)"
  shows "store_ok q"
proof (cases "mFlags p AND SQLITE_DESERIALIZE_READONLY = 0")
  case True
  then have v: "i64_val (i + length z) = Some (i + length z)"
    using run by (auto simp: memdbWrite_def Let_def i64_val_def split: bind_splits if_splits)
  have "memdbEnlarge mem k junk p (i + length z) \<noteq> None \<or> i + length z \<le> szAlloc p"
    using run True v p by (auto simp: memdbWrite_def Let_def store_ok_def split: bind_splits if_splits)
  from memdb_write_core [OF p v this] show ?thesis using run by auto
next
  case False
  then show ?thesis using p run by (simp add: memdbWrite_def)
qed

interpretation memdb: byte_file store_ok store_content "\<lambda>n. n < 2 ^ 62"
  "\<lambda>p n i. map_option (\<lambda>(rc, z). (rc, z, p)) (memdbRead p n i)"
  "\<lambda>p z i. memdbWrite mem k junk p z i" for mem k junk
proof (unfold_locales, simp)
  fix p n i
  assume "store_ok p" and "i + n \<le> length (store_content p)"
  then show "\<exists>q. map_option (\<lambda>(rc, z). (rc, z, p)) (memdbRead p n i) =
      Some (SQLITE_OK, take n (drop i (store_content p)), q) \<and> store_ok q
      \<and> store_content q = store_content p"
    using memdb_read_ok [of p i n] by (simp add: length_store_content store_ok_def)
next
  fix p and z :: "u8 list"
  assume p: "store_ok p" and z: "length (store_content p) + length z < 2 ^ 62"
  show "\<exists>rc q. memdbWrite mem k junk p z (length (store_content p)) = Some (rc, q) \<and> store_ok q
      \<and> (rc = SQLITE_OK \<longrightarrow> store_content q = store_content p @ z)"
    using memdb_write_ok [OF p, of "length (store_content p)" z mem k junk] z
    by (auto simp: splice_def)
qed

text \<open>C29: The in-memory file is a byte sequence: whatever the allocator does and whatever new
  memory holds, a write of \<open>z\<close> at an offset such that the write ends below \<open>2 ^ 62\<close>, where no 64-bit sum or product
  overflows, touches no byte outside the allocation; when it
  succeeds, every later read that ends below \<open>2 ^ 63\<close> sees the old file with \<open>z\<close> laid over it and the gap
  filled with zeros, padded with zeros and reported as short past the new end; when it fails, every
  later read sees the old file.\<close>

theorem memdb_write_read:
  assumes "store_ok p" and "i + length z < 2 ^ 62"
  shows "\<exists>rc q. memdbWrite mem k junk p z i = Some (rc, q) \<and> store_ok q
    \<and> (let c = (if rc = SQLITE_OK then splice (store_content p) i z else store_content p) in
       \<forall>j n. j + n < 2 ^ 63 \<longrightarrow> memdbRead q n j =
         Some (if j + n \<le> length c then (SQLITE_OK, take n (drop j c))
               else (SQLITE_IOERR_SHORT_READ, drop j c @ replicate (n - (length c - j)) 0)))"
proof -
  obtain rc q where q: "memdbWrite mem k junk p z i = Some (rc, q)" "store_ok q"
    "store_content q = (if rc = SQLITE_OK then splice (store_content p) i z else store_content p)"
    using memdb_write_ok [OF assms] by blast
  note r = memdb_read_ok [OF q(2), unfolded length_store_content [OF q(2), symmetric] q(3)]
  show ?thesis
    using q(1,2) r by (auto simp: Let_def)
qed

theorem memdb_write_read_witness:
  "\<exists>rc q. memdbWrite (\<lambda>k. k \<noteq> 1) 0 (\<lambda>_. 0xAA) (memdb_new 100 None 0) [1, 2] 3 = Some (rc, q)
    \<and> (\<exists>c. memdbRead q 4 2 = Some c)"
proof -
  have "store_ok (memdb_new 100 None 0)" "3 + length [1, 2 :: u8] < 2 ^ 62"
    by (simp_all add: store_ok_def memdb_new_def)
  from memdb_write_read [OF this, of "\<lambda>k. k \<noteq> 1" 0 "\<lambda>_. 0xAA"] show ?thesis
    by (auto simp: Let_def)
qed

subsection \<open>The lock protocol of a shared store\<close>

text \<open>The handles on store \<open>s\<close> that hold at least lock level \<open>n\<close>.\<close>

definition holders :: "MemWorld \<Rightarrow> nat \<Rightarrow> nat \<Rightarrow> nat set" where
  "holders w s n = {f. \<exists>fl. mfiles w f = Some fl \<and> pStore fl = s \<and> n \<le> eLock fl}"

definition counts_ok :: "int \<Rightarrow> int \<Rightarrow> int \<Rightarrow> MemStore \<Rightarrow> bool" where
  "counts_ok c1 c2 c4 p \<longleftrightarrow> nRdLock p = c1 \<and> nWrLock p = c2 \<and> c2 \<le> 1 \<and> (0 < c4 \<longrightarrow> c1 = 1)"

abbreviation holds :: "nat \<Rightarrow> MemFile \<Rightarrow> int" where
  "holds n fl \<equiv> of_bool (n \<le> eLock fl)"

definition lock_request_ok :: "nat \<Rightarrow> MemFile \<Rightarrow> bool" where
  "lock_request_ok lk fl \<longleftrightarrow>
     lk \<le> SQLITE_LOCK_EXCLUSIVE \<and> (SQLITE_LOCK_SHARED < lk \<longrightarrow> SQLITE_LOCK_SHARED \<le> eLock fl)"

lemma memdb_lock_counts:
  assumes "memdbLock fl p lk = (rc, fl', p')" and "lock_request_ok lk fl"
    and "counts_ok c1 c2 c4 p" and "holds 1 fl \<le> c1" "holds 2 fl \<le> c2" "holds 4 fl \<le> c4"
    and "0 \<le> c4" "c4 \<le> c2" "c2 \<le> c1" "eLock fl \<le> 4"
    and "c2 - holds 2 fl \<le> c1 - holds 1 fl"
  shows "counts_ok (c1 - holds 1 fl + holds 1 fl') (c2 - holds 2 fl + holds 2 fl')
      (c4 - holds 4 fl + holds 4 fl') p' \<and> pStore fl' = pStore fl \<and> eLock fl' \<le> 4"
  using assms
  by (auto simp: memdbLock_def lock_request_ok_def counts_ok_def lock_levels Let_def
      of_bool_def split: if_splits prod.splits)

lemma memdb_unlock_counts:
  assumes "memdbUnlock fl p lk = (rc, fl', p')" and "lk \<le> SQLITE_LOCK_SHARED"
    and "counts_ok c1 c2 c4 p" and "holds 1 fl \<le> c1" "holds 2 fl \<le> c2" "holds 4 fl \<le> c4"
    and "0 \<le> c4" "c4 \<le> c2" "c2 \<le> c1" "eLock fl \<le> 4"
    and "c2 - holds 2 fl \<le> c1 - holds 1 fl" "c4 - holds 4 fl \<le> c2 - holds 2 fl"
  shows "counts_ok (c1 - holds 1 fl + holds 1 fl') (c2 - holds 2 fl + holds 2 fl')
      (c4 - holds 4 fl + holds 4 fl') p' \<and> pStore fl' = pStore fl \<and> eLock fl' \<le> 4"
  using assms
  by (auto simp: memdbUnlock_def counts_ok_def lock_levels Let_def
      of_bool_def split: if_splits prod.splits)

subsection \<open>Invariant of all stores and handles\<close>

definition store_inv :: "MemWorld \<Rightarrow> nat \<Rightarrow> MemStore \<Rightarrow> bool" where
  "store_inv w s p \<longleftrightarrow> store_ok p
     \<and> counts_ok (int (card (holders w s 1))) (int (card (holders w s 2))) (int (card (holders w s 4))) p
     \<and> (case zFName p of
          None \<Rightarrow> nRef p = 0 \<and> card (holders w s 0) = 1 \<and> s \<notin> set (apMemStore w)
        | Some z \<Rightarrow> nRef p = int (card (holders w s 0)) \<and> 0 < nRef p \<and> s \<in> set (apMemStore w))"

definition names_ok :: "MemWorld \<Rightarrow> bool" where
  "names_ok w \<longleftrightarrow> distinct (apMemStore w) \<and> set (apMemStore w) \<subseteq> dom (stores w)
     \<and> inj_on (\<lambda>s. map_option zFName (stores w s)) (set (apMemStore w))"

definition world_ok :: "MemWorld \<Rightarrow> bool" where
  "world_ok w \<longleftrightarrow> finite (dom (mfiles w))
     \<and> (\<forall>f fl. mfiles w f = Some fl \<longrightarrow> eLock fl \<le> 4 \<and> stores w (pStore fl) \<noteq> None)
     \<and> (\<forall>s p. stores w s = Some p \<longrightarrow> store_inv w s p) \<and> names_ok w"

lemma finite_holders: "finite (dom (mfiles w)) \<Longrightarrow> finite (holders w s n)"
  by (rule finite_subset [of _ "dom (mfiles w)"]) (auto simp: holders_def)

lemma holders_mono: "m \<le> n \<Longrightarrow> holders w s n \<subseteq> holders w s m"
  by (auto simp: holders_def)

lemma holders_update:
  assumes "mfiles w' = (mfiles w)(f \<mapsto> fl')"
  shows "holders w' s n = (holders w s n - {f}) \<union> (if pStore fl' = s \<and> n \<le> eLock fl' then {f} else {})"
  using assms by (auto simp: holders_def)

lemma holders_drop:
  assumes "mfiles w' = (mfiles w)(f := None)"
  shows "holders w' s n = holders w s n - {f}"
  using assms by (auto simp: holders_def)

text \<open>How the counts of the store move when one handle changes its level.\<close>

lemma card_holders_le:
  assumes "finite (dom (mfiles w))" and "mfiles w f = Some fl" and "pStore fl = s"
  shows "int (card (holders w s n - {f})) = int (card (holders w s n)) - holds n fl"
    and "holds n fl \<le> int (card (holders w s n))"
    and "m \<le> n \<Longrightarrow> int (card (holders w s n)) - holds n fl \<le> int (card (holders w s m)) - holds m fl"
    and "m \<le> n \<Longrightarrow> card (holders w s n) \<le> card (holders w s m)"
proof -
  have fin: "finite (holders w s n)" for n
    using assms(1) by (rule finite_holders)
  have mem: "f \<in> holders w s n \<longleftrightarrow> n \<le> eLock fl" for n
    using assms(2,3) by (auto simp: holders_def)
  have rest: "int (card (holders w s n - {f})) = int (card (holders w s n)) - holds n fl" for n
    using fin mem card_Diff_singleton [of f "holders w s n"] card_gt_0_iff [of "holders w s n"]
    by (auto simp: of_nat_diff Suc_leI)
  then show "int (card (holders w s n - {f})) = int (card (holders w s n)) - holds n fl" .
  show "holds n fl \<le> int (card (holders w s n))"
    using rest [of n] by linarith
  show "int (card (holders w s n)) - holds n fl \<le> int (card (holders w s m)) - holds m fl"
    if "m \<le> n"
  proof -
    have "card (holders w s n - {f}) \<le> card (holders w s m - {f})"
      by (rule card_mono) (use fin holders_mono [OF that] in auto)
    then show ?thesis using rest [of n] rest [of m] by linarith
  qed
  show "m \<le> n \<Longrightarrow> card (holders w s n) \<le> card (holders w s m)"
    by (rule card_mono [OF fin holders_mono])
qed

lemma card_holders_move:
  assumes "finite (dom (mfiles w))" and "mfiles w f = Some fl" and "pStore fl = s"
    and "mfiles w' = (mfiles w)(f \<mapsto> fl')" and "pStore fl' = s"
  shows "int (card (holders w' s n)) = int (card (holders w s n)) - holds n fl + holds n fl'"
  unfolding holders_update [OF assms(4)] using assms(5) card_holders_le(1) [OF assms(1-3), of n]
    card_insert_disjoint [of "holders w s n - {f}" f] finite_holders [OF assms(1), of s n] by simp

text \<open>A method that changes one handle and its store keeps the invariant if it keeps the counts.\<close>

lemma world_ok_update:
  assumes w: "world_ok w" and f: "mfiles w f = Some fl" "stores w (pStore fl) = Some p"
    and fl': "pStore fl' = pStore fl" "eLock fl' \<le> 4"
    and p': "store_ok p'" "zFName p' = zFName p" "nRef p' = nRef p"
    and counts: "counts_ok (int (card (holders w (pStore fl) 1)) - holds 1 fl + holds 1 fl')
      (int (card (holders w (pStore fl) 2)) - holds 2 fl + holds 2 fl')
      (int (card (holders w (pStore fl) 4)) - holds 4 fl + holds 4 fl') p'"
  defines "w' \<equiv> w\<lparr>mfiles := (mfiles w)(f \<mapsto> fl'), stores := (stores w)(pStore fl \<mapsto> p')\<rparr>"
  shows "world_ok w'"
proof -
  let ?s = "pStore fl"
  have fin: "finite (dom (mfiles w))" using w by (simp add: world_ok_def)
  have m: "mfiles w' = (mfiles w)(f \<mapsto> fl')" "apMemStore w' = apMemStore w" by (simp_all add: w'_def)
  have st: "stores w' = (stores w)(?s \<mapsto> p')" by (simp add: w'_def)
  note move = card_holders_move [OF fin f(1) refl m(1) fl'(1)]
  have other: "holders w' t n = holders w t n" if "t \<noteq> ?s" for t n
    using that f(1) fl'(1) by (auto simp: m(1) holders_def split: if_splits)
  have inv: "store_inv w ?s p" using w f by (simp add: world_ok_def)
  have zero: "card (holders w' ?s 0) = card (holders w ?s 0)"
    using move [of 0] by simp
  have "store_inv w' ?s p'"
    unfolding store_inv_def move zero m(2) p'(2,3) using inv p'(1) counts
    by (simp add: store_inv_def)
  moreover have "store_inv w' t q" if "t \<noteq> ?s" "stores w t = Some q" for t q
  proof -
    have "store_inv w t q" using w that(2) by (simp add: world_ok_def)
    then show ?thesis by (simp only: store_inv_def other [OF that(1)] m(2))
  qed
  moreover have "names_ok w'"
  proof -
    have "map_option zFName (stores w' t) = map_option zFName (stores w t)" for t
      using f(2) p'(2) by (simp add: st)
    then show ?thesis
      using w f(2) by (auto simp: world_ok_def names_ok_def m st)
  qed
  ultimately show ?thesis
    using w f fl' by (auto simp: world_ok_def m st)
qed

lemma on_file_ok:
  assumes w: "world_ok w" and run: "on_file w f m = Some (rc, w')"
    and m: "\<And>fl p rc fl' p'. \<lbrakk>mfiles w f = Some fl; stores w (pStore fl) = Some p;
      store_inv w (pStore fl) p; eLock fl \<le> 4; m fl p = (rc, fl', p')\<rbrakk> \<Longrightarrow>
        pStore fl' = pStore fl \<and> eLock fl' \<le> 4 \<and> store_ok p' \<and> zFName p' = zFName p
        \<and> nRef p' = nRef p
        \<and> counts_ok (int (card (holders w (pStore fl) 1)) - holds 1 fl + holds 1 fl')
            (int (card (holders w (pStore fl) 2)) - holds 2 fl + holds 2 fl')
            (int (card (holders w (pStore fl) 4)) - holds 4 fl + holds 4 fl') p'"
  shows "world_ok w'"
proof -
  obtain fl p rc' fl' p' where
    f: "mfiles w f = Some fl" "stores w (pStore fl) = Some p" "m fl p = (rc', fl', p')"
    and w': "w' = w\<lparr>mfiles := (mfiles w)(f \<mapsto> fl'), stores := (stores w)(pStore fl \<mapsto> p')\<rparr>"
    using run by (auto simp: on_file_def split: bind_splits prod.splits)
  have "store_inv w (pStore fl) p" "eLock fl \<le> 4"
    using w f by (auto simp: world_ok_def)
  from m [OF f(1,2) this f(3)] show ?thesis
    unfolding w' using world_ok_update [OF w f(1,2)] by blast
qed

lemma memdbLock_frame:
  "memdbLock fl p lk = (rc, fl', p') \<Longrightarrow>
     sz p' = sz p \<and> szAlloc p' = szAlloc p \<and> aData p' = aData p \<and> zFName p' = zFName p \<and> nRef p' = nRef p"
  by (auto simp: memdbLock_def Let_def split: if_splits prod.splits)

lemma memdbUnlock_frame:
  "memdbUnlock fl p lk = (rc, fl', p') \<Longrightarrow>
     sz p' = sz p \<and> szAlloc p' = szAlloc p \<and> aData p' = aData p \<and> zFName p' = zFName p \<and> nRef p' = nRef p"
  by (auto simp: memdbUnlock_def Let_def split: if_splits)

lemma memdbWrite_frame:
  "memdbWrite mem k junk p z i = Some (rc, q) \<Longrightarrow>
     nRdLock q = nRdLock p \<and> nWrLock q = nWrLock p \<and> zFName q = zFName p \<and> nRef q = nRef p"
  by (auto simp: memdbWrite_def memdbEnlarge_def i64_val_def Let_def
      split: if_splits option.splits bind_splits prod.splits)

lemma world_ok_lock:
  assumes w: "world_ok w" and run: "on_file w f (\<lambda>fl p. memdbLock fl p lk) = Some (rc, w')"
    and req: "\<And>fl. mfiles w f = Some fl \<Longrightarrow> lock_request_ok lk fl"
  shows "world_ok w'"
proof (rule on_file_ok [OF w run])
  fix fl p rc fl' p'
  assume f: "mfiles w f = Some fl" "store_inv w (pStore fl) p" "eLock fl \<le> 4"
    and r: "memdbLock fl p lk = (rc, fl', p')"
  have fin: "finite (dom (mfiles w))" using w by (simp add: world_ok_def)
  note c = card_holders_le(2-4) [OF fin f(1) refl]
  show "pStore fl' = pStore fl \<and> eLock fl' \<le> 4 \<and> store_ok p' \<and> zFName p' = zFName p
        \<and> nRef p' = nRef p
        \<and> counts_ok (int (card (holders w (pStore fl) 1)) - holds 1 fl + holds 1 fl')
            (int (card (holders w (pStore fl) 2)) - holds 2 fl + holds 2 fl')
            (int (card (holders w (pStore fl) 4)) - holds 4 fl + holds 4 fl') p'"
    using memdb_lock_counts [OF r req [OF f(1)] _ c(1) c(1) c(1) _ _ _ f(3) c(2)] c(3) f(2)
      memdbLock_frame [OF r]
    by (auto simp: store_inv_def store_ok_def)
qed

lemma world_ok_unlock:
  assumes w: "world_ok w" and run: "on_file w f (\<lambda>fl p. memdbUnlock fl p lk) = Some (rc, w')"
    and lk: "lk \<le> SQLITE_LOCK_SHARED"
  shows "world_ok w'"
proof (rule on_file_ok [OF w run])
  fix fl p rc fl' p'
  assume f: "mfiles w f = Some fl" "store_inv w (pStore fl) p" "eLock fl \<le> 4"
    and r: "memdbUnlock fl p lk = (rc, fl', p')"
  have fin: "finite (dom (mfiles w))" using w by (simp add: world_ok_def)
  note c = card_holders_le(2-4) [OF fin f(1) refl]
  show "pStore fl' = pStore fl \<and> eLock fl' \<le> 4 \<and> store_ok p' \<and> zFName p' = zFName p
        \<and> nRef p' = nRef p
        \<and> counts_ok (int (card (holders w (pStore fl) 1)) - holds 1 fl + holds 1 fl')
            (int (card (holders w (pStore fl) 2)) - holds 2 fl + holds 2 fl')
            (int (card (holders w (pStore fl) 4)) - holds 4 fl + holds 4 fl') p'"
    using memdb_unlock_counts [OF r lk _ c(1) c(1) c(1) _ _ _ f(3) c(2) c(2)] c(3) f(2)
      memdbUnlock_frame [OF r]
    by (auto simp: store_inv_def store_ok_def)
qed

text \<open>The methods on the content leave the handle, the locks and the references alone.\<close>

definition data_method :: "(MemStore \<Rightarrow> rc \<times> MemStore) \<Rightarrow> bool" where
  "data_method m \<longleftrightarrow> (\<forall>p rc q. store_ok p \<longrightarrow> m p = (rc, q) \<longrightarrow>
     store_ok q \<and> nRdLock q = nRdLock p \<and> nWrLock q = nWrLock p \<and> zFName q = zFName p \<and> nRef q = nRef p)"

lemma world_ok_data:
  assumes w: "world_ok w" and m: "data_method m"
    and run: "on_file w f (\<lambda>fl p. let (rc, q) = m p in (rc, fl, q)) = Some (rc, w')"
  shows "world_ok w'"
proof (rule on_file_ok [OF w run])
  fix fl fl' :: MemFile and p p' rc
  assume f: "store_inv w (pStore fl) p" "eLock fl \<le> 4" "(let (rc, q) = m p in (rc, fl, q)) = (rc, fl', p')"
  then have r: "m p = (rc, p')" "fl' = fl"
    by (auto split: prod.splits)
  have "store_ok p' \<and> nRdLock p' = nRdLock p \<and> nWrLock p' = nWrLock p \<and> zFName p' = zFName p
      \<and> nRef p' = nRef p"
    using m f(1) r(1) unfolding data_method_def store_inv_def by blast
  then show "pStore fl' = pStore fl \<and> eLock fl' \<le> 4 \<and> store_ok p' \<and> zFName p' = zFName p
        \<and> nRef p' = nRef p
        \<and> counts_ok (int (card (holders w (pStore fl) 1)) - holds 1 fl + holds 1 fl')
            (int (card (holders w (pStore fl) 2)) - holds 2 fl + holds 2 fl')
            (int (card (holders w (pStore fl) 4)) - holds 4 fl + holds 4 fl') p'"
    using f(1,2) by (simp add: r(2) store_inv_def counts_ok_def)
qed

lemma data_methods:
  "data_method (\<lambda>p. case memdbWrite mem k junk p z i of Some r \<Rightarrow> r | None \<Rightarrow> (SQLITE_ERROR, p))"
  "data_method (\<lambda>p. memdbTruncate p n)"
  "data_method (\<lambda>p. let (rc, _, q) = memdbFileControl p op lim in (rc, q))"
  "data_method (\<lambda>p. case memdbFetch p i n of Some (rc, _, q) \<Rightarrow> (rc, q) | None \<Rightarrow> (SQLITE_ERROR, p))"
  "data_method memdbUnfetch"
proof -
  show "data_method (\<lambda>p. case memdbWrite mem k junk p z i of Some r \<Rightarrow> r | None \<Rightarrow> (SQLITE_ERROR, p))"
    unfolding data_method_def
  proof (intro allI impI)
    fix p rc q
    assume p: "store_ok p" "(case memdbWrite mem k junk p z i of Some r \<Rightarrow> r | None \<Rightarrow> (SQLITE_ERROR, p)) = (rc, q)"
    then show "store_ok q \<and> nRdLock q = nRdLock p \<and> nWrLock q = nWrLock p \<and> zFName q = zFName p \<and> nRef q = nRef p"
      using memdbWrite_frame memdb_write_defined [OF p(1)] by (auto split: option.splits)
  qed
qed (auto simp: data_method_def memdbTruncate_def memdbFileControl_def memdbFetch_def memdbUnfetch_def
    store_ok_def Let_def i64_val_def split: if_splits)


subsection \<open>Opening and closing keep the invariant\<close>

lemma memdb_find_Some:
  "memdb_find st z ss = Some s \<Longrightarrow> s \<in> set ss \<and> map_option zFName (st s) = Some (Some z)"
  by (induction ss) (auto split: if_splits)

lemma memdb_find_None:
  "memdb_find st z ss = None \<Longrightarrow> s \<in> set ss \<Longrightarrow> map_option zFName (st s) \<noteq> Some (Some z)"
  by (induction ss) (auto split: if_splits)

lemma memdb_index_Some: "memdb_index ss s = Some i \<Longrightarrow> i < length ss \<and> ss ! i = s"
  by (induction ss arbitrary: i) (auto split: if_splits)

lemma memdb_index_None: "memdb_index ss s = None \<Longrightarrow> s \<notin> set ss"
  by (induction ss) (auto split: if_splits)

lemma memdb_table_drop_ok:
  assumes "distinct ss" and "i < length ss"
  shows "distinct (memdb_table_drop ss i)" and "set (memdb_table_drop ss i) = set ss - {ss ! i}"
proof -
  obtain xs l where ss: "ss = xs @ [l]"
    using assms(2) by (cases ss rule: rev_cases) auto
  have d: "memdb_table_drop ss i = (if i = length xs then xs else xs[i := l])"
    using assms(2) by (auto simp: memdb_table_drop_def ss list_update_append)
  show "distinct (memdb_table_drop ss i)"
    using assms unfolding d by (auto simp: ss intro: distinct_list_update)
  show "set (memdb_table_drop ss i) = set ss - {ss ! i}"
    using assms unfolding d by (auto simp: ss set_update_distinct nth_append)
qed

lemma holders_fresh:
  assumes "world_ok w" and "stores w p = None"
  shows "holders w p n = {}"
  using assms by (fastforce simp: holders_def world_ok_def)

lemma inj_on_insert_fresh:
  assumes "inj_on g A" and "\<And>s. s \<in> A \<Longrightarrow> g s \<noteq> g p"
  shows "inj_on g (insert p A)"
  using assms by (fastforce simp: inj_on_def)

lemma world_ok_new:
  assumes w: "world_ok w" and f: "mfiles w f = None" and p: "stores w p = None"
    and name: "z = None \<and> r = 0 \<and> tab = apMemStore w
      \<or> (\<exists>n. z = Some n \<and> r = 1 \<and> tab = apMemStore w @ [p] \<and> memdb_find (stores w) n (apMemStore w) = None)"
  shows "world_ok (w\<lparr>stores := (stores w)(p \<mapsto> memdb_new mx z r), apMemStore := tab,
    mfiles := (mfiles w)(f \<mapsto> \<lparr>pStore = p, eLock = 0\<rparr>)\<rparr>)" (is "world_ok ?w")
proof -
  have h: "holders ?w s n = (if s = p \<and> n = 0 then {f} else holders w s n)" for s n
    using f holders_fresh [OF w p] by (auto simp: holders_def)
  have new: "p \<notin> set (apMemStore w)"
    using w p by (auto simp: world_ok_def names_ok_def)
  have tab: "s \<in> set tab \<longleftrightarrow> s \<in> set (apMemStore w)" if "s \<noteq> p" for s
    using name that by auto
  have old: "store_inv ?w s q" if "stores w s = Some q" for s q
  proof -
    have "s \<noteq> p" "store_inv w s q" using that p w by (auto simp: world_ok_def)
    then show ?thesis by (simp add: store_inv_def h tab split: option.splits)
  qed
  have own: "store_inv ?w p (memdb_new mx z r)"
    using name new holders_fresh [OF w p]
    unfolding store_inv_def h by (auto simp: memdb_new_def store_ok_def counts_ok_def)
  have "names_ok ?w"
  proof -
    have n: "names_ok w" using w by (simp add: world_ok_def)
    have inj: "inj_on (\<lambda>s. map_option zFName (stores ?w s)) (set (apMemStore w))"
      using n new by (auto simp: names_ok_def inj_on_def)
    moreover have "inj_on (\<lambda>s. map_option zFName (stores ?w s)) (set tab)"
      if "z = Some m" "tab = apMemStore w @ [p]" "memdb_find (stores w) m (apMemStore w) = None" for m
    proof -
      have "inj_on (\<lambda>s. map_option zFName (stores ?w s)) (insert p (set (apMemStore w)))"
      proof (rule inj_on_insert_fresh [OF inj])
        show "map_option zFName (stores ?w s) \<noteq> map_option zFName (stores ?w p)"
          if "s \<in> set (apMemStore w)" for s
          using memdb_find_None [OF \<open>memdb_find (stores w) m (apMemStore w) = None\<close> that] that new
            \<open>z = Some m\<close> by (auto simp: memdb_new_def)
      qed
      then show ?thesis by (simp add: that(2))
    qed
    ultimately show ?thesis
      using n name new by (auto simp: names_ok_def)
  qed
  then show ?thesis
    using w f p old own by (auto simp: world_ok_def)
qed


lemma world_ok_share:
  assumes w: "world_ok w" and f: "mfiles w f = None" and p: "stores w s = Some p" "zFName p \<noteq> None"
  shows "world_ok (w\<lparr>stores := (stores w)(s \<mapsto> p\<lparr>nRef := nRef p + 1\<rparr>),
    mfiles := (mfiles w)(f \<mapsto> \<lparr>pStore = s, eLock = 0\<rparr>)\<rparr>)" (is "world_ok ?w")
proof -
  have h: "holders ?w t n = (if t = s \<and> n = 0 then insert f (holders w t n) else holders w t n)" for t n
    using f by (auto simp: holders_def)
  have nf: "f \<notin> holders w s 0" using f by (simp add: holders_def)
  have fin: "finite (holders w s 0)" using w by (simp add: world_ok_def finite_holders)
  have inv: "store_inv w s p" using w p by (simp add: world_ok_def)
  have "store_inv ?w s (p\<lparr>nRef := nRef p + 1\<rparr>)"
    using inv p(2) nf fin unfolding store_inv_def h
    by (auto simp: store_ok_def counts_ok_def split: option.splits)
  moreover have "store_inv ?w t q" if "t \<noteq> s" "stores w t = Some q" for t q
  proof -
    have "store_inv w t q" using that w by (simp add: world_ok_def)
    then show ?thesis unfolding store_inv_def h using that(1) by (auto split: option.splits)
  qed
  moreover have "names_ok ?w"
  proof -
    have "map_option zFName (stores ?w t) = map_option zFName (stores w t)" for t
      using p(1) by simp
    then show ?thesis
      using w p(1) by (auto simp: world_ok_def names_ok_def)
  qed
  ultimately show ?thesis
    using w f p(1) by (auto simp: world_ok_def)
qed

lemma world_ok_open:
  assumes w: "world_ok w" and f: "mfiles w f = None" and new: "\<And>p. new = Some p \<Longrightarrow> stores w p = None"
    and run: "memdbOpen mx new t m w z f = (rc, w')"
  shows "world_ok w'"
proof (cases "rc = SQLITE_OK")
  case False
  then have "w' = w"
    using run by (auto simp: memdbOpen_def Let_def split: if_splits option.splits)
  then show ?thesis using w by simp
next
  case True
  show ?thesis
  proof (cases "memdb_shared_name z \<and> memdb_find (stores w) z (apMemStore w) \<noteq> None")
    case True
    then obtain s where s: "memdb_find (stores w) z (apMemStore w) = Some s" by blast
    obtain p where p: "stores w s = Some p" "zFName p = Some z"
      using memdb_find_Some [OF s] by auto
    then show ?thesis
      using world_ok_share [OF w f p(1)] run s True by (auto simp: memdbOpen_def)
  next
    case False
    obtain p where p: "new = Some p" using run True False
      by (auto simp: memdbOpen_def Let_def split: if_splits option.splits)
    show ?thesis
    proof (cases "memdb_shared_name z")
      case sh: True
      then show ?thesis
        using world_ok_new [OF w f new [OF p], of "Some z" 1 "apMemStore w @ [p]" mx] run True False p
        by (auto simp: memdbOpen_def Let_def split: if_splits)
    next
      case ns: False
      then show ?thesis
        using world_ok_new [OF w f new [OF p], of None 0 "apMemStore w" mx] run p
        by (auto simp: memdbOpen_def Let_def)
    qed
  qed
qed


lemma world_ok_close:
  assumes w: "world_ok w" and f: "mfiles w f = Some fl" "eLock fl = SQLITE_LOCK_NONE"
    and run: "memdbClose w f = Some (rc, w')"
  shows "world_ok w'"
proof -
  let ?s = "pStore fl"
  obtain p where p: "stores w ?s = Some p"
    using w f(1) unfolding world_ok_def by blast
  have inv: "store_inv w ?s p" using w p by (simp add: world_ok_def)
  have n: "names_ok w" and fin: "finite (dom (mfiles w))" using w by (simp_all add: world_ok_def)
  define last where "last \<longleftrightarrow> nRef p \<le> 1"
  have tab: "distinct (apMemStore w') \<and> set (apMemStore w') = set (apMemStore w) - (if last then {?s} else {})"
  proof (cases "zFName p")
    case None
    then have "?s \<notin> set (apMemStore w)" "apMemStore w' = apMemStore w"
      using inv run f p by (auto simp: store_inv_def memdbClose_def Let_def)
    then show ?thesis using n by (simp add: names_ok_def)
  next
    case (Some z)
    then have s: "?s \<in> set (apMemStore w)" "0 < nRef p"
      using inv by (auto simp: store_inv_def)
    then obtain i where i: "memdb_index (apMemStore w) ?s = Some i"
      using memdb_index_None by (cases "memdb_index (apMemStore w) ?s") auto
    then have "apMemStore w' = (if last then memdb_table_drop (apMemStore w) i else apMemStore w)"
      using run f p Some s by (auto simp: memdbClose_def last_def Let_def)
    then show ?thesis
      using memdb_table_drop_ok [of "apMemStore w" i] memdb_index_Some [OF i] n
      by (simp add: names_ok_def)
  qed
  have m: "mfiles w' = (mfiles w)(f := None)"
    and st: "stores w' = (stores w)(?s := (if last then None else Some (p\<lparr>nRef := nRef p - 1\<rparr>)))"
    using run f p by (auto simp: memdbClose_def last_def Let_def)
  have mem: "f \<in> holders w t n \<longleftrightarrow> t = ?s \<and> n = 0" for t n
    using f by (auto simp: holders_def lock_levels)
  have h: "holders w' t n = (if t = ?s \<and> n = 0 then holders w t n - {f} else holders w t n)" for t n
    unfolding holders_drop [OF m] using mem [of t n] by auto
  have "stores w' (pStore gl) \<noteq> None" if "mfiles w' g = Some gl" for g gl
  proof -
    have g: "mfiles w g = Some gl" "g \<noteq> f" using that m by (auto split: if_splits)
    have "\<not> last" if "pStore gl = ?s"
    proof -
      have "{f, g} \<subseteq> holders w ?s 0" using f g that by (auto simp: holders_def)
      then have "card {f, g} \<le> card (holders w ?s 0)"
        by (rule card_mono [OF finite_holders [OF fin]])
      then show ?thesis
        using inv g(2) by (auto simp: store_inv_def last_def split: option.splits)
    qed
    then show ?thesis
      using w g(1) by (auto simp: st world_ok_def)
  qed
  moreover have "store_inv w' t q" if "stores w' t = Some q" for t q
  proof (cases "t = ?s")
    case True
    then have l: "\<not> last" "q = p\<lparr>nRef := nRef p - 1\<rparr>"
      using that by (auto simp: st split: if_splits)
    moreover have "card (holders w ?s 0 - {f}) = card (holders w ?s 0) - 1"
      using mem by (simp add: card_Diff_singleton)
    ultimately show ?thesis
      using inv tab True unfolding store_inv_def h
      by (auto simp: store_ok_def counts_ok_def last_def split: option.splits)
  next
    case False
    then have "store_inv w t q" using that w by (simp add: st world_ok_def)
    then show ?thesis
      unfolding store_inv_def h using False tab by (auto split: option.splits)
  qed
  moreover have "names_ok w'"
  proof -
    have "map_option zFName (stores w' t) = map_option zFName (stores w t)" if "t \<in> set (apMemStore w')" for t
      using that tab p by (auto simp: st)
    then have "inj_on (\<lambda>s. map_option zFName (stores w' s)) (set (apMemStore w'))"
      using n tab by (auto simp: names_ok_def inj_on_def)
    then show ?thesis
      using n tab p by (auto simp: names_ok_def st split: if_splits)
  qed
  ultimately show ?thesis
    using w m by (auto simp: world_ok_def split: if_splits)
qed


subsection \<open>Every interleaving of method calls\<close>

text \<open>One method call by one connection. The guards on locks are the conditions that \<open>memdbLock\<close> and
  \<open>memdbUnlock\<close> assert: an upgrade past \<open>SHARED\<close> starts from \<open>SHARED\<close>, and an unlock goes to \<open>SHARED\<close> or \<open>NONE\<close>.
  The others are no assertions of these methods: the pager releases its lock before it closes a
  handle, no write or fetch overflows a 64-bit sum, and the allocator returns memory that is not in use.\<close>

inductive memdb_step :: "nat \<Rightarrow> MemWorld \<Rightarrow> MemWorld \<Rightarrow> bool" for mx where
  Open: "\<lbrakk>mfiles w f = None; \<And>p. new = Some p \<Longrightarrow> stores w p = None;
    memdbOpen mx new t m w z f = (rc, w')\<rbrakk> \<Longrightarrow> memdb_step mx w w'"
| Close: "\<lbrakk>mfiles w f = Some fl; eLock fl = SQLITE_LOCK_NONE; memdbClose w f = Some (rc, w')\<rbrakk> \<Longrightarrow>
    memdb_step mx w w'"
| Lock: "\<lbrakk>mfiles w f = Some fl; lock_request_ok lk fl;
    on_file w f (\<lambda>fl p. memdbLock fl p lk) = Some (rc, w')\<rbrakk> \<Longrightarrow> memdb_step mx w w'"
| Unlock: "\<lbrakk>lk \<le> SQLITE_LOCK_SHARED; on_file w f (\<lambda>fl p. memdbUnlock fl p lk) = Some (rc, w')\<rbrakk> \<Longrightarrow>
    memdb_step mx w w'"
| Write: "\<lbrakk>mfiles w f = Some fl; stores w (pStore fl) = Some p; memdbWrite mem k junk p z i \<noteq> None;
    on_file w f (\<lambda>fl p. let (rc, q) = (case memdbWrite mem k junk p z i of Some r \<Rightarrow> r
      | None \<Rightarrow> (SQLITE_ERROR, p)) in (rc, fl, q)) = Some (rc, w')\<rbrakk> \<Longrightarrow> memdb_step mx w w'"
| Truncate: "on_file w f (\<lambda>fl p. let (rc, q) = memdbTruncate p n in (rc, fl, q)) = Some (rc, w') \<Longrightarrow>
    memdb_step mx w w'"
| Control: "on_file w f (\<lambda>fl p. let (rc, q) = (let (rc, _, q) = memdbFileControl p op lim in (rc, q))
      in (rc, fl, q)) = Some (rc, w') \<Longrightarrow> memdb_step mx w w'"
| Fetch: "\<lbrakk>mfiles w f = Some fl; stores w (pStore fl) = Some p; memdbFetch p i n \<noteq> None;
    on_file w f (\<lambda>fl p. let (rc, q) = (case memdbFetch p i n of Some (rc, _, q) \<Rightarrow> (rc, q)
      | None \<Rightarrow> (SQLITE_ERROR, p)) in (rc, fl, q)) = Some (rc, w')\<rbrakk> \<Longrightarrow> memdb_step mx w w'"
| Unfetch: "on_file w f (\<lambda>fl p. let (rc, q) = memdbUnfetch p in (rc, fl, q)) = Some (rc, w') \<Longrightarrow>
    memdb_step mx w w'"

definition memdb_init :: MemWorld where
  "memdb_init = \<lparr>stores = Map.empty, mfiles = Map.empty, apMemStore = []\<rparr>"

definition memdb_reachable :: "nat \<Rightarrow> MemWorld \<Rightarrow> bool" where
  "memdb_reachable mx w \<longleftrightarrow> (memdb_step mx)\<^sup>*\<^sup>* memdb_init w"

lemma world_ok_step: "memdb_step mx w w' \<Longrightarrow> world_ok w \<Longrightarrow> world_ok w'"
proof (induction rule: memdb_step.induct)
  case (Open w f new t m z rc w')
  then show ?case using world_ok_open by blast
next
  case (Close w f fl rc w')
  then show ?case using world_ok_close by blast
next
  case (Lock w f fl lk rc w')
  show ?case
    by (rule world_ok_lock [OF Lock.prems Lock.hyps(3)]) (use Lock.hyps in simp)
next
  case (Unlock lk w f rc w')
  then show ?case using world_ok_unlock by blast
qed (erule (1) world_ok_data [OF _ data_methods(1)] world_ok_data [OF _ data_methods(2)]
    world_ok_data [OF _ data_methods(3)] world_ok_data [OF _ data_methods(4)]
    world_ok_data [OF _ data_methods(5)])+

lemma world_ok_reachable: "memdb_reachable mx w \<Longrightarrow> world_ok w"
  unfolding memdb_reachable_def
proof (induction rule: rtranclp_induct)
  case base
  show ?case
    by (auto simp: memdb_init_def world_ok_def names_ok_def)
next
  case (step w w')
  then show ?case using world_ok_step by blast
qed

lemma holders_two:
  assumes "finite (dom (mfiles w))" and "mfiles w f = Some fl" and "mfiles w g = Some gl"
    and "pStore fl = s" and "pStore gl = s" and "f \<noteq> g" and "n \<le> eLock fl" and "n \<le> eLock gl"
  shows "2 \<le> card (holders w s n)"
proof -
  have "{f, g} \<subseteq> holders w s n" using assms by (auto simp: holders_def)
  then have "card {f, g} \<le> card (holders w s n)"
    by (rule card_mono [OF finite_holders [OF assms(1)]])
  then show ?thesis using assms(6) by simp
qed

text \<open>C27: Mutual exclusion under every interleaving of opens, closes, locks, unlocks and data calls
  of any number of connections: at most one handle of a store holds more than \<open>SHARED\<close>, and while
  a handle holds \<open>EXCLUSIVE\<close> every other handle of that store is unlocked.\<close>

theorem memdb_exclusion:
  assumes "memdb_reachable mx w" and "mfiles w f = Some fl" and "mfiles w g = Some gl"
    and "pStore fl = pStore gl" and "f \<noteq> g" and "SQLITE_LOCK_SHARED < eLock fl"
  shows "eLock gl \<le> SQLITE_LOCK_SHARED
    \<and> (eLock fl = SQLITE_LOCK_EXCLUSIVE \<longrightarrow> eLock gl = SQLITE_LOCK_NONE)"
proof -
  have w: "world_ok w" by (rule world_ok_reachable [OF assms(1)])
  then have fin: "finite (dom (mfiles w))" by (simp add: world_ok_def)
  obtain p where "stores w (pStore fl) = Some p"
    using w assms(2) unfolding world_ok_def by blast
  then have c: "counts_ok (int (card (holders w (pStore fl) 1))) (int (card (holders w (pStore fl) 2)))
      (int (card (holders w (pStore fl) 4))) p"
    using w by (auto simp: world_ok_def store_inv_def)
  note two = holders_two [OF fin assms(2,3) refl assms(4) [symmetric] assms(5)]
  have "\<not> 2 \<le> eLock gl"
    using two [of 2] assms(6) c by (auto simp: counts_ok_def lock_levels)
  moreover have "\<not> 1 \<le> eLock gl" if "eLock fl = 4"
  proof
    assume g: "1 \<le> eLock gl"
    have "f \<in> holders w (pStore fl) 4" using assms(2) that by (simp add: holders_def)
    then have "0 < card (holders w (pStore fl) 4)"
      using finite_holders [OF fin] card_gt_0_iff by blast
    then show False
      using two [of 1] that g c by (auto simp: counts_ok_def)
  qed
  ultimately show ?thesis by (auto simp: lock_levels)
qed

text \<open>Two connections open the same shared database; the first takes a reserved lock.\<close>

definition demo_store :: "int \<Rightarrow> int \<Rightarrow> MemStore" where
  "demo_store r w = (memdb_new 100 (Some ''/a'') 2)\<lparr>nRdLock := r, nWrLock := w\<rparr>"

definition demo_world :: "nat \<Rightarrow> MemStore \<Rightarrow> MemWorld" where
  "demo_world lk p = \<lparr>stores = [7 \<mapsto> p],
     mfiles = [0 \<mapsto> \<lparr>pStore = 7, eLock = lk\<rparr>, 1 \<mapsto> \<lparr>pStore = 7, eLock = 0\<rparr>], apMemStore = [7]\<rparr>"

lemma demo_reachable: "memdb_reachable 100 (demo_world 2 (demo_store 1 1))"
proof -
  let ?w1 = "\<lparr>stores = [7 \<mapsto> memdb_new 100 (Some ''/a'') 1],
     mfiles = [0 \<mapsto> \<lparr>pStore = 7, eLock = 0\<rparr>], apMemStore = [7]\<rparr>"
  have s1: "memdb_step 100 memdb_init ?w1"
    by (rule memdb_step.Open [of _ 0 "Some 7" 100 True True "''/a''" SQLITE_OK])
      (auto simp: memdb_init_def memdbOpen_def memdb_shared_name_def)
  have s2: "memdb_step 100 ?w1 (demo_world 0 (demo_store 0 0))"
    by (rule memdb_step.Open [of _ 1 None 100 True True "''/a''" SQLITE_OK])
      (auto simp: memdbOpen_def memdb_shared_name_def memdb_new_def demo_world_def demo_store_def)
  have s3: "memdb_step 100 (demo_world 0 (demo_store 0 0)) (demo_world 1 (demo_store 1 0))"
    by (rule memdb_step.Lock [of _ 0 "\<lparr>pStore = 7, eLock = 0\<rparr>" 1 SQLITE_OK])
      (auto simp: demo_world_def demo_store_def memdb_new_def lock_request_ok_def lock_levels
        on_file_def memdbLock_def Let_def)
  have s4: "memdb_step 100 (demo_world 1 (demo_store 1 0)) (demo_world 2 (demo_store 1 1))"
    by (rule memdb_step.Lock [of _ 0 "\<lparr>pStore = 7, eLock = 1\<rparr>" 2 SQLITE_OK])
      (auto simp: demo_world_def demo_store_def memdb_new_def lock_request_ok_def lock_levels
        on_file_def memdbLock_def Let_def SQLITE_DESERIALIZE_READONLY_def
        SQLITE_DESERIALIZE_RESIZEABLE_def SQLITE_DESERIALIZE_FREEONCLOSE_def)
  show ?thesis
    unfolding memdb_reachable_def using s1 s2 s3 s4
    by (meson rtranclp.rtrancl_into_rtrancl rtranclp.rtrancl_refl)
qed

theorem memdb_exclusion_witness:
  "eLock (the (mfiles (demo_world 2 (demo_store 1 1)) 1)) \<le> SQLITE_LOCK_SHARED"
  using memdb_exclusion [OF demo_reachable, of 0 "\<lparr>pStore = 7, eLock = 2\<rparr>" 1 "\<lparr>pStore = 7, eLock = 0\<rparr>"]
  by (simp add: demo_world_def lock_levels)

text \<open>C28: No use after free and no double registration: in every reachable state each open handle
  points to a live store whose buffer holds the file, a shared store with an open handle is registered and its reference count is the number of its handles,
  and no two live stores have the same name.\<close>

theorem memdb_no_dangling:
  assumes "memdb_reachable mx w" and "mfiles w f = Some fl"
  shows "\<exists>p. stores w (pStore fl) = Some p \<and> store_ok p
    \<and> (zFName p \<noteq> None \<longrightarrow> pStore fl \<in> set (apMemStore w) \<and> nRef p = int (card (holders w (pStore fl) 0)))
    \<and> (\<forall>s q. stores w s = Some q \<and> zFName q = zFName p \<and> zFName p \<noteq> None \<longrightarrow> s = pStore fl)"
proof -
  have w: "world_ok w" by (rule world_ok_reachable [OF assms(1)])
  obtain p where p: "stores w (pStore fl) = Some p"
    using w assms(2) unfolding world_ok_def by blast
  have inv: "store_inv w s q" if "stores w s = Some q" for s q
    using w that by (simp add: world_ok_def)
  have uniq: "s = pStore fl" if "stores w s = Some q" "zFName q = zFName p" "zFName p \<noteq> None" for s q
  proof -
    have "s \<in> set (apMemStore w)" "pStore fl \<in> set (apMemStore w)"
      using inv [OF that(1)] inv [OF p] that(2,3) by (auto simp: store_inv_def)
    moreover have "map_option zFName (stores w s) = map_option zFName (stores w (pStore fl))"
      using that p by simp
    moreover have "inj_on (\<lambda>s. map_option zFName (stores w s)) (set (apMemStore w))"
      using w by (simp add: world_ok_def names_ok_def)
    ultimately show ?thesis by (simp add: inj_on_def)
  qed
  have "store_ok p"
    "zFName p \<noteq> None \<longrightarrow> pStore fl \<in> set (apMemStore w) \<and> nRef p = int (card (holders w (pStore fl) 0))"
    using inv [OF p] by (auto simp: store_inv_def)
  with p uniq show ?thesis by blast
qed

theorem memdb_no_dangling_witness:
  "\<exists>p. stores (demo_world 2 (demo_store 1 1)) 7 = Some p \<and> store_ok p
    \<and> (zFName p \<noteq> None \<longrightarrow> nRef p = int (card (holders (demo_world 2 (demo_store 1 1)) 7 0)))"
  using memdb_no_dangling [OF demo_reachable, of 1 "\<lparr>pStore = 7, eLock = 0\<rparr>"]
  by (auto simp: demo_world_def)

end
