(* ===== verification/Mem_Journal.thy ===== *)
theory Mem_Journal
  imports Byte_File
begin

text \<open>
  \<^verbatim>\<open>memjournal.c\<close>: the rollback journal kept in memory as a chain of equally sized chunks, with a
  cursor at its end and a cursor behind the last read, and spilled to a real file when it grows past
  \<open>nSpill\<close> bytes. The chain is owned by the journal, so it is a list, and a chunk pointer is an
  index into it (\<open>None\<close> the null pointer). The real file system is a parameter: its open and write
  methods. A result \<open>None\<close> stands for an access through a null or dangling chunk pointer or past the
  end of a chunk.
\<close>

subsection \<open>Data\<close>

record FilePoint =
  iOffset :: nat
  pChunk :: "nat option"

record MemJournal =
  nChunkSize :: nat
  nSpill :: int
  chunks :: "u8 list list"
  endpoint :: FilePoint
  readpoint :: FilePoint

text \<open>A journal handle: in memory, or turned into a handle of the real file.\<close>

datatype 'f journal = InMemory MemJournal | OnDisk 'f

definition pFirst :: "MemJournal \<Rightarrow> nat option" where
  "pFirst p = (if chunks p = [] then None else Some 0)"

subsection \<open>Reading\<close>

text \<open>The search for the chunk of an offset, from the head of the chain.\<close>

fun memjrnl_seek :: "nat \<Rightarrow> nat \<Rightarrow> u8 list list \<Rightarrow> nat \<Rightarrow> nat \<Rightarrow> nat option" where
  "memjrnl_seek n iOfst [] i iOff = None"
| "memjrnl_seek n iOfst (c # cs) i iOff =
     (if iOff + n \<le> iOfst then memjrnl_seek n iOfst cs (Suc i) (iOff + n) else Some i)"

text \<open>The copy loop over the chunks from the current one on; \<open>nRead\<close> may end below zero. The second
  result is \<^verbatim>\<open>pChunk\<close> at the end of the loop.\<close>

fun memjrnl_copy :: "nat \<Rightarrow> nat \<Rightarrow> u8 list list \<Rightarrow> nat \<Rightarrow> int \<Rightarrow> (u8 list \<times> nat option) option" where
  "memjrnl_copy n i [] iChunkOffset nRead = None"
| "memjrnl_copy n i (c # cs) iChunkOffset nRead = do {
     let iSpace = n - iChunkOffset;
     let nCopy = min nRead (int iSpace);
     z \<leftarrow> mem_get c iChunkOffset (nat nCopy);
     let nRead = nRead - int iSpace;
     if nRead \<ge> 0 then
       if cs = [] then Some (z, None)
       else if nRead > 0 then do {
         (zs, q) \<leftarrow> memjrnl_copy n (Suc i) cs 0 nRead;
         Some (z @ zs, q)
       } else Some (z, Some (Suc i))
     else Some (z, Some i)
   }"

definition memjrnlRead :: "MemJournal \<Rightarrow> nat \<Rightarrow> nat \<Rightarrow> (rc \<times> u8 list \<times> MemJournal) option" where
  "memjrnlRead p iAmt iOfst =
     (if iAmt + iOfst > iOffset (endpoint p) then Some (SQLITE_IOERR_SHORT_READ, [], p)
      else do {
        i \<leftarrow> (if iOffset (readpoint p) \<noteq> iOfst \<or> iOfst = 0
             then memjrnl_seek (nChunkSize p) iOfst (chunks p) 0 0
             else pChunk (readpoint p));
        (z, q) \<leftarrow> memjrnl_copy (nChunkSize p) i (drop i (chunks p)) (iOfst mod nChunkSize p) (int iAmt);
        Some (SQLITE_OK, z,
          p\<lparr>readpoint := \<lparr>iOffset = (if q \<noteq> None then iOfst + iAmt else 0), pChunk = q\<rparr>\<rparr>)
      })"

subsection \<open>Truncating and writing\<close>

fun memjrnl_trunc_seek :: "nat \<Rightarrow> nat \<Rightarrow> u8 list list \<Rightarrow> nat \<Rightarrow> nat \<Rightarrow> nat option" where
  "memjrnl_trunc_seek n size' [] i iOff = None"
| "memjrnl_trunc_seek n size' (c # cs) i iOff =
     (if iOff < size' then memjrnl_trunc_seek n size' cs (Suc i) (iOff + n) else Some i)"

definition memjrnlTruncate :: "MemJournal \<Rightarrow> nat \<Rightarrow> rc \<times> MemJournal" where
  "memjrnlTruncate p size' =
     (if size' < iOffset (endpoint p) then
        let (pIter, cs) =
          (if size' = 0 then (None, [])
           else case memjrnl_trunc_seek (nChunkSize p) size' (chunks p) 0 (nChunkSize p) of
                  None \<Rightarrow> (None, chunks p)
                | Some i \<Rightarrow> (Some i, take (Suc i) (chunks p)))
        in (SQLITE_OK, p\<lparr>chunks := cs, endpoint := \<lparr>iOffset = size', pChunk = pIter\<rparr>,
              readpoint := \<lparr>iOffset = 0, pChunk = None\<rparr>\<rparr>)
      else (SQLITE_OK, p))"

text \<open>The loop that appends at the end point; a fresh chunk has arbitrary content.\<close>

definition memjrnl_new_chunk :: "(nat \<Rightarrow> u8) \<Rightarrow> MemJournal \<Rightarrow> MemJournal" where
  "memjrnl_new_chunk junk p =
     (let new = map junk [0..<nChunkSize p];
          cs = (case pChunk (endpoint p) of None \<Rightarrow> [new] | Some i \<Rightarrow> take (Suc i) (chunks p) @ [new])
      in p\<lparr>chunks := cs, endpoint := (endpoint p)\<lparr>pChunk := Some (length cs - 1)\<rparr>\<rparr>)"

definition memjrnl_put :: "MemJournal \<Rightarrow> nat \<Rightarrow> u8 list \<Rightarrow> MemJournal option" where
  "memjrnl_put p iChunkOffset z = do {
     i \<leftarrow> pChunk (endpoint p);
     c \<leftarrow> (if i < length (chunks p) then Some (chunks p ! i) else None);
     c \<leftarrow> mem_put c iChunkOffset z;
     Some (p\<lparr>chunks := (chunks p)[i := c],
             endpoint := (endpoint p)\<lparr>iOffset := iOffset (endpoint p) + length z\<rparr>\<rparr>)
   }"

function memjrnl_append ::
  "(nat \<Rightarrow> bool) \<Rightarrow> nat \<Rightarrow> (nat \<Rightarrow> u8) \<Rightarrow> MemJournal \<Rightarrow> u8 list \<Rightarrow> (rc \<times> MemJournal) option"
where
  "memjrnl_append mem k junk p zWrite =
     (if zWrite = [] then Some (SQLITE_OK, p)
      else if nChunkSize p = 0 then None
      else
        let iChunkOffset = iOffset (endpoint p) mod nChunkSize p;
            iSpace = min (length zWrite) (nChunkSize p - iChunkOffset);
            k' = (if iChunkOffset = 0 then Suc k else k) in
        if iChunkOffset = 0 \<and> \<not> mem k then Some (SQLITE_IOERR_NOMEM, p)
        else do {
          p \<leftarrow> memjrnl_put (if iChunkOffset = 0 then memjrnl_new_chunk junk p else p) iChunkOffset
                (take iSpace zWrite);
          memjrnl_append mem k' junk p (drop iSpace zWrite)
        })"
  by pat_completeness auto
termination memjrnl_append
  by (relation "measure (\<lambda>(mem, k, junk, p, z). length z)") auto

declare memjrnl_append.simps [simp del]

text \<open>\<open>memjrnlCreateFile\<close> with the methods of the real file: \<open>osOpen\<close> is the outcome of
  \<^verbatim>\<open>sqlite3OsOpen\<close>, \<open>osWrite\<close> is \<^verbatim>\<open>sqlite3OsWrite\<close>.\<close>

fun memjrnl_flush ::
  "('f \<Rightarrow> u8 list \<Rightarrow> nat \<Rightarrow> rc \<times> 'f) \<Rightarrow> nat \<Rightarrow> u8 list list \<Rightarrow> nat \<Rightarrow> nat \<Rightarrow> 'f \<Rightarrow> (rc \<times> 'f) option"
where
  "memjrnl_flush osWrite off_end [] nChunk iOff f = Some (SQLITE_OK, f)"
| "memjrnl_flush osWrite off_end (c # cs) nChunk iOff f = do {
     let nChunk = (if iOff + nChunk > off_end then off_end - iOff else nChunk);
     z \<leftarrow> mem_get c 0 nChunk;
     let (rc, f) = osWrite f z iOff;
     if rc \<noteq> SQLITE_OK then Some (rc, f)
     else memjrnl_flush osWrite off_end cs nChunk (iOff + nChunk) f
   }"

definition memjrnlCreateFile ::
  "rc \<times> 'f \<Rightarrow> ('f \<Rightarrow> u8 list \<Rightarrow> nat \<Rightarrow> rc \<times> 'f) \<Rightarrow> MemJournal \<Rightarrow> (rc \<times> 'f journal) option"
where
  "memjrnlCreateFile osOpen osWrite p = do {
     (rc, f) \<leftarrow> (case osOpen of (rc, f) \<Rightarrow>
       if rc = SQLITE_OK
       then memjrnl_flush osWrite (iOffset (endpoint p)) (chunks p) (nChunkSize p) 0 f
       else Some (rc, f));
     Some (rc, if rc \<noteq> SQLITE_OK then InMemory p else OnDisk f)
   }"

definition memjrnlWrite ::
  "(nat \<Rightarrow> bool) \<Rightarrow> nat \<Rightarrow> (nat \<Rightarrow> u8) \<Rightarrow> rc \<times> 'f \<Rightarrow> ('f \<Rightarrow> u8 list \<Rightarrow> nat \<Rightarrow> rc \<times> 'f)
   \<Rightarrow> MemJournal \<Rightarrow> u8 list \<Rightarrow> nat \<Rightarrow> (rc \<times> 'f journal) option"
where
  "memjrnlWrite mem k junk osOpen osWrite p z iOfst =
     (if nSpill p > 0 \<and> int (length z + iOfst) > nSpill p then do {
        (rc, j) \<leftarrow> memjrnlCreateFile osOpen osWrite p;
        (case j of
           OnDisk f \<Rightarrow> (let (rc, f) = osWrite f z iOfst in Some (rc, OnDisk f))
         | InMemory p \<Rightarrow> Some (rc, InMemory p))
      }
      else
        let p = (if iOfst > 0 \<and> iOfst \<noteq> iOffset (endpoint p) then snd (memjrnlTruncate p iOfst) else p) in
        if iOfst = 0 \<and> pFirst p \<noteq> None then do {
          c \<leftarrow> mem_put (hd (chunks p)) 0 z;
          Some (SQLITE_OK, InMemory (p\<lparr>chunks := (chunks p)[0 := c]\<rparr>))
        }
        else do {
          (rc, p) \<leftarrow> memjrnl_append mem k junk p z;
          Some (rc, InMemory p)
        })"

definition memjrnlFileSize :: "MemJournal \<Rightarrow> rc \<times> nat" where
  "memjrnlFileSize p = (SQLITE_OK, iOffset (endpoint p))"

definition memjrnlSync :: "MemJournal \<Rightarrow> rc" where
  "memjrnlSync p = SQLITE_OK"

text \<open>The default chunk is sized so that a chunk with its link takes 1024 bytes.\<close>

definition MEMJOURNAL_DFLT_FILECHUNKSIZE :: nat where "MEMJOURNAL_DFLT_FILECHUNKSIZE = 1024"

definition sqlite3JournalOpen :: "rc \<times> 'f \<Rightarrow> int \<Rightarrow> rc \<times> 'f journal" where
  "sqlite3JournalOpen osOpen spill =
     (if spill = 0 then (fst osOpen, OnDisk (snd osOpen))
      else
        (SQLITE_OK, InMemory \<lparr>
          nChunkSize = (if spill > 0 then nat spill else 8 + MEMJOURNAL_DFLT_FILECHUNKSIZE - 16),
          nSpill = spill, chunks = [],
          endpoint = \<lparr>iOffset = 0, pChunk = None\<rparr>, readpoint = \<lparr>iOffset = 0, pChunk = None\<rparr>\<rparr>))"

definition sqlite3JournalIsInMemory :: "'f journal \<Rightarrow> bool" where
  "sqlite3JournalIsInMemory j \<longleftrightarrow> (case j of InMemory p \<Rightarrow> True | OnDisk f \<Rightarrow> False)"

subsection \<open>Chains of equal chunks\<close>

definition uniform :: "nat \<Rightarrow> 'b list list \<Rightarrow> bool" where
  "uniform n cs \<longleftrightarrow> (\<forall>c \<in> set cs. length c = n)"

lemma uniform_simps [simp]:
  "uniform n []" "uniform n (c # cs) \<longleftrightarrow> length c = n \<and> uniform n cs"
  "uniform n (cs @ ds) \<longleftrightarrow> uniform n cs \<and> uniform n ds"
  by (auto simp: uniform_def)

lemma uniform_take [simp]: "uniform n cs \<Longrightarrow> uniform n (take i cs)"
  by (auto simp: uniform_def dest: in_set_takeD)

lemma uniform_drop [simp]: "uniform n cs \<Longrightarrow> uniform n (drop i cs)"
  by (auto simp: uniform_def dest: in_set_dropD)

lemma length_concat_uniform: "uniform n cs \<Longrightarrow> length (concat cs) = length cs * n"
  by (induction cs) auto

lemma drop_concat_uniform: "uniform n cs \<Longrightarrow> drop (i * n) (concat cs) = concat (drop i cs)"
proof (induction i arbitrary: cs)
  case (Suc i)
  then show ?case by (cases cs) (simp_all add: add.commute)
qed simp

lemma take_concat_uniform: "uniform n cs \<Longrightarrow> take (i * n) (concat cs) = concat (take i cs)"
proof (induction i arbitrary: cs)
  case (Suc i)
  then show ?case by (cases cs) (simp_all add: add.commute)
qed simp

lemma drop_concat_div_mod:
  assumes "uniform n cs"
  shows "drop k (concat cs) = drop (k mod n) (concat (drop (k div n) cs))"
  unfolding drop_concat_uniform [OF assms, symmetric] drop_drop by simp

text \<open>The chain covers a size exactly: no chunk is missing and none is beyond the end.\<close>

definition covers :: "nat \<Rightarrow> nat \<Rightarrow> nat \<Rightarrow> bool" where
  "covers n m e \<longleftrightarrow> 0 < n \<and> e \<le> m * n \<and> m * n < e + n"

lemma covers_div: "covers n m e \<Longrightarrow> k < e \<Longrightarrow> k div n < m"
  by (auto simp: covers_def less_mult_imp_div_less)

lemma memjrnl_seek_ok:
  "\<lbrakk>0 < n; off \<le> k; k < off + length cs * n\<rbrakk> \<Longrightarrow>
   memjrnl_seek n k cs i off = Some (i + (k - off) div n)"
proof (induction cs arbitrary: i off)
  case (Cons c cs)
  show ?case
  proof (cases "off + n \<le> k")
    case True
    have "(k - off) div n = Suc ((k - (off + n)) div n)"
      using True Cons.prems(1) le_div_geq [of n "k - off"] by (simp add: diff_diff_add)
    then show ?thesis
      using Cons.IH [of "off + n" "Suc i"] Cons.prems True by (simp add: algebra_simps)
  next
    case False
    then show ?thesis using Cons.prems by simp
  qed
qed simp

lemma memjrnl_copy_ok:
  "\<lbrakk>uniform n cs; co < n; 0 < m; co + m \<le> length cs * n\<rbrakk> \<Longrightarrow>
   memjrnl_copy n i cs co (int m) =
     Some (take m (drop co (concat cs)),
       if (co + m) div n < length cs then Some (i + (co + m) div n) else None)"
proof (induction cs arbitrary: i co m)
  case (Cons c cs)
  consider (inside) "co + m < n" | (edge) "co + m = n" | (beyond) "n < co + m" by linarith
  then show ?case
  proof cases
    case inside
    then show ?thesis using Cons.prems by (auto simp: mem_get_def Let_def)
  next
    case edge
    then show ?thesis using Cons.prems by (auto simp: mem_get_def Let_def)
  next
    case beyond
    define m' where "m' = co + m - n"
    have m': "0 < m'" "int m - (int n - int co) = int m'" "co + m = n + m'" "n - co \<le> m"
      using beyond Cons.prems(2) unfolding m'_def by linarith+
    have "m' \<le> length cs * n" using Cons.prems(4) m'(3) by simp
    then have cs: "cs \<noteq> []" "m' \<le> length cs * n" using m'(1) by auto
    have "memjrnl_copy n (Suc i) cs 0 (int m') =
      Some (take m' (concat cs), if m' div n < length cs then Some (Suc i + m' div n) else None)"
      using Cons.IH [of 0 m' "Suc i"] Cons.prems m' cs by simp
    moreover have "(n + m') div n = Suc (m' div n)" using Cons.prems(2) by (simp add: div_add_self1)
    moreover have "take m (drop co (c @ concat cs)) = drop co c @ take m' (concat cs)"
      using Cons.prems beyond by (simp add: m'_def algebra_simps)
    moreover have "nat (min (int m) (int (n - co))) = n - co"
      using beyond by auto
    ultimately show ?thesis
      using Cons.prems m' cs by (simp add: mem_get_def Let_def m'(2))
  qed
qed simp

subsection \<open>The journal as a byte sequence\<close>

definition jr_ok :: "MemJournal \<Rightarrow> bool" where
  "jr_ok p \<longleftrightarrow> uniform (nChunkSize p) (chunks p)
     \<and> covers (nChunkSize p) (length (chunks p)) (iOffset (endpoint p))
     \<and> pChunk (endpoint p) = (if chunks p = [] then None else Some (length (chunks p) - 1))
     \<and> (iOffset (readpoint p) = 0 \<or>
        pChunk (readpoint p) = Some (iOffset (readpoint p) div nChunkSize p)
        \<and> iOffset (readpoint p) div nChunkSize p < length (chunks p))"

definition jr_content :: "MemJournal \<Rightarrow> u8 list" where
  "jr_content p = take (iOffset (endpoint p)) (concat (chunks p))"

lemma length_jr_content: "jr_ok p \<Longrightarrow> length (jr_content p) = iOffset (endpoint p)"
  by (auto simp: jr_ok_def jr_content_def covers_def length_concat_uniform)

lemma memjrnl_read_ok:
  assumes p: "jr_ok p" and m: "0 < m" "i + m \<le> iOffset (endpoint p)"
  shows "\<exists>q. memjrnlRead p m i = Some (SQLITE_OK, take m (drop i (jr_content p)), q)
    \<and> jr_ok q \<and> jr_content q = jr_content p"
proof -
  let ?n = "nChunkSize p" and ?cs = "chunks p"
  have u: "uniform ?n ?cs" and n: "0 < ?n" and e: "i + m \<le> length ?cs * ?n"
    using p m by (auto simp: jr_ok_def covers_def)
  have k: "i div ?n < length ?cs"
    using p m covers_div [of ?n "length ?cs" _ i] by (auto simp: jr_ok_def)
  have start: "(if iOffset (readpoint p) \<noteq> i \<or> i = 0 then memjrnl_seek ?n i ?cs 0 0
      else pChunk (readpoint p)) = Some (i div ?n)"
    using memjrnl_seek_ok [OF n, of 0 i ?cs 0] p e m by (auto simp: jr_ok_def)
  have "i div ?n * ?n + i mod ?n = i" by simp
  moreover have "length (drop (i div ?n) ?cs) * ?n = length ?cs * ?n - i div ?n * ?n"
    by (simp add: diff_mult_distrib)
  ultimately have room: "i mod ?n + m \<le> length (drop (i div ?n) ?cs) * ?n"
    using e by linarith
  have end_: "i div ?n + (i mod ?n + m) div ?n = (i + m) div ?n"
  proof -
    have "(i div ?n * ?n + (i mod ?n + m)) div ?n = i div ?n + (i mod ?n + m) div ?n"
      by (rule div_mult_self3) (use n in simp)
    then show ?thesis by (simp add: add.assoc [symmetric])
  qed
  have copy: "memjrnl_copy ?n (i div ?n) (drop (i div ?n) ?cs) (i mod ?n) (int m) =
    Some (take m (drop i (concat ?cs)),
      if (i + m) div ?n < length ?cs then Some ((i + m) div ?n) else None)"
    using memjrnl_copy_ok [of ?n "drop (i div ?n) ?cs" "i mod ?n" m "i div ?n"] u n m room
    unfolding drop_concat_div_mod [OF u, of i] end_ [symmetric] by (auto simp: less_diff_conv)
  have "take m (drop i (concat ?cs)) = take m (drop i (jr_content p))"
    using m by (simp add: jr_content_def drop_take min_def)
  then show ?thesis
    using start copy p m by (auto simp: memjrnlRead_def jr_ok_def jr_content_def)
qed

subsection \<open>Appending\<close>

definition read_ok :: "MemJournal \<Rightarrow> bool" where
  "read_ok p \<longleftrightarrow> iOffset (readpoint p) = 0 \<or>
     pChunk (readpoint p) = Some (iOffset (readpoint p) div nChunkSize p)
     \<and> iOffset (readpoint p) div nChunkSize p < length (chunks p)"

lemma jr_ok_read: "jr_ok p \<Longrightarrow> read_ok p"
  by (simp add: jr_ok_def read_ok_def)

lemma memjrnl_put_ok:
  assumes cs: "chunks p = ds @ [c]" "uniform (nChunkSize p) (ds @ [c])"
    and e: "endpoint p = \<lparr>iOffset = length ds * nChunkSize p + co, pChunk = Some (length ds)\<rparr>"
    and z: "z \<noteq> []" "co + length z \<le> nChunkSize p" and r: "read_ok p"
  shows "\<exists>q. memjrnl_put p co z = Some q \<and> jr_ok q \<and> jr_content q = concat ds @ take co c @ z
    \<and> nChunkSize q = nChunkSize p \<and> nSpill q = nSpill p"
proof -
  let ?c = "take co c @ z @ drop (co + length z) c"
  let ?q = "p\<lparr>chunks := ds @ [?c], endpoint := \<lparr>iOffset = length ds * nChunkSize p + co + length z,
    pChunk = Some (length ds)\<rparr>\<rparr>"
  have lc: "length c = nChunkSize p" and u: "uniform (nChunkSize p) ds" using cs by simp_all
  have run: "memjrnl_put p co z = Some ?q"
    using cs(1) e z(2) lc by (simp add: memjrnl_put_def mem_put_def)
  have "jr_ok ?q"
    using u lc z r by (auto simp: jr_ok_def covers_def read_ok_def cs(1) neq_Nil_conv)
  moreover have "jr_content ?q = concat ds @ take co c @ z"
    using length_concat_uniform [OF u] lc z(2) by (simp add: jr_content_def)
  ultimately show ?thesis using run by simp
qed

lemma covers_Suc:
  assumes "covers n m e" and "e mod n \<noteq> 0"
  obtains m' where "m = Suc m'" and "e = m' * n + e mod n"
proof -
  have n: "0 < n" "e \<le> m * n" "m * n < e + n" using assms by (auto simp: covers_def)
  have "e div n < m"
    using assms n(1,2) by (metis div_less_iff_less_mult le_neq_implies_less mod_mult_self2_is_0)
  moreover have "m * n < Suc (Suc (e div n)) * n"
  proof -
    have "e < Suc (e div n) * n" using n(1) by (metis dividend_less_div_times mult_Suc add.commute)
    then show ?thesis using n(3) by simp
  qed
  then have "m < Suc (Suc (e div n))" using n(1) by (metis mult_less_cancel2)
  ultimately have "m = Suc (e div n)" by simp
  then show ?thesis using that [of "e div n"] by simp
qed

lemma covers_exact:
  assumes "covers n m e" and "e mod n = 0"
  shows "e = m * n"
proof -
  obtain k where k: "e = k * n" using assms(2) by (metis mult.commute mod_0_imp_dvd dvdE)
  then have "k * n \<le> m * n" "m * n < Suc k * n" "0 < n"
    using assms(1) by (auto simp: covers_def)
  then have "k \<le> m" "m < Suc k" by (metis mult_le_cancel2 not_le, metis mult_less_cancel2)
  then show ?thesis using k by simp
qed

lemma memjrnl_chunk_ok:
  assumes p: "jr_ok p" and z: "z \<noteq> []"
    and len: "iOffset (endpoint p) mod nChunkSize p + length z \<le> nChunkSize p"
  defines "co \<equiv> iOffset (endpoint p) mod nChunkSize p"
  shows "\<exists>q. memjrnl_put (if co = 0 then memjrnl_new_chunk junk p else p) co z = Some q \<and> jr_ok q
    \<and> jr_content q = jr_content p @ z \<and> nChunkSize q = nChunkSize p \<and> nSpill q = nSpill p"
proof (cases "co = 0")
  case True
  let ?new = "map junk [0..<nChunkSize p]"
  let ?q = "memjrnl_new_chunk junk p"
  have c: "covers (nChunkSize p) (length (chunks p)) (iOffset (endpoint p))" "uniform (nChunkSize p) (chunks p)"
    using p by (simp_all add: jr_ok_def)
  have e: "iOffset (endpoint p) = length (chunks p) * nChunkSize p"
    using covers_exact [OF c(1)] True by (simp add: co_def)
  have q: "chunks ?q = chunks p @ [?new]" "nChunkSize ?q = nChunkSize p" "nSpill ?q = nSpill p"
    "endpoint ?q = \<lparr>iOffset = length (chunks p) * nChunkSize p, pChunk = Some (length (chunks p))\<rparr>"
    "readpoint ?q = readpoint p"
    using p e by (auto simp: memjrnl_new_chunk_def jr_ok_def Let_def)
  have "read_ok ?q"
    using jr_ok_read [OF p] by (auto simp: read_ok_def q)
  moreover have "jr_content p = concat (chunks p)"
    using length_concat_uniform [OF c(2)] by (simp add: jr_content_def e)
  ultimately show ?thesis
    using memjrnl_put_ok [of ?q "chunks p" ?new 0 z] q c(2) z len True by (simp add: co_def)
next
  case False
  have c: "covers (nChunkSize p) (length (chunks p)) (iOffset (endpoint p))" "uniform (nChunkSize p) (chunks p)"
    using p by (simp_all add: jr_ok_def)
  obtain m where m: "length (chunks p) = Suc m" "iOffset (endpoint p) = m * nChunkSize p + co"
    using covers_Suc [OF c(1)] False by (auto simp: co_def)
  obtain ds d where ds: "chunks p = ds @ [d]" "length ds = m"
    using m(1) by (metis length_Suc_conv_rev)
  have "endpoint p = \<lparr>iOffset = length ds * nChunkSize p + co, pChunk = Some (length ds)\<rparr>"
    using p m ds by (cases "endpoint p") (auto simp: jr_ok_def)
  moreover have "jr_content p = concat ds @ take co d"
    using length_concat_uniform [of "nChunkSize p" ds] c(2) by (simp add: jr_content_def m ds)
  ultimately show ?thesis
    using memjrnl_put_ok [of p ds d co z] ds c(2) z len False jr_ok_read [OF p] by (simp add: co_def)
qed

lemma memjrnl_append_ok:
  "jr_ok p \<Longrightarrow> \<exists>rc q. memjrnl_append mem k junk p z = Some (rc, q) \<and> jr_ok q \<and> nSpill q = nSpill p
     \<and> (\<exists>m. jr_content q = jr_content p @ take m z \<and> (rc = SQLITE_OK \<longrightarrow> m = length z))
     \<and> (all_ok mem \<longrightarrow> rc = SQLITE_OK)"
proof (induction mem k junk p z rule: memjrnl_append.induct)
  case (1 mem k junk p z)
  let ?co = "iOffset (endpoint p) mod nChunkSize p"
  let ?sp = "min (length z) (nChunkSize p - ?co)"
  have n: "nChunkSize p \<noteq> 0" using "1.prems" by (simp add: jr_ok_def covers_def)
  show ?case
  proof (cases "z = [] \<or> ?co = 0 \<and> \<not> mem k")
    case True
    then show ?thesis
      using "1.prems" n
      by (auto simp: memjrnl_append.simps [of mem k junk p z] all_ok_def intro: exI [of _ 0])
  next
    case False
    have co: "?co < nChunkSize p" using n by simp
    then have "?co + ?sp \<le> nChunkSize p" by linarith
    then have "take ?sp z \<noteq> []" "?co + length (take ?sp z) \<le> nChunkSize p"
      using False co by (auto simp: min.absorb2)
    then obtain q where q: "memjrnl_put (if ?co = 0 then memjrnl_new_chunk junk p else p) ?co (take ?sp z) = Some q"
      "jr_ok q" "jr_content q = jr_content p @ take ?sp z" "nSpill q = nSpill p"
      using memjrnl_chunk_ok [OF "1.prems"] by blast
    have nz: "z \<noteq> []" and al: "\<not> (?co = 0 \<and> \<not> mem k)" using False by auto
    from "1.IH" [OF nz n refl refl refl al q(1,2)]
    obtain rc r m where r: "memjrnl_append mem (if ?co = 0 then Suc k else k) junk q (drop ?sp z) = Some (rc, r)"
      "jr_ok r" "nSpill r = nSpill q" "jr_content r = jr_content q @ take m (drop ?sp z)"
      "rc = SQLITE_OK \<longrightarrow> m = length (drop ?sp z)" "all_ok mem \<longrightarrow> rc = SQLITE_OK"
      by (elim exE conjE) metis
    have "memjrnl_append mem k junk p z = Some (rc, r)"
      using nz al n q(1) r(1) by (auto simp: memjrnl_append.simps [of mem k junk p z] Let_def)
    moreover have "jr_content r = jr_content p @ take (?sp + m) z"
      using r(4) q(3) by (simp add: take_add)
    ultimately show ?thesis
      using r q(4) by auto
  qed
qed


subsection \<open>Truncating\<close>

lemma memjrnl_trunc_seek_ok:
  "\<lbrakk>0 < n; off < size' + n; size' \<le> off + (length cs - 1) * n; cs \<noteq> []\<rbrakk> \<Longrightarrow>
   \<exists>j < length cs. memjrnl_trunc_seek n size' cs i off = Some (i + j)
     \<and> size' \<le> off + j * n \<and> off + j * n < size' + n"
proof (induction cs arbitrary: i off)
  case (Cons c cs)
  show ?case
  proof (cases "off < size'")
    case True
    then have cs: "cs \<noteq> []" using Cons.prems(3) by (cases cs) auto
    then have "size' \<le> off + n + (length cs - 1) * n"
      using Cons.prems(3) by (cases "length cs") auto
    then obtain j where "j < length cs" "memjrnl_trunc_seek n size' cs (Suc i) (off + n) = Some (Suc i + j)"
      "size' \<le> off + n + j * n" "off + n + j * n < size' + n"
      using Cons.IH [of "off + n" "Suc i"] Cons.prems(1) True cs by auto
    then show ?thesis using True by (intro exI [of _ "Suc j"]) simp
  next
    case False
    then show ?thesis using Cons.prems by (intro exI [of _ 0]) simp
  qed
qed simp

lemma memjrnl_truncate_ok:
  assumes p: "jr_ok p"
  shows "fst (memjrnlTruncate p size') = SQLITE_OK" and "jr_ok (snd (memjrnlTruncate p size'))"
    and "jr_content (snd (memjrnlTruncate p size')) = take size' (jr_content p)"
    and "nSpill (snd (memjrnlTruncate p size')) = nSpill p"
    and "iOffset (endpoint (snd (memjrnlTruncate p size'))) = min size' (iOffset (endpoint p))"
proof -
  let ?n = "nChunkSize p" and ?e = "iOffset (endpoint p)" and ?t = "snd (memjrnlTruncate p size')"
  have c: "covers ?n (length (chunks p)) ?e" and u: "uniform ?n (chunks p)"
    using p by (simp_all add: jr_ok_def)
  show "fst (memjrnlTruncate p size') = SQLITE_OK" "nSpill ?t = nSpill p"
    "iOffset (endpoint ?t) = min size' ?e"
    by (auto simp: memjrnlTruncate_def split: option.splits)
  have "jr_ok ?t \<and> jr_content ?t = take size' (jr_content p)"
  proof (cases "0 < size' \<and> size' < ?e")
    case True
    have n: "0 < ?n" using c by (simp add: covers_def)
    have cs: "chunks p \<noteq> []" using c True by (auto simp: covers_def)
    then have "length (chunks p) * ?n = ?n + (length (chunks p) - 1) * ?n"
      by (cases "length (chunks p)") auto
    then have "size' \<le> ?n + (length (chunks p) - 1) * ?n"
      using c True by (simp add: covers_def)
    then obtain j where j: "j < length (chunks p)" "memjrnl_trunc_seek ?n size' (chunks p) 0 ?n = Some j"
      "size' \<le> ?n + j * ?n" "?n + j * ?n < size' + ?n"
      using memjrnl_trunc_seek_ok [OF n, of ?n size' "chunks p" 0] cs True by auto
    have t: "?t = p\<lparr>chunks := take (Suc j) (chunks p), endpoint := \<lparr>iOffset = size', pChunk = Some j\<rparr>,
        readpoint := \<lparr>iOffset = 0, pChunk = None\<rparr>\<rparr>"
      using True j(2) by (simp add: memjrnlTruncate_def)
    have "take size' (concat (take (Suc j) (chunks p))) = take size' (concat (chunks p))"
      unfolding take_concat_uniform [OF u, symmetric] using j(3) by (simp add: min_def)
    moreover have "length (take (Suc j) (chunks p)) = Suc j" "take (Suc j) (chunks p) \<noteq> []"
      using j(1) cs by auto
    ultimately show ?thesis
      using u n j(3,4) True
      by (simp add: t jr_ok_def covers_def jr_content_def min_def del: length_take)
  next
    case False
    have "0 < ?n" using c by (simp add: covers_def)
    then show ?thesis
      using False p by (auto simp: memjrnlTruncate_def jr_ok_def covers_def jr_content_def)
  qed
  then show "jr_ok ?t" "jr_content ?t = take size' (jr_content p)" by simp_all
qed

subsection \<open>Writing\<close>

lemma jr_empty: "jr_ok p \<Longrightarrow> chunks p = [] \<longleftrightarrow> iOffset (endpoint p) = 0"
  by (auto simp: jr_ok_def covers_def)

lemma memjrnl_write_append:
  assumes p: "jr_ok p" "\<not> (nSpill p > 0 \<and> int (length z + i) > nSpill p)"
    and i: "i \<le> iOffset (endpoint p)" "i = 0 \<longrightarrow> iOffset (endpoint p) = 0"
  shows "\<exists>rc q. memjrnlWrite mem k junk osOpen osWrite p z i = Some (rc, InMemory q) \<and> jr_ok q
    \<and> nSpill q = nSpill p
    \<and> (\<exists>m. jr_content q = take i (jr_content p) @ take m z \<and> (rc = SQLITE_OK \<longrightarrow> m = length z))
    \<and> (all_ok mem \<longrightarrow> rc = SQLITE_OK)"
proof -
  define p' where "p' = (if i > 0 \<and> i \<noteq> iOffset (endpoint p) then snd (memjrnlTruncate p i) else p)"
  have p': "jr_ok p'" "nSpill p' = nSpill p" "jr_content p' = take i (jr_content p)"
    using memjrnl_truncate_ok [OF p(1), of i] p(1) i length_jr_content [OF p(1)]
    by (auto simp: p'_def)
  have "pFirst p' = None" if "i = 0"
    using that jr_empty [OF p(1)] i by (simp add: p'_def pFirst_def)
  then have run: "memjrnlWrite mem k junk osOpen osWrite p z i =
      do { (rc, q) \<leftarrow> memjrnl_append mem k junk p' z; Some (rc, InMemory q) }"
    using p(2) unfolding memjrnlWrite_def p'_def [symmetric] by auto
  from memjrnl_append_ok [OF p'(1), of mem k junk z] obtain rc q m where
    "memjrnl_append mem k junk p' z = Some (rc, q)" "jr_ok q" "nSpill q = nSpill p'"
    "jr_content q = jr_content p' @ take m z" "rc = SQLITE_OK \<longrightarrow> m = length z"
    "all_ok mem \<longrightarrow> rc = SQLITE_OK"
    by (elim exE conjE) metis
  then show ?thesis
    unfolding run p'(2,3) by auto
qed

lemma memjrnl_write_header:
  assumes p: "jr_ok p" "\<not> (nSpill p > 0 \<and> int (length z) > nSpill p)"
    and z: "length z \<le> iOffset (endpoint p)" "length z \<le> nChunkSize p" and e: "0 < iOffset (endpoint p)"
  shows "\<exists>q. memjrnlWrite mem k junk osOpen osWrite p z 0 = Some (SQLITE_OK, InMemory q) \<and> jr_ok q
    \<and> nSpill q = nSpill p \<and> jr_content q = z @ drop (length z) (jr_content p)"
proof -
  obtain c cs where cs: "chunks p = c # cs"
    using jr_empty [OF p(1)] e by (cases "chunks p") auto
  have c: "length c = nChunkSize p" using p(1) cs by (simp add: jr_ok_def)
  let ?q = "p\<lparr>chunks := (z @ drop (length z) c) # cs\<rparr>"
  have "memjrnlWrite mem k junk osOpen osWrite p z 0 = Some (SQLITE_OK, InMemory ?q)"
    using p(2) cs c z(2) by (auto simp: memjrnlWrite_def pFirst_def mem_put_def)
  moreover have "jr_ok ?q" using p(1) cs c z(2) by (simp add: jr_ok_def)
  moreover have "jr_content ?q = z @ drop (length z) (jr_content p)"
    using z c by (simp add: jr_content_def cs drop_take)
  ultimately show ?thesis by simp
qed

text \<open>C19: A write to the in-memory journal touches no byte outside its chunks and behaves as on a
  byte sequence: writing at offset zero over existing content replaces its head (the header rewrite
  of an atomic commit), every other write cuts the journal at the offset and appends; a failed
  allocation leaves a prefix of what was asked for, and without one the write succeeds.\<close>

theorem memjrnl_write:
  assumes "jr_ok p" and "\<not> (nSpill p > 0 \<and> int (length z + i) > nSpill p)"
    and "i \<le> iOffset (endpoint p)"
    and "i = 0 \<and> 0 < iOffset (endpoint p) \<longrightarrow>
      length z \<le> iOffset (endpoint p) \<and> length z \<le> nChunkSize p"
  shows "\<exists>rc q. memjrnlWrite mem k junk osOpen osWrite p z i = Some (rc, InMemory q) \<and> jr_ok q
    \<and> (if i = 0 \<and> 0 < iOffset (endpoint p)
       then rc = SQLITE_OK \<and> jr_content q = z @ drop (length z) (jr_content p)
       else (\<exists>m. jr_content q = take i (jr_content p) @ take m z \<and> (rc = SQLITE_OK \<longrightarrow> m = length z)))
    \<and> (all_ok mem \<longrightarrow> rc = SQLITE_OK)"
proof (cases "i = 0 \<and> 0 < iOffset (endpoint p)")
  case True
  then show ?thesis
    using memjrnl_write_header [OF assms(1), of z mem k junk osOpen osWrite] assms by auto
next
  case False
  then have "i = 0 \<longrightarrow> iOffset (endpoint p) = 0" by auto
  from memjrnl_write_append [OF assms(1-3) this, of mem k junk osOpen osWrite]
  show ?thesis unfolding if_not_P [OF False] by blast
qed

definition demo_journal :: MemJournal where
  "demo_journal = \<lparr>nChunkSize = 3, nSpill = -1, chunks = [[1, 2, 3], [4, 5, 0]],
     endpoint = \<lparr>iOffset = 5, pChunk = Some 1\<rparr>, readpoint = \<lparr>iOffset = 0, pChunk = None\<rparr>\<rparr>"

theorem memjrnl_write_witness:
  "\<exists>q. memjrnlWrite (\<lambda>_. True) 0 (\<lambda>_. 7) (0, ()) (\<lambda>f z i. (0, f)) demo_journal [8, 9, 10] 5
     = Some (SQLITE_OK, InMemory q) \<and> jr_content q = [1, 2, 3, 4, 5, 8, 9, 10]"
  using memjrnl_write [of demo_journal "[8, 9, 10]" 5 "\<lambda>_. True" 0 "\<lambda>_. 7" "(0, ())" "\<lambda>f z i. (0, f)"]
  by (auto simp: demo_journal_def jr_ok_def covers_def jr_content_def all_ok_def)

subsection \<open>Playback\<close>

definition memjrnl_write_fn ::
  "(nat \<Rightarrow> bool) \<Rightarrow> nat \<Rightarrow> (nat \<Rightarrow> u8) \<Rightarrow> MemJournal \<Rightarrow> u8 list \<Rightarrow> nat \<Rightarrow> (rc \<times> MemJournal) option"
where
  "memjrnl_write_fn mem k junk p z i =
     (case memjrnlWrite mem k junk (SQLITE_OK, ()) (\<lambda>f z i. (SQLITE_OK, f)) p z i of
        Some (rc, InMemory q) \<Rightarrow> Some (rc, q) | _ \<Rightarrow> None)"

interpretation memjrnl: byte_file "\<lambda>p. jr_ok p \<and> nSpill p \<le> 0" jr_content "\<lambda>_. True" memjrnlRead
  "memjrnl_write_fn mem k junk" for mem k junk
proof (unfold_locales, simp)
  fix p n i
  assume p: "jr_ok p \<and> nSpill p \<le> 0" "0 < n" "i + n \<le> length (jr_content p)"
  then obtain q where "memjrnlRead p n i = Some (SQLITE_OK, take n (drop i (jr_content p)), q)"
    "jr_ok q" "jr_content q = jr_content p"
    using memjrnl_read_ok [of p n i] by (auto simp: length_jr_content)
  moreover from this(1) have "nSpill q = nSpill p"
    by (auto simp: memjrnlRead_def split: if_splits bind_splits)
  ultimately show "\<exists>s'. memjrnlRead p n i = Some (SQLITE_OK, take n (drop i (jr_content p)), s')
      \<and> (jr_ok s' \<and> nSpill s' \<le> 0) \<and> jr_content s' = jr_content p"
    using p(1) by auto
next
  fix p and z :: "u8 list"
  assume p: "jr_ok p \<and> nSpill p \<le> 0" "z \<noteq> []"
  have "\<exists>rc q. memjrnlWrite mem k junk (SQLITE_OK, ()) (\<lambda>f z i. (SQLITE_OK, f)) p z
      (iOffset (endpoint p)) = Some (rc, InMemory q) \<and> jr_ok q \<and> nSpill q = nSpill p
    \<and> (\<exists>m. jr_content q = take (iOffset (endpoint p)) (jr_content p) @ take m z
        \<and> (rc = SQLITE_OK \<longrightarrow> m = length z)) \<and> (all_ok mem \<longrightarrow> rc = SQLITE_OK)"
    using p by (intro memjrnl_write_append) auto
  then show "\<exists>rc s'. memjrnl_write_fn mem k junk p z (length (jr_content p)) = Some (rc, s')
      \<and> (jr_ok s' \<and> nSpill s' \<le> 0) \<and> (rc = SQLITE_OK \<longrightarrow> jr_content s' = jr_content p @ z)"
    using p length_jr_content [of p] by (auto simp: memjrnl_write_fn_def)
qed


interpretation memjrnl_mem: reliable_byte_file "\<lambda>p. jr_ok p \<and> nSpill p \<le> 0" jr_content "\<lambda>_. True" memjrnlRead
  "memjrnl_write_fn (\<lambda>_. True) k junk" for k junk
proof
  fix p and z :: "u8 list"
  assume p: "jr_ok p \<and> nSpill p \<le> 0" "z \<noteq> []"
  have "\<exists>rc q. memjrnlWrite (\<lambda>_. True) k junk (SQLITE_OK, ()) (\<lambda>f z i. (SQLITE_OK, f)) p z
      (iOffset (endpoint p)) = Some (rc, InMemory q) \<and> jr_ok q \<and> nSpill q = nSpill p
    \<and> (\<exists>m. jr_content q = take (iOffset (endpoint p)) (jr_content p) @ take m z
        \<and> (rc = SQLITE_OK \<longrightarrow> m = length z)) \<and> (all_ok (\<lambda>_. True) \<longrightarrow> rc = SQLITE_OK)"
    using p by (intro memjrnl_write_append) auto
  then show "\<exists>s'. memjrnl_write_fn (\<lambda>_. True) k junk p z (length (jr_content p)) = Some (SQLITE_OK, s')"
    using p length_jr_content [of p] by (auto simp: memjrnl_write_fn_def all_ok_def)
qed

text \<open>C15: What a statement or rollback journal in memory holds is what is played back: after any run of
  successful record writes on a journal opened for memory only, reading the records in order returns
  them all, byte for byte, through the cached read position.\<close>

theorem journal_playback:
  assumes "sqlite3JournalOpen os (-1) = (SQLITE_OK, InMemory p)" and "[] \<notin> set rs"
    and "write_records (memjrnl_write_fn mem k junk) rs 0 p = Some (SQLITE_OK, q)"
  shows "\<exists>r. read_records memjrnlRead (map length rs) 0 q = Some (SQLITE_OK, rs, r)"
proof -
  have p: "jr_ok p \<and> nSpill p \<le> 0" "jr_content p = []"
    using assms(1)
    by (auto simp: sqlite3JournalOpen_def jr_ok_def covers_def jr_content_def MEMJOURNAL_DFLT_FILECHUNKSIZE_def)
  show ?thesis
    using memjrnl.write_then_read [OF p(1) assms(2)] assms(3) p(2) by simp
qed

theorem journal_playback_witness:
  "\<exists>p q r. sqlite3JournalOpen (0, ()) (-1) = (SQLITE_OK, InMemory p)
    \<and> write_records (memjrnl_write_fn (\<lambda>_. True) 0 (\<lambda>_. 7)) [[1, 2], [3]] 0 p = Some (SQLITE_OK, q)
    \<and> read_records memjrnlRead [2, 1] 0 q = Some (SQLITE_OK, [[1, 2], [3]], r)"
proof -
  obtain p where p: "sqlite3JournalOpen (0, ()) (-1) = (SQLITE_OK, InMemory p)"
    by (simp add: sqlite3JournalOpen_def)
  then have ok: "jr_ok p \<and> nSpill p \<le> 0" "jr_content p = []"
    by (auto simp: sqlite3JournalOpen_def jr_ok_def covers_def jr_content_def MEMJOURNAL_DFLT_FILECHUNKSIZE_def)
  obtain q where q: "write_records (memjrnl_write_fn (\<lambda>_. True) 0 (\<lambda>_. 7)) [[1, 2], [3]] 0 p = Some (SQLITE_OK, q)"
    using memjrnl_mem.write_records_total [OF ok(1), of "[[1, 2], [3]]" 0 "\<lambda>_. 7"] ok(2) by auto
  obtain r where "read_records memjrnlRead (map length [[1, 2], [3 :: u8]]) 0 q = Some (SQLITE_OK, [[1, 2], [3]], r)"
    using journal_playback [OF p _ q] by auto
  moreover have "map length [[1, 2], [3 :: u8]] = [2, 1]" by simp
  ultimately show ?thesis
    using p q by metis
qed

subsection \<open>Spilling to a real file\<close>

lemma memjrnl_flush_ok:
  fixes C :: "'f \<Rightarrow> u8 list"
  assumes law: "\<And>f z f'. osWrite f z (length (C f)) = (SQLITE_OK, f') \<Longrightarrow> C f' = C f @ z"
  shows "\<lbrakk>uniform n cs; covers n (length cs) (e - length (C f)); length (C f) \<le> e\<rbrakk> \<Longrightarrow>
    \<exists>rc f'. memjrnl_flush osWrite e cs n (length (C f)) f = Some (rc, f')
      \<and> (rc = SQLITE_OK \<longrightarrow> C f' = C f @ take (e - length (C f)) (concat cs))"
proof (induction cs arbitrary: f)
  case Nil
  then show ?case by simp
next
  case (Cons c cs)
  have n: "length c = n" "uniform n cs" "0 < n" using Cons.prems by (auto simp: covers_def)
  define nc where "nc = (if length (C f) + n > e then e - length (C f) else n)"
  obtain rc f1 where f1: "osWrite f (take nc c) (length (C f)) = (rc, f1)" by fastforce
  have nc: "nc \<le> n" by (auto simp: nc_def)
  have run: "memjrnl_flush osWrite e (c # cs) n (length (C f)) f =
    (if rc \<noteq> SQLITE_OK then Some (rc, f1) else memjrnl_flush osWrite e cs nc (length (C f) + nc) f1)"
    using nc n f1 by (simp add: nc_def [symmetric] mem_get_def)
  show ?case
  proof (cases "rc = SQLITE_OK")
    case False
    then show ?thesis using run by simp
  next
    case True
    then have c1: "C f1 = C f @ take nc c" using law f1 by blast
    show ?thesis
    proof (cases cs)
      case Nil
      then have "nc = e - length (C f)" using Cons.prems by (auto simp: nc_def covers_def)
      then show ?thesis using run True c1 Nil n nc by simp
    next
      case (Cons d ds)
      have "n < e - length (C f)"
        using Cons.prems(2) Cons n(3) by (auto simp: covers_def)
      then have nc: "nc = n" unfolding nc_def by auto
      have l1: "length (C f1) = length (C f) + n" using c1 nc n by simp
      have "covers n (length cs) (e - length (C f1))"
        using Cons.prems(2) \<open>n < e - length (C f)\<close> l1 by (auto simp: covers_def)
      then obtain rc' f' where "memjrnl_flush osWrite e cs n (length (C f1)) f1 = Some (rc', f')"
        "rc' = SQLITE_OK \<longrightarrow> C f' = C f1 @ take (e - length (C f1)) (concat cs)"
        using Cons.IH [OF n(2), of f1] l1 \<open>n < e - length (C f)\<close> by fastforce
      then show ?thesis
        using run True c1 nc l1 n(1) \<open>n < e - length (C f)\<close> by (simp add: take_add [symmetric] min_def)
    qed
  qed
qed


lemma memjrnl_flush_fine:
  assumes ok: "\<forall>f z i. fst (osWrite f z i) = SQLITE_OK"
  shows "memjrnl_flush osWrite e cs n off f = Some (rc, f') \<Longrightarrow> rc = SQLITE_OK"
proof (induction cs arbitrary: n off f)
  case (Cons c cs)
  define n' where "n' = (if off + n > e then e - off else n)"
  obtain z where z: "mem_get c 0 n' = Some z"
    using Cons.prems by (cases "mem_get c 0 n'") (auto simp: n'_def Let_def)
  obtain g where g: "osWrite f z off = (SQLITE_OK, g)" using ok by (metis prod.collapse)
  have "memjrnl_flush osWrite e cs n' (off + n') g = Some (rc, f')"
    using Cons.prems z g by (simp add: n'_def [symmetric])
  then show ?case by (rule Cons.IH)
qed simp

text \<open>C12: A journal that outgrows its memory limit moves to a real file without losing a byte, for any file
  system whose successful writes at the end of a file append. If the file cannot be created or the journal cannot be
  copied to it, the journal stays in memory exactly as it was and the error is reported. Otherwise the new bytes are
  written to a file that holds exactly the journal, the result of that write is returned, and after a success the
  file holds the journal followed by the new bytes. When nothing fails the file is used.\<close>

theorem journal_spill:
  fixes C :: "'f \<Rightarrow> u8 list"
  assumes law: "\<And>f z f'. osWrite f z (length (C f)) = (SQLITE_OK, f') \<Longrightarrow> C f' = C f @ z"
    and new: "C (snd osOpen) = []"
    and p: "jr_ok p" "0 < nSpill p" "nSpill p < int (length z + iOffset (endpoint p))"
  shows "\<exists>rc j. memjrnlWrite mem k junk osOpen osWrite p z (iOffset (endpoint p)) = Some (rc, j)
    \<and> (case j of
         InMemory q \<Rightarrow> rc \<noteq> SQLITE_OK \<and> q = p
       | OnDisk f \<Rightarrow> fst osOpen = SQLITE_OK
           \<and> (\<exists>f1. C f1 = jr_content p \<and> osWrite f1 z (length (jr_content p)) = (rc, f))
           \<and> (rc = SQLITE_OK \<longrightarrow> C f = jr_content p @ z))
    \<and> (fst osOpen \<noteq> SQLITE_OK \<longrightarrow> rc = fst osOpen)
    \<and> (fst osOpen = SQLITE_OK \<and> (\<forall>f z i. fst (osWrite f z i) = SQLITE_OK) \<longrightarrow> rc = SQLITE_OK)"
proof -
  let ?e = "iOffset (endpoint p)"
  have e: "length (jr_content p) = ?e" by (rule length_jr_content [OF p(1)])
  obtain rc0 f0 where open_: "osOpen = (rc0, f0)" by fastforce
  obtain rc1 f1 where f1: "memjrnl_flush osWrite ?e (chunks p) (nChunkSize p) 0 f0 = Some (rc1, f1)"
    "rc1 = SQLITE_OK \<longrightarrow> C f1 = jr_content p"
    using memjrnl_flush_ok [of osWrite C "nChunkSize p" "chunks p" ?e f0, OF law] p(1) new open_
    by (auto simp: jr_ok_def jr_content_def)
  obtain rc2 f2 where f2: "osWrite f1 z ?e = (rc2, f2)" by fastforce
  have run: "memjrnlWrite mem k junk osOpen osWrite p z ?e =
      Some (if rc0 \<noteq> SQLITE_OK then (rc0, InMemory p)
            else if rc1 \<noteq> SQLITE_OK then (rc1, InMemory p) else (rc2, OnDisk f2))"
    using p(2,3) f1(1) f2 by (auto simp: memjrnlWrite_def memjrnlCreateFile_def open_)
  have appended: "C f2 = jr_content p @ z" if "rc1 = SQLITE_OK" "rc2 = SQLITE_OK"
    using law [of f1 z f2] f1(2) f2 that e by simp
  have fine: "rc1 = SQLITE_OK" "rc2 = SQLITE_OK" if ok: "\<forall>f z i. fst (osWrite f z i) = SQLITE_OK"
    using memjrnl_flush_fine [OF ok f1(1)] ok [rule_format, of f1 z ?e] f2 by simp_all
  show ?thesis
    unfolding run unfolding open_ e using f1(2) f2 appended fine by auto
qed

theorem journal_spill_witness:
  "\<exists>j. memjrnlWrite (\<lambda>_. True) 0 (\<lambda>_. 7) (0, []) (\<lambda>f z i. (0, take i f @ z))
      (demo_journal\<lparr>nSpill := 6\<rparr>) [6, 7] 5 = Some (SQLITE_OK, j)
    \<and> (case j of InMemory q \<Rightarrow> False | OnDisk f \<Rightarrow> f = [1, 2, 3, 4, 5, 6, 7])"
  using journal_spill [of "\<lambda>f z i. (0, take i f @ z)" id "(0, [])" "demo_journal\<lparr>nSpill := 6\<rparr>"
      "[6, 7]" "\<lambda>_. True" 0 "\<lambda>_. 7"]
  by (auto simp: demo_journal_def jr_ok_def covers_def jr_content_def split: journal.splits)

end
