(* ===== verification/Row_Set.thy ===== *)
theory Row_Set
  imports Sqlite_Prelude "HOL-Library.Tree"
begin

text \<open>
  \<^verbatim>\<open>rowset.c\<close>: a set of rowids that is filled in batches. Insertion appends to a list; the first
  test of a new batch sorts the list and moves it into a forest of search trees, merging trees the way
  a binary counter carries; extraction sorts the list once and then pops it. Entries are owned by the
  row set, so an entry list is a list of rowids and a tree of entries is a binary tree. Rowids are
  64-bit signed integers that the code only compares; they are integers here. The pool of
  preallocated entries is the counter \<open>nFresh\<close> over the allocation oracle; an allocation is named by the number
  of its request, and \<open>pChunk\<close> lists the chunks the row set owns.
\<close>

subsection \<open>Data\<close>

definition ROWSET_ENTRY_PER_CHUNK :: nat where
  "ROWSET_ENTRY_PER_CHUNK = (1024 - 8) div 24"

text \<open>\<open>pLast\<close> holds the value of the entry the pointer refers to; an empty \<open>pLeft\<close> of a forest entry
  is \<open>Leaf\<close>.\<close>

record RowSet =
  pEntry :: "int list"
  pLast :: "int option"
  pForest :: "int tree list"
  nFresh :: nat
  rsSorted :: bool
  rsNext :: bool
  iBatch :: int
  pChunk :: "nat list"

text \<open>\<open>N\<close> is the usable size of the allocation; what is left behind the 56 bytes of the object
  serves as the first entries. The null pointer of a failed allocation is \<open>None\<close>.\<close>

definition sqlite3RowSetInit :: "(nat \<Rightarrow> bool) \<Rightarrow> nat \<Rightarrow> nat \<Rightarrow> RowSet option \<times> nat" where
  "sqlite3RowSetInit mem k N =
     (if mem k then
        Some \<lparr>pEntry = [], pLast = None, pForest = [], nFresh = unat (of_nat ((N - 56) div 24) :: u16),
          rsSorted = True, rsNext = False, iBatch = 0, pChunk = []\<rparr>
      else None, Suc k)"

text \<open>The chunks freed, in order, and the emptied row set.\<close>

definition sqlite3RowSetClear :: "RowSet \<Rightarrow> nat list \<times> RowSet" where
  "sqlite3RowSetClear p =
     (pChunk p, p\<lparr>pChunk := [], nFresh := 0, pEntry := [], pLast := None, pForest := [],
        rsSorted := True, rsNext := False\<rparr>)"

text \<open>\<open>pArg\<close> is the allocation of the object itself; the result lists what is freed.\<close>

definition sqlite3RowSetDelete :: "nat \<Rightarrow> RowSet \<Rightarrow> nat list" where
  "sqlite3RowSetDelete pArg p = fst (sqlite3RowSetClear p) @ [pArg]"

definition rowSetEntryAlloc :: "(nat \<Rightarrow> bool) \<Rightarrow> nat \<Rightarrow> RowSet \<Rightarrow> bool \<times> RowSet \<times> nat" where
  "rowSetEntryAlloc mem k p =
     (if nFresh p = 0 then
        if mem k then (True, p\<lparr>pChunk := k # pChunk p, nFresh := ROWSET_ENTRY_PER_CHUNK - 1\<rparr>, Suc k)
        else (False, p, Suc k)
      else (True, p\<lparr>nFresh := nFresh p - 1\<rparr>, k))"

definition sqlite3RowSetInsert :: "(nat \<Rightarrow> bool) \<Rightarrow> nat \<Rightarrow> RowSet \<Rightarrow> int \<Rightarrow> RowSet \<times> nat" where
  "sqlite3RowSetInsert mem k p rowid =
     (let (ok, p, k) = rowSetEntryAlloc mem k p in
      if \<not> ok then (p, k)
      else
        let p = (case pLast p of
                   Some v \<Rightarrow> (if rowid \<le> v then p\<lparr>rsSorted := False\<rparr> else p)\<lparr>pEntry := pEntry p @ [rowid]\<rparr>
                 | None \<Rightarrow> p\<lparr>pEntry := [rowid]\<rparr>)
        in (p\<lparr>pLast := Some rowid\<rparr>, k))"

subsection \<open>Sorting\<close>

fun rowSetEntryMerge :: "int list \<Rightarrow> int list \<Rightarrow> int list" where
  "rowSetEntryMerge [] pB = pB"
| "rowSetEntryMerge pA [] = pA"
| "rowSetEntryMerge (a # pA) (b # pB) =
     (if a \<le> b then
        if a < b then a # rowSetEntryMerge pA (b # pB) else rowSetEntryMerge pA (b # pB)
      else b # rowSetEntryMerge (a # pA) pB)"

text \<open>The buckets behind the current one; \<open>None\<close> when the loop runs past the array. A null bucket
  is the empty list.\<close>

fun rs_bucket_insert :: "int list list \<Rightarrow> int list \<Rightarrow> int list list option" where
  "rs_bucket_insert [] pIn = None"
| "rs_bucket_insert (b # bs) pIn =
     (if b = [] then Some (pIn # bs)
      else map_option (Cons []) (rs_bucket_insert bs (rowSetEntryMerge b pIn)))"

fun rs_fill :: "int list \<Rightarrow> int list list \<Rightarrow> int list list option" where
  "rs_fill [] aBucket = Some aBucket"
| "rs_fill (v # pIn) aBucket = do {
     aBucket \<leftarrow> rs_bucket_insert aBucket [v];
     rs_fill pIn aBucket
   }"

fun rs_collect :: "int list list \<Rightarrow> int list \<Rightarrow> int list" where
  "rs_collect [] pIn = pIn"
| "rs_collect (b # bs) pIn =
     (if b = [] then rs_collect bs pIn
      else rs_collect bs (if pIn \<noteq> [] then rowSetEntryMerge pIn b else b))"

definition rowSetEntrySort :: "int list \<Rightarrow> int list option" where
  "rowSetEntrySort pIn = do {
     aBucket \<leftarrow> rs_fill pIn (replicate 40 []);
     Some (rs_collect (tl aBucket) (hd aBucket))
   }"

subsection \<open>Trees\<close>

fun rowSetTreeToList :: "int tree \<Rightarrow> int list" where
  "rowSetTreeToList Leaf = []"
| "rowSetTreeToList (Node l v r) =
     (if l \<noteq> Leaf then rowSetTreeToList l @ [v] else [v]) @
     (if r \<noteq> Leaf then rowSetTreeToList r else [])"

fun rowSetNDeepTree :: "int list \<Rightarrow> nat \<Rightarrow> int tree \<times> int list" where
  "rowSetNDeepTree [] iDepth = (Leaf, [])"
| "rowSetNDeepTree (x # xs) iDepth =
     (if iDepth > 1 then
        let (pLeft, ppList) = rowSetNDeepTree (x # xs) (iDepth - 1) in
        case ppList of
          [] \<Rightarrow> (pLeft, [])
        | p # ppList \<Rightarrow>
            let (pRight, ppList) = rowSetNDeepTree ppList (iDepth - 1) in
            (Node pLeft p pRight, ppList)
      else (Node Leaf x Leaf, xs))"

declare rowSetNDeepTree.simps(2) [simp del]

lemma rowSetNDeepTree_inorder:
  "rowSetNDeepTree xs d = (t, ys) \<Longrightarrow> inorder t @ ys = xs"
proof (induction xs d arbitrary: t ys rule: rowSetNDeepTree.induct)
  case (2 x xs d)
  then show ?case
    by (auto simp: rowSetNDeepTree.simps(2) [of x xs d] split: if_splits prod.splits list.splits)
qed simp

lemma rowSetNDeepTree_rest: "length (snd (rowSetNDeepTree xs d)) \<le> length xs"
proof (cases "rowSetNDeepTree xs d")
  case (Pair t ys)
  then show ?thesis
    using rowSetNDeepTree_inorder [OF Pair] by auto
qed

function rs_grow :: "int tree \<Rightarrow> int list \<Rightarrow> nat \<Rightarrow> int tree" where
  "rs_grow p [] iDepth = p"
| "rs_grow p (x # pList) iDepth =
     (let (r, pList') = rowSetNDeepTree pList iDepth in rs_grow (Node p x r) pList' (iDepth + 1))"
  by pat_completeness auto
termination rs_grow
proof (relation "measure (\<lambda>(p, xs, d). length xs)")
  fix p :: "int tree" and x xs d y r ys
  assume "y = rowSetNDeepTree xs d" "(r, ys) = y"
  then have "ys = snd (rowSetNDeepTree xs d)" by (metis snd_conv)
  then show "((Node p x r, ys, d + 1), (p, x # xs, d)) \<in> measure (\<lambda>(p, xs, d). length xs)"
    using rowSetNDeepTree_rest [of xs d] by simp
qed simp

definition rowSetListToTree :: "int list \<Rightarrow> int tree" where
  "rowSetListToTree pList = rs_grow (Node Leaf (hd pList) Leaf) (tl pList) 1"

subsection \<open>Extraction and test\<close>

definition sqlite3RowSetNext :: "RowSet \<Rightarrow> (int option \<times> RowSet) option" where
  "sqlite3RowSetNext p = do {
     p \<leftarrow> (if \<not> rsNext p then do {
            e \<leftarrow> (if \<not> rsSorted p then rowSetEntrySort (pEntry p) else Some (pEntry p));
            Some (p\<lparr>pEntry := e, rsSorted := True, rsNext := True\<rparr>)
          } else Some p);
     (case pEntry p of
        [] \<Rightarrow> Some (None, p)
      | v # es \<Rightarrow>
          let p = p\<lparr>pEntry := es\<rparr> in
          Some (Some v, if es = [] then snd (sqlite3RowSetClear p) else p))
   }"

text \<open>The walk over the forest: the first free entry takes the tree, a used one is emptied into the
  list. The second result is the list still to be placed.\<close>

fun rs_place :: "int list \<Rightarrow> int tree list \<Rightarrow> int tree list \<times> int list option" where
  "rs_place p [] = ([], Some p)"
| "rs_place p (t # ts) =
     (if t = Leaf then (rowSetListToTree p # ts, None)
      else
        let (ts, q) = rs_place (rowSetEntryMerge (rowSetTreeToList t) p) ts
        in (Leaf # ts, q))"

fun rs_search :: "int tree \<Rightarrow> int \<Rightarrow> bool" where
  "rs_search Leaf iRowid = False"
| "rs_search (Node l v r) iRowid =
     (if v < iRowid then rs_search r iRowid
      else if v > iRowid then rs_search l iRowid
      else True)"

definition sqlite3RowSetTest ::
  "(nat \<Rightarrow> bool) \<Rightarrow> nat \<Rightarrow> RowSet \<Rightarrow> int \<Rightarrow> int \<Rightarrow> (bool \<times> RowSet \<times> nat) option"
where
  "sqlite3RowSetTest mem k p batch iRowid = do {
     (p, k) \<leftarrow>
       (if batch \<noteq> iBatch p then do {
          (p, k) \<leftarrow>
            (if pEntry p \<noteq> [] then do {
               e \<leftarrow> (if \<not> rsSorted p then rowSetEntrySort (pEntry p) else Some (pEntry p));
               let (ts, rest) = rs_place e (pForest p);
               let (p, k) =
                 (case rest of
                    None \<Rightarrow> (p\<lparr>pForest := ts\<rparr>, k)
                  | Some q \<Rightarrow>
                      let (ok, p, k) = rowSetEntryAlloc mem k p in
                      (if ok then p\<lparr>pForest := ts @ [rowSetListToTree q]\<rparr> else p\<lparr>pForest := ts\<rparr>, k));
               Some (p\<lparr>pEntry := [], pLast := None, rsSorted := True\<rparr>, k)
             } else Some (p, k));
          Some (p\<lparr>iBatch := batch\<rparr>, k)
        } else Some (p, k));
     Some (list_ex (\<lambda>t. rs_search t iRowid) (pForest p), p, k)
   }"

subsection \<open>Merging and sorting\<close>

abbreviation ascending :: "int list \<Rightarrow> bool" where
  "ascending \<equiv> sorted_wrt (<)"

lemma rowSetEntryMerge_Nil2 [simp]: "rowSetEntryMerge xs [] = xs"
  by (cases xs) simp_all

lemma set_rowSetEntryMerge [simp]: "set (rowSetEntryMerge xs ys) = set xs \<union> set ys"
  by (induction xs ys rule: rowSetEntryMerge.induct) auto

lemma ascending_rowSetEntryMerge:
  "ascending xs \<Longrightarrow> ascending ys \<Longrightarrow> ascending (rowSetEntryMerge xs ys)"
proof (induction xs ys rule: rowSetEntryMerge.induct)
  case (3 a xs b ys)
  then have "a < b \<Longrightarrow> \<forall>x \<in> set (b # ys). a < x" "b < a \<Longrightarrow> \<forall>x \<in> set (a # xs). b < x"
    by (auto intro: less_trans)
  with 3 show ?case by (auto split: if_splits)
qed auto

lemma rowSetEntryMerge_eq_Nil [simp]: "rowSetEntryMerge xs ys = [] \<longleftrightarrow> xs = [] \<and> ys = []"
  by (metis set_empty set_rowSetEntryMerge Un_empty)

text \<open>The buckets read as a binary number: bucket \<open>i\<close> in use is bit \<open>i\<close>. One insertion adds one, so
  the array overflows only after \<open>2 ^ 40 - 1\<close> insertions.\<close>

fun bucket_count :: "int list list \<Rightarrow> nat" where
  "bucket_count [] = 0"
| "bucket_count (b # bs) = of_bool (b \<noteq> []) + 2 * bucket_count bs"

definition buckets_ok :: "int list list \<Rightarrow> bool" where
  "buckets_ok bs \<longleftrightarrow> list_all ascending bs"

lemma bucket_insert_ok:
  "\<lbrakk>buckets_ok bs; ascending p; p \<noteq> []; Suc (bucket_count bs) < 2 ^ length bs\<rbrakk> \<Longrightarrow>
   \<exists>cs. rs_bucket_insert bs p = Some cs \<and> buckets_ok cs \<and> length cs = length bs
     \<and> bucket_count cs = Suc (bucket_count bs) \<and> \<Union> (set ` set cs) = set p \<union> \<Union> (set ` set bs)"
proof (induction bs arbitrary: p)
  case (Cons b bs)
  show ?case
  proof (cases "b = []")
    case True
    then show ?thesis using Cons.prems by (auto simp: buckets_ok_def)
  next
    case False
    have "Suc (bucket_count bs) < 2 ^ length bs" using Cons.prems(4) False by simp
    moreover have "buckets_ok bs" "ascending b" using Cons.prems(1) by (auto simp: buckets_ok_def)
    ultimately obtain cs where cs: "rs_bucket_insert bs (rowSetEntryMerge b p) = Some cs" "buckets_ok cs"
      "length cs = length bs" "bucket_count cs = Suc (bucket_count bs)"
      "\<Union> (set ` set cs) = set (rowSetEntryMerge b p) \<union> \<Union> (set ` set bs)"
      using Cons.IH [of "rowSetEntryMerge b p"] Cons.prems(2,3) ascending_rowSetEntryMerge by auto
    then show ?thesis
      using False by (auto simp: buckets_ok_def)
  qed
qed simp

lemma fill_ok:
  "\<lbrakk>buckets_ok bs; bucket_count bs + length xs < 2 ^ length bs\<rbrakk> \<Longrightarrow>
   \<exists>cs. rs_fill xs bs = Some cs \<and> buckets_ok cs \<and> length cs = length bs
     \<and> \<Union> (set ` set cs) = set xs \<union> \<Union> (set ` set bs)"
proof (induction xs arbitrary: bs)
  case (Cons x xs)
  obtain cs where cs: "rs_bucket_insert bs [x] = Some cs" "buckets_ok cs" "length cs = length bs"
    "bucket_count cs = Suc (bucket_count bs)" "\<Union> (set ` set cs) = {x} \<union> \<Union> (set ` set bs)"
    using bucket_insert_ok [OF Cons.prems(1), of "[x]"] Cons.prems(2) by auto
  then show ?case
    using Cons.IH [of cs] Cons.prems(2) by auto
qed simp

lemma collect_ok:
  "\<lbrakk>buckets_ok bs; ascending p\<rbrakk> \<Longrightarrow>
   ascending (rs_collect bs p) \<and> set (rs_collect bs p) = set p \<union> \<Union> (set ` set bs)"
proof (induction bs arbitrary: p)
  case (Cons b bs)
  have "ascending (if p \<noteq> [] then rowSetEntryMerge p b else b)"
    using Cons.prems ascending_rowSetEntryMerge by (auto simp: buckets_ok_def)
  then show ?case
    using Cons.IH [of "if p \<noteq> [] then rowSetEntryMerge p b else b"] Cons.IH [of p] Cons.prems
    by (auto simp: buckets_ok_def)
qed simp

lemma rowSetEntrySort_ok:
  assumes "length xs < 2 ^ 40"
  shows "rowSetEntrySort xs = Some (sorted_list_of_set (set xs))"
proof -
  have zero: "bucket_count (replicate n []) = 0" for n by (induction n) auto
  have "buckets_ok (replicate 40 [])" by (simp add: buckets_ok_def list_all_iff)
  then obtain cs where cs: "rs_fill xs (replicate 40 []) = Some cs" "buckets_ok cs"
    "length cs = 40" "\<Union> (set ` set cs) = set xs"
    using fill_ok [of "replicate 40 []" xs] assms zero by auto
  obtain b bs where b: "cs = b # bs" using cs(3) by (cases cs) auto
  have "ascending (rs_collect bs b) \<and> set (rs_collect bs b) = set xs"
    using collect_ok [of bs b] cs(2,4) by (auto simp: b buckets_ok_def)
  then have "rs_collect bs b = sorted_list_of_set (set xs)"
    by (metis sorted_list_of_set.idem_if_sorted_distinct strict_sorted_iff)
  then show ?thesis
    by (simp add: rowSetEntrySort_def cs(1) b)
qed

subsection \<open>Trees\<close>

lemma rowSetTreeToList_inorder: "rowSetTreeToList t = inorder t"
  by (induction t) auto

lemma rs_grow_inorder: "inorder (rs_grow p xs d) = inorder p @ xs"
proof (induction p xs d rule: rs_grow.induct)
  case (2 p x xs d)
  obtain r ys where r: "rowSetNDeepTree xs d = (r, ys)" by fastforce
  then show ?case
    using "2.IH" [OF r [symmetric] refl] rowSetNDeepTree_inorder [OF r] by simp
qed simp

lemma rowSetListToTree_inorder: "xs \<noteq> [] \<Longrightarrow> inorder (rowSetListToTree xs) = xs"
  by (simp add: rowSetListToTree_def rs_grow_inorder)

text \<open>A tree of depth \<open>d\<close> is either complete or has used up the list.\<close>

lemma rowSetNDeepTree_height:
  "rowSetNDeepTree xs d = (t, ys) \<Longrightarrow> 1 \<le> d \<Longrightarrow> height t \<le> d \<and> (ys = [] \<or> Suc (size t) = 2 ^ d)"
proof (induction xs d arbitrary: t ys rule: rowSetNDeepTree.induct)
  case (2 x xs d)
  show ?case
  proof (cases "d > 1")
    case False
    then show ?thesis using "2.prems" by (auto simp: rowSetNDeepTree.simps(2) [of x xs d])
  next
    case True
    obtain l zs where l: "rowSetNDeepTree (x # xs) (d - 1) = (l, zs)" by fastforce
    have lh: "height l \<le> d - 1 \<and> (zs = [] \<or> Suc (size l) = 2 ^ (d - 1))"
      using "2.IH"(1) [OF True l] True by simp
    show ?thesis
    proof (cases zs)
      case Nil
      then show ?thesis
        using "2.prems" True l lh by (auto simp: rowSetNDeepTree.simps(2) [of x xs d])
    next
      case (Cons y zs')
      obtain r ws where r: "rowSetNDeepTree zs' (d - 1) = (r, ws)" by fastforce
      have rh: "height r \<le> d - 1 \<and> (ws = [] \<or> Suc (size r) = 2 ^ (d - 1))"
        using "2.IH"(2) [OF True l [symmetric] refl Cons r] True by simp
      have t: "t = Node l y r" "ys = ws"
        using "2.prems"(1) True l r Cons by (auto simp: rowSetNDeepTree.simps(2) [of x xs d])
      have "(2::nat) ^ d = 2 * 2 ^ (d - 1)" using True by (cases d) auto
      then show ?thesis
        using lh rh True Cons by (auto simp: t)
    qed
  qed
qed simp

lemma rs_grow_height:
  "\<lbrakk>height p \<le> d; Suc (size p) = 2 ^ d \<or> xs = [] \<and> 2 ^ (d - 1) \<le> size p; 1 \<le> d\<rbrakk> \<Longrightarrow>
   2 ^ height (rs_grow p xs d) \<le> 2 * size (rs_grow p xs d)"
proof (induction p xs d rule: rs_grow.induct)
  case (1 p d)
  have "(2 :: nat) ^ height p \<le> 2 ^ d" using "1.prems"(1) by (simp add: power_increasing)
  moreover have "(2 :: nat) ^ d = 2 * 2 ^ (d - 1)" "(1 :: nat) \<le> 2 ^ (d - 1)"
    using "1.prems"(3) by (cases d; simp)+
  ultimately have "2 ^ height p \<le> 2 * size p"
    using "1.prems"(2) by (elim disjE conjE) linarith+
  then show ?case by simp
next
  case (2 p x xs d)
  obtain r ys where r: "rowSetNDeepTree xs d = (r, ys)" by fastforce
  have p: "Suc (size p) = 2 ^ d" "height p \<le> d" using "2.prems" by auto
  have h: "height r \<le> d" "ys = [] \<or> Suc (size r) = 2 ^ d"
    using rowSetNDeepTree_height [OF r "2.prems"(3)] by auto
  have "2 ^ height (rs_grow (Node p x r) ys (d + 1)) \<le> 2 * size (rs_grow (Node p x r) ys (d + 1))"
    using p h by (intro "2.IH" [OF r [symmetric] refl]) auto
  then show ?case by (simp add: r)
qed

lemma rowSetListToTree_height:
  assumes "xs \<noteq> []"
  shows "2 ^ height (rowSetListToTree xs) \<le> 2 * length xs"
proof -
  have "size (rowSetListToTree xs) = length xs"
    using rowSetListToTree_inorder [OF assms] by (metis length_inorder)
  then show ?thesis
    using rs_grow_height [of "Node Leaf (hd xs) Leaf" 1 "tl xs"] by (simp add: rowSetListToTree_def)
qed

lemma rs_search_bst: "bst t \<Longrightarrow> rs_search t x \<longleftrightarrow> x \<in> set_tree t"
  by (induction t) auto

subsection \<open>The invariant and the abstract state\<close>

definition tree_ok :: "int tree \<Rightarrow> bool" where
  "tree_ok t \<longleftrightarrow> bst t \<and> (t = Leaf \<or> 2 ^ height t \<le> 2 * size t)"

definition rowset_ok :: "RowSet \<Rightarrow> bool" where
  "rowset_ok p \<longleftrightarrow> pLast p = (if pEntry p = [] then None else Some (last (pEntry p)))
     \<and> (rsSorted p \<longrightarrow> ascending (pEntry p)) \<and> list_all tree_ok (pForest p)"

definition forest :: "int tree list \<Rightarrow> int set" where
  "forest ts = \<Union> (set_tree ` set ts)"

lemma forest_simps [simp]:
  "forest [] = {}" "forest (t # ts) = set_tree t \<union> forest ts" "forest (ts @ us) = forest ts \<union> forest us"
  by (auto simp: forest_def)

lemma list_tree_ok:
  assumes "ascending xs" and "xs \<noteq> []"
  shows "tree_ok (rowSetListToTree xs)" and "set_tree (rowSetListToTree xs) = set xs"
proof -
  let ?t = "rowSetListToTree xs"
  have i: "inorder ?t = xs" by (rule rowSetListToTree_inorder [OF assms(2)])
  then have "bst ?t" using assms(1) by (simp add: bst_iff_sorted_wrt_less)
  moreover have "size ?t = length xs" by (simp only: length_inorder [symmetric] i)
  ultimately show "tree_ok ?t"
    using rowSetListToTree_height [OF assms(2)] by (simp add: tree_ok_def)
  show "set_tree ?t = set xs" by (simp only: set_inorder [symmetric] i)
qed

lemma rs_place_ok:
  "\<lbrakk>ascending p; p \<noteq> []; list_all tree_ok ts; rs_place p ts = (us, q)\<rbrakk> \<Longrightarrow>
   list_all tree_ok us
   \<and> (case q of None \<Rightarrow> forest us = set p \<union> forest ts
      | Some xs \<Rightarrow> ascending xs \<and> xs \<noteq> [] \<and> set xs \<union> forest us = set p \<union> forest ts)"
proof (induction ts arbitrary: p us q)
  case (Cons t ts)
  show ?case
  proof (cases "t = Leaf")
    case True
    then have "us = rowSetListToTree p # ts" "q = None" using Cons.prems(4) by simp_all
    then show ?thesis
      using Cons.prems(3) list_tree_ok [OF Cons.prems(1,2)] True by simp
  next
    case False
    obtain vs r where r: "rs_place (rowSetEntryMerge (rowSetTreeToList t) p) ts = (vs, r)" by fastforce
    have "ascending (rowSetTreeToList t)" "set (rowSetTreeToList t) = set_tree t"
      using Cons.prems(3) by (simp_all add: tree_ok_def rowSetTreeToList_inorder bst_iff_sorted_wrt_less)
    then have m: "ascending (rowSetEntryMerge (rowSetTreeToList t) p)"
      "set (rowSetEntryMerge (rowSetTreeToList t) p) = set_tree t \<union> set p"
      using Cons.prems(1) ascending_rowSetEntryMerge by auto
    have IH: "list_all tree_ok vs
        \<and> (case r of None \<Rightarrow> forest vs = (set_tree t \<union> set p) \<union> forest ts
          | Some xs \<Rightarrow> ascending xs \<and> xs \<noteq> [] \<and> set xs \<union> forest vs = (set_tree t \<union> set p) \<union> forest ts)"
      using Cons.IH [OF m(1) _ _ r] Cons.prems(2,3) unfolding m(2) by simp
    moreover have "us = Leaf # vs" "q = r" "tree_ok Leaf"
      using Cons.prems(4) False r by (auto simp: tree_ok_def)
    ultimately show ?thesis
      by (auto split: option.splits)
  qed
qed simp

lemma entries_sorted:
  assumes "rowset_ok p" and "length (pEntry p) < 2 ^ 40"
  shows "(if \<not> rsSorted p then rowSetEntrySort (pEntry p) else Some (pEntry p))
    = Some (sorted_list_of_set (set (pEntry p)))"
proof (cases "rsSorted p")
  case True
  then have "ascending (pEntry p)" using assms(1) by (simp add: rowset_ok_def)
  then have "sorted_list_of_set (set (pEntry p)) = pEntry p"
    by (metis sorted_list_of_set.idem_if_sorted_distinct strict_sorted_iff)
  then show ?thesis using True by simp
qed (simp add: rowSetEntrySort_ok [OF assms(2)])

lemma ascending_snoc:
  assumes "ascending xs" and "xs \<noteq> [] \<Longrightarrow> last xs < v"
  shows "ascending (xs @ [v])"
proof (cases xs rule: rev_cases)
  case (snoc ys y)
  then show ?thesis using assms by (auto simp: sorted_wrt_append)
qed simp

text \<open>The allocations numbered from \<open>k\<close> on that succeeded before number \<open>k'\<close>, added to the chunks.\<close>

definition chunks_grow :: "(nat \<Rightarrow> bool) \<Rightarrow> nat \<Rightarrow> nat \<Rightarrow> RowSet \<Rightarrow> RowSet \<Rightarrow> bool" where
  "chunks_grow mem k k' p q \<longleftrightarrow> k \<le> k' \<and> pChunk q = rev (filter mem [k..<k']) @ pChunk p"

lemma chunks_grow_refl: "pChunk q = pChunk p \<Longrightarrow> chunks_grow mem k k p q"
  by (simp add: chunks_grow_def)

lemma chunks_grow_trans:
  assumes "chunks_grow mem k k1 p q" and "chunks_grow mem k1 k2 q r"
  shows "chunks_grow mem k k2 p r"
proof -
  have "[k..<k2] = [k..<k1] @ [k1..<k2]" using assms by (metis chunks_grow_def le_Suc_ex upt_add_eq_append)
  then show ?thesis using assms by (simp add: chunks_grow_def)
qed

lemma alloc_frame:
  "rowSetEntryAlloc mem k p = (ok, q, k') \<Longrightarrow>
     q = p\<lparr>nFresh := nFresh q, pChunk := pChunk q\<rparr> \<and> (\<not> ok \<longrightarrow> \<not> all_ok mem) \<and> chunks_grow mem k k' p q"
  by (auto simp: rowSetEntryAlloc_def all_ok_def chunks_grow_def split: if_splits)

lemma insert_run:
  assumes "rowset_ok p" and "sqlite3RowSetInsert mem k p v = (q, k')"
  shows "chunks_grow mem k k' p q
    \<and> (q = p\<lparr>nFresh := nFresh q, pChunk := pChunk q, pEntry := pEntry p @ [v], pLast := Some v,
          rsSorted := (rsSorted p \<and> (pEntry p = [] \<or> last (pEntry p) < v))\<rparr>
       \<or> q = p\<lparr>nFresh := nFresh q, pChunk := pChunk q\<rparr> \<and> \<not> all_ok mem)"
proof -
  obtain ok r k1 where a: "rowSetEntryAlloc mem k p = (ok, r, k1)"
    by (cases "rowSetEntryAlloc mem k p") auto
  then have r: "r = p\<lparr>nFresh := nFresh r, pChunk := pChunk r\<rparr>" "\<not> ok \<longrightarrow> \<not> all_ok mem" "chunks_grow mem k k1 p r"
    using alloc_frame by auto
  show ?thesis
  proof (cases ok)
    case False
    then show ?thesis using assms(2) a r by (auto simp: sqlite3RowSetInsert_def)
  next
    case True
    define n c where "n = nFresh r" and "c = pChunk r"
    have "r = p\<lparr>nFresh := n, pChunk := c\<rparr>" using r(1) by (simp add: n_def c_def)
    then show ?thesis
      using True assms a r(3)
      by (cases "pEntry p = []")
        (auto simp: sqlite3RowSetInsert_def rowset_ok_def chunks_grow_def not_le split: if_splits)
  qed
qed

lemma rowset_insert_ok:
  assumes p: "rowset_ok p" and run: "sqlite3RowSetInsert mem k p v = (q, k')"
  shows "rowset_ok q" and "pForest q = pForest p" and "iBatch q = iBatch p" and "rsNext q = rsNext p"
    and "pEntry q = pEntry p @ [v] \<or> pEntry q = pEntry p \<and> \<not> all_ok mem" and "chunks_grow mem k k' p q"
proof -
  obtain n c where "q = p\<lparr>nFresh := n, pChunk := c, pEntry := pEntry p @ [v], pLast := Some v,
      rsSorted := (rsSorted p \<and> (pEntry p = [] \<or> last (pEntry p) < v))\<rparr>
    \<or> q = p\<lparr>nFresh := n, pChunk := c\<rparr> \<and> \<not> all_ok mem"
    using insert_run [OF p run] by blast
  then show "rowset_ok q" "pForest q = pForest p" "iBatch q = iBatch p" "rsNext q = rsNext p"
    "pEntry q = pEntry p @ [v] \<or> pEntry q = pEntry p \<and> \<not> all_ok mem"
    using p ascending_snoc [of "pEntry p" v] by (auto simp: rowset_ok_def)
  show "chunks_grow mem k k' p q" using insert_run [OF p run] by blast
qed

text \<open>The transition of the abstract state on a test: pending entries join the tested set when the
  batch number changes, unless the allocation of a place for them fails.\<close>

lemma rowset_test_ok:
  assumes p: "rowset_ok p" "length (pEntry p) < 2 ^ 40"
  shows "\<exists>r q k'. sqlite3RowSetTest mem k p b v = Some (r, q, k') \<and> rowset_ok q \<and> rsNext q = rsNext p
    \<and> iBatch q = b \<and> (r \<longleftrightarrow> v \<in> forest (pForest q)) \<and> chunks_grow mem k k' p q
    \<and> (if b = iBatch p then pEntry q = pEntry p \<and> forest (pForest q) = forest (pForest p)
       else pEntry q = [] \<and> forest (pForest q) \<subseteq> set (pEntry p) \<union> forest (pForest p)
         \<and> (all_ok mem \<longrightarrow> forest (pForest q) = set (pEntry p) \<union> forest (pForest p)))"
proof -
  have search: "list_ex (\<lambda>t. rs_search t v) ts \<longleftrightarrow> v \<in> forest ts" if "list_all tree_ok ts" for ts
    using that by (induction ts) (auto simp: tree_ok_def rs_search_bst)
  have ts: "list_all tree_ok (pForest p)" using p by (simp add: rowset_ok_def)
  consider (same) "b = iBatch p" | (empty) "b \<noteq> iBatch p" "pEntry p = []"
    | (move) "b \<noteq> iBatch p" "pEntry p \<noteq> []" by blast
  then show ?thesis
  proof cases
    case same
    then show ?thesis using p search [OF ts] by (simp add: sqlite3RowSetTest_def chunks_grow_refl)
  next
    case empty
    then show ?thesis using p search [OF ts] by (simp add: sqlite3RowSetTest_def rowset_ok_def chunks_grow_refl)
  next
    case move
    let ?e = "sorted_list_of_set (set (pEntry p))"
    have e: "ascending ?e" "?e \<noteq> []" "set ?e = set (pEntry p)" using move by simp_all
    obtain us r where r: "rs_place ?e (pForest p) = (us, r)" by fastforce
    note pl = rs_place_ok [OF e(1,2) ts r]
    obtain ok a k1 where a: "rowSetEntryAlloc mem k p = (ok, a, k1)"
      by (cases "rowSetEntryAlloc mem k p") auto
    then obtain n c where n: "a = p\<lparr>nFresh := n, pChunk := c\<rparr>" "\<not> ok \<longrightarrow> \<not> all_ok mem" "chunks_grow mem k k1 p a"
      using alloc_frame [OF a] by blast
    define q where "q = (case r of None \<Rightarrow> p\<lparr>pForest := us\<rparr>
      | Some xs \<Rightarrow> if ok then a\<lparr>pForest := us @ [rowSetListToTree xs]\<rparr> else a\<lparr>pForest := us\<rparr>)
        \<lparr>pEntry := [], pLast := None, rsSorted := True, iBatch := b\<rparr>"
    define k' where "k' = (case r of None \<Rightarrow> k | Some xs \<Rightarrow> k1)"
    have run: "sqlite3RowSetTest mem k p b v = Some (list_ex (\<lambda>t. rs_search t v) (pForest q), q, k')"
      using move entries_sorted [OF p] r a
      by (auto simp: sqlite3RowSetTest_def q_def k'_def split: option.splits)
    have fr: "list_all tree_ok (pForest q)" "forest (pForest q) \<subseteq> set (pEntry p) \<union> forest (pForest p)"
      "all_ok mem \<longrightarrow> forest (pForest q) = set (pEntry p) \<union> forest (pForest p)"
      using pl e(3) list_tree_ok n(2) by (auto simp: q_def split: option.splits)
    moreover have "pEntry q = []" "pLast q = None" "iBatch q = b" "rsNext q = rsNext p" "chunks_grow mem k k' p q"
      using n by (auto simp: q_def k'_def chunks_grow_def split: option.splits)
    ultimately have "rowset_ok q" "list_ex (\<lambda>t. rs_search t v) (pForest q) \<longleftrightarrow> v \<in> forest (pForest q)"
      "rsNext q = rsNext p" "iBatch q = b" "pEntry q = []" "chunks_grow mem k k' p q"
      using search [of "pForest q"] by (auto simp: rowset_ok_def)
    with run fr move(1) show ?thesis
      by (intro exI [of _ "list_ex (\<lambda>t. rs_search t v) (pForest q)"] exI [of _ q] exI [of _ k']) simp
  qed
qed

subsection \<open>Batches of inserts and tests\<close>

text \<open>What the bytecode engine does with a row set in an \<open>OR\<close> query: inserts and batched tests in any
  order. \<open>rs_spec\<close> is the promise: a test sees every rowid inserted before the current batch began.\<close>

datatype rs_op = Rs_Insert int | Rs_Test int int

fun rs_run :: "(nat \<Rightarrow> bool) \<Rightarrow> nat \<Rightarrow> RowSet \<Rightarrow> rs_op list \<Rightarrow> (bool list \<times> RowSet \<times> nat) option" where
  "rs_run mem k p [] = Some ([], p, k)"
| "rs_run mem k p (Rs_Insert v # ops) =
     (let (p, k) = sqlite3RowSetInsert mem k p v in rs_run mem k p ops)"
| "rs_run mem k p (Rs_Test b v # ops) = do {
     (r, p, k) \<leftarrow> sqlite3RowSetTest mem k p b v;
     (rs, p, k) \<leftarrow> rs_run mem k p ops;
     Some (r # rs, p, k)
   }"

fun rs_spec :: "int set \<Rightarrow> int set \<Rightarrow> int \<Rightarrow> rs_op list \<Rightarrow> bool list" where
  "rs_spec pending tested batch [] = []"
| "rs_spec pending tested batch (Rs_Insert v # ops) = rs_spec (insert v pending) tested batch ops"
| "rs_spec pending tested batch (Rs_Test b v # ops) =
     (let (pending, tested) = (if b = batch then (pending, tested) else ({}, pending \<union> tested))
      in (v \<in> tested) # rs_spec pending tested b ops)"

lemma rs_run_ok:
  "\<lbrakk>rowset_ok p; length (pEntry p) + length ops < 2 ^ 40; set (pEntry p) \<subseteq> P; forest (pForest p) \<subseteq> T\<rbrakk> \<Longrightarrow>
   \<exists>rs q k'. rs_run mem k p ops = Some (rs, q, k') \<and> rowset_ok q \<and> chunks_grow mem k k' p q
     \<and> list_all2 (\<longrightarrow>) rs (rs_spec P T (iBatch p) ops)
     \<and> (all_ok mem \<and> P = set (pEntry p) \<and> T = forest (pForest p) \<longrightarrow> rs = rs_spec P T (iBatch p) ops)"
proof (induction ops arbitrary: p k P T)
  case Nil
  then show ?case by (simp add: chunks_grow_refl)
next
  case (Cons op ops)
  show ?case
  proof (cases op)
    case (Rs_Insert v)
    obtain p' k1 where r: "sqlite3RowSetInsert mem k p v = (p', k1)" by fastforce
    note i = rowset_insert_ok [OF Cons.prems(1) r]
    have "length (pEntry p') + length ops < 2 ^ 40" "set (pEntry p') \<subseteq> insert v P" "forest (pForest p') \<subseteq> T"
      "all_ok mem \<longrightarrow> set (pEntry p') = insert v (set (pEntry p))"
      using i(2,5) Cons.prems by auto
    then show ?thesis
      using Cons.IH [OF i(1), of "insert v P" T k1] Rs_Insert r i(2,3) chunks_grow_trans [OF i(6)] by fastforce
  next
    case (Rs_Test b v)
    define P' T' where "P' = (if b = iBatch p then P else {})" and "T' = (if b = iBatch p then T else P \<union> T)"
    obtain r q k1 where t: "sqlite3RowSetTest mem k p b v = Some (r, q, k1)" "rowset_ok q" "iBatch q = b"
      "r \<longleftrightarrow> v \<in> forest (pForest q)" "chunks_grow mem k k1 p q"
      "if b = iBatch p then pEntry q = pEntry p \<and> forest (pForest q) = forest (pForest p)
       else pEntry q = [] \<and> forest (pForest q) \<subseteq> set (pEntry p) \<union> forest (pForest p)
         \<and> (all_ok mem \<longrightarrow> forest (pForest q) = set (pEntry p) \<union> forest (pForest p))"
      using rowset_test_ok [of p mem k b v] Cons.prems by auto
    have q: "length (pEntry q) + length ops < 2 ^ 40" "set (pEntry q) \<subseteq> P'" "forest (pForest q) \<subseteq> T'"
      "all_ok mem \<and> P = set (pEntry p) \<and> T = forest (pForest p) \<longrightarrow> P' = set (pEntry q) \<and> T' = forest (pForest q)"
      using t(6) Cons.prems by (auto simp: P'_def T'_def split: if_splits)
    obtain rs q' k' where IH: "rs_run mem k1 q ops = Some (rs, q', k')" "rowset_ok q'" "chunks_grow mem k1 k' q q'"
      "list_all2 (\<longrightarrow>) rs (rs_spec P' T' b ops)"
      "all_ok mem \<and> P' = set (pEntry q) \<and> T' = forest (pForest q) \<longrightarrow> rs = rs_spec P' T' b ops"
      using Cons.IH [OF t(2) q(1-3), of k1] t(3) by auto
    have sp: "rs_spec P T (iBatch p) (op # ops) = (v \<in> T') # rs_spec P' T' b ops"
      using Rs_Test by (simp add: P'_def T'_def)
    show ?thesis
      unfolding sp using Rs_Test t(1,4) IH q(3,4) chunks_grow_trans [OF t(5) IH(3)] by auto
  qed
qed

lemma rowset_init_ok:
  assumes "sqlite3RowSetInit mem k N = (Some p, k')"
  shows "rowset_ok p" "pEntry p = []" "pForest p = []" "iBatch p = 0" "\<not> rsNext p" "pChunk p = []"
    "mem k" "k' = Suc k"
  using assms by (auto simp: sqlite3RowSetInit_def rowset_ok_def split: if_splits)

lemmas rowset_run = rs_run_ok [of _ _ "{}" "{}"]

text \<open>C11: On every sequence of fewer than \<open>2 ^ 40\<close> inserts and tests on a new row set, and whatever the allocator does,
  the row set never runs past its bucket array, and a test that says yes is right: the rowid was inserted before the
  batch of the test began. If no allocation fails, each test answers exactly whether it was.\<close>

theorem rowset_tests:
  assumes "sqlite3RowSetInit mem k N = (Some p, k')" and "length ops < 2 ^ 40"
  shows "\<exists>rs q k''. rs_run mem k' p ops = Some (rs, q, k'') \<and> list_all2 (\<longrightarrow>) rs (rs_spec {} {} 0 ops)
    \<and> (all_ok mem \<longrightarrow> rs = rs_spec {} {} 0 ops)"
  using rowset_run [of p ops mem k'] rowset_init_ok [OF assms(1)] assms(2) by auto

theorem rowset_tests_witness:
  "\<exists>p q k. sqlite3RowSetInit (\<lambda>_. True) 0 80 = (Some p, 1) \<and> rs_run (\<lambda>_. True) 1 p
     [Rs_Insert 5, Rs_Insert 3, Rs_Insert 5, Rs_Test 1 3, Rs_Insert 9, Rs_Test 1 9, Rs_Test 2 9]
   = Some ([True, False, True], q, k)"
proof -
  obtain p where p: "sqlite3RowSetInit (\<lambda>_. True) 0 80 = (Some p, 1)" by (simp add: sqlite3RowSetInit_def)
  show ?thesis
    using rowset_tests [OF p, of "[Rs_Insert 5, Rs_Insert 3, Rs_Insert 5, Rs_Test 1 3, Rs_Insert 9, Rs_Test 1 9, Rs_Test 2 9]"] p
    by (auto simp: all_ok_def simp del: rs_run.simps)
qed

text \<open>C33: After every sequence of fewer than \<open>2 ^ 40\<close> inserts and tests on a new row set, and whatever the allocator
  does, every tree a test searches is a search tree of logarithmic depth, whatever the order of the
  inserts: a tree of \<open>n\<close> rowids has height at most \<open>log\<^sub>2 n + 1\<close>.\<close>

theorem rowset_depth:
  assumes "sqlite3RowSetInit mem k N = (Some p, k')" and "length ops < 2 ^ 40"
    and "rs_run mem k' p ops = Some (rs, q, k'')" and "t \<in> set (pForest q)"
  shows "bst t \<and> (t = Leaf \<or> 2 ^ height t \<le> 2 * size t)"
proof -
  have "rowset_ok q"
    using rowset_run [of p ops mem k'] rowset_init_ok [OF assms(1)] assms(2,3) by auto
  then show ?thesis
    using assms(4) by (auto simp: rowset_ok_def list_all_iff tree_ok_def)
qed

theorem rowset_depth_witness:
  "\<exists>p q k. sqlite3RowSetInit (\<lambda>_. True) 0 80 = (Some p, 1)
    \<and> rs_run (\<lambda>_. True) 1 p [Rs_Insert 5, Rs_Test 1 5] = Some ([True], q, k)
    \<and> (\<forall>t \<in> set (pForest q). bst t \<and> (t = Leaf \<or> 2 ^ height t \<le> 2 * size t))"
proof -
  obtain p where p: "sqlite3RowSetInit (\<lambda>_. True) 0 80 = (Some p, 1)" by (simp add: sqlite3RowSetInit_def)
  have l: "length [Rs_Insert 5, Rs_Test 1 5] < 2 ^ 40" by simp
  have "\<exists>q k. rs_run (\<lambda>_. True) 1 p [Rs_Insert 5, Rs_Test 1 5] = Some ([True], q, k)"
    using rowset_run [of p "[Rs_Insert 5, Rs_Test 1 5]" "\<lambda>_. True" 1] rowset_init_ok(1-4) [OF p] l
    by (simp add: all_ok_def del: rs_run.simps) blast
  then obtain q k where q: "rs_run (\<lambda>_. True) 1 p [Rs_Insert 5, Rs_Test 1 5] = Some ([True], q, k)" by blast
  show ?thesis
    by (rule exI [of _ p], rule exI [of _ q], rule exI [of _ k]) (use rowset_depth [OF p l q] p q in blast)
qed

text \<open>C22: Nothing leaks and nothing is freed twice: after any sequence of fewer than \<open>2 ^ 40\<close> inserts and tests, deleting
  the row set frees exactly the allocations that were made for it, the object itself and every chunk whose allocation
  succeeded, each once.\<close>

theorem rowset_freed:
  assumes "sqlite3RowSetInit mem k N = (Some p, k')" and "length ops < 2 ^ 40"
    and "rs_run mem k' p ops = Some (rs, q, k'')"
  shows "distinct (sqlite3RowSetDelete k q) \<and> set (sqlite3RowSetDelete k q) = {i. k \<le> i \<and> i < k'' \<and> mem i}"
proof -
  note p = rowset_init_ok [OF assms(1)]
  have "chunks_grow mem k' k'' p q" using rowset_run [of p ops mem k'] p assms(2,3) by auto
  then have "pChunk q = rev (filter mem [Suc k..<k''])" "Suc k \<le> k''"
    using p(6,8) by (simp_all add: chunks_grow_def)
  then show ?thesis
    using p(7) by (auto simp: sqlite3RowSetDelete_def sqlite3RowSetClear_def Suc_le_eq le_less)
qed

theorem rowset_freed_witness:
  "\<exists>p q k. sqlite3RowSetInit (\<lambda>i. i \<noteq> 1) 0 56 = (Some p, 1)
    \<and> rs_run (\<lambda>i. i \<noteq> 1) 1 p [Rs_Insert 5, Rs_Insert 7] = Some ([], q, k)
    \<and> set (sqlite3RowSetDelete 0 q) = {i. 0 \<le> i \<and> i < k \<and> i \<noteq> 1}"
proof -
  obtain p where p: "sqlite3RowSetInit (\<lambda>i. i \<noteq> 1) 0 56 = (Some p, 1)" by (simp add: sqlite3RowSetInit_def)
  have l: "length [Rs_Insert 5, Rs_Insert 7] < 2 ^ 40" by simp
  have "\<exists>q k. rs_run (\<lambda>i. i \<noteq> 1) 1 p [Rs_Insert 5, Rs_Insert 7] = Some ([], q, k)"
    using rowset_run [of p "[Rs_Insert 5, Rs_Insert 7]" "\<lambda>i. i \<noteq> 1" 1] rowset_init_ok(1-4) [OF p] l
    by (simp del: rs_run.simps) blast
  then obtain q k where q: "rs_run (\<lambda>i. i \<noteq> 1) 1 p [Rs_Insert 5, Rs_Insert 7] = Some ([], q, k)" by blast
  show ?thesis
    by (rule exI [of _ p], rule exI [of _ q], rule exI [of _ k]) (use rowset_freed [OF p l q] p q in blast)
qed

subsection \<open>Extraction\<close>

fun rs_insert_all :: "(nat \<Rightarrow> bool) \<Rightarrow> nat \<Rightarrow> RowSet \<Rightarrow> int list \<Rightarrow> RowSet" where
  "rs_insert_all mem k p [] = p"
| "rs_insert_all mem k p (v # vs) = (let (p, k) = sqlite3RowSetInsert mem k p v in rs_insert_all mem k p vs)"

text \<open>Call \<open>sqlite3RowSetNext\<close> at most \<open>n\<close> times, until it returns zero.\<close>

fun rs_drain :: "nat \<Rightarrow> RowSet \<Rightarrow> int list option" where
  "rs_drain 0 p = Some []"
| "rs_drain (Suc n) p = do {
     (v, p) \<leftarrow> sqlite3RowSetNext p;
     (case v of None \<Rightarrow> Some [] | Some v \<Rightarrow> map_option (Cons v) (rs_drain n p))
   }"

lemma rs_insert_all_ok:
  "\<lbrakk>rowset_ok p; \<not> rsNext p\<rbrakk> \<Longrightarrow>
   rowset_ok (rs_insert_all mem k p vs) \<and> \<not> rsNext (rs_insert_all mem k p vs)
   \<and> set (pEntry (rs_insert_all mem k p vs)) \<subseteq> set (pEntry p) \<union> set vs
   \<and> length (pEntry (rs_insert_all mem k p vs)) \<le> length (pEntry p) + length vs
   \<and> (all_ok mem \<longrightarrow> pEntry (rs_insert_all mem k p vs) = pEntry p @ vs)"
proof (induction vs arbitrary: p k)
  case (Cons v vs)
  obtain q k' where r: "sqlite3RowSetInsert mem k p v = (q, k')" by fastforce
  note i = rowset_insert_ok [OF Cons.prems(1) r]
  have "set (pEntry q) \<subseteq> insert v (set (pEntry p))" "length (pEntry q) \<le> Suc (length (pEntry p))"
    "all_ok mem \<longrightarrow> pEntry q = pEntry p @ [v]" using i(5) by auto
  then show ?case
    using Cons.IH [OF i(1), of k'] i(4) Cons.prems(2) r by fastforce
qed simp

lemma rs_drain_next: "rsNext p \<Longrightarrow> rs_drain n p = Some (take n (pEntry p))"
proof (induction n arbitrary: p)
  case (Suc n)
  show ?case
  proof (cases "pEntry p")
    case Nil
    then show ?thesis using Suc.prems by (simp add: sqlite3RowSetNext_def)
  next
    case (Cons v es)
    show ?thesis
    proof (cases "es = []")
      case True
      have "rs_drain n (snd (sqlite3RowSetClear q)) = Some []" for q
        by (cases n) (simp_all add: sqlite3RowSetNext_def sqlite3RowSetClear_def)
      then show ?thesis using Suc.prems Cons True by (simp add: sqlite3RowSetNext_def)
    next
      case False
      then show ?thesis
        using Suc.IH [of "p\<lparr>pEntry := es\<rparr>"] Suc.prems Cons by (simp add: sqlite3RowSetNext_def)
    qed
  qed
qed simp

lemma rs_drain_ok:
  assumes "rowset_ok p" and "length (pEntry p) < 2 ^ 40" and "\<not> rsNext p"
  shows "rs_drain n p = Some (take n (sorted_list_of_set (set (pEntry p))))"
proof (cases n)
  case (Suc m)
  let ?q = "p\<lparr>pEntry := sorted_list_of_set (set (pEntry p)), rsSorted := True, rsNext := True\<rparr>"
  have "sqlite3RowSetNext p = sqlite3RowSetNext ?q"
    using assms(3) entries_sorted [OF assms(1,2)] by (simp add: sqlite3RowSetNext_def)
  then have "rs_drain n p = rs_drain n ?q" using Suc by simp
  then show ?thesis using rs_drain_next [of ?q n] by simp
qed simp

text \<open>C18: Extraction returns inserted rowids in increasing order without duplicates: after inserting
  any list of fewer than \<open>2 ^ 40\<close> rowids into a new row set, \<open>n\<close> calls deliver the \<open>n\<close> smallest of a set of distinct ones, and the
  call behind the last one reports the end. If no allocation fails that set is all of the inserted rowids;
  otherwise inserts may have been dropped, and nothing else appears.\<close>

theorem rowset_sorted:
  assumes "sqlite3RowSetInit mem k N = (Some p, k')" and "length vs < 2 ^ 40"
  shows "\<exists>S. S \<subseteq> set vs \<and> (all_ok mem \<longrightarrow> S = set vs)
    \<and> (\<forall>n. rs_drain n (rs_insert_all mem k' p vs) = Some (take n (sorted_list_of_set S)))"
proof -
  note p = rowset_init_ok [OF assms(1)]
  note i = rs_insert_all_ok [OF p(1,5), of mem k' vs, unfolded p(2)]
  then show ?thesis
    using rs_drain_ok [of "rs_insert_all mem k' p vs"] assms(2)
    by (intro exI [of _ "set (pEntry (rs_insert_all mem k' p vs))"]) auto
qed

theorem rowset_sorted_witness:
  "\<exists>p. sqlite3RowSetInit (\<lambda>_. True) 0 80 = (Some p, 1)
    \<and> rs_drain 9 (rs_insert_all (\<lambda>_. True) 1 p [4, 1, 4, 3]) = Some [1, 3, 4]"
proof -
  obtain p where p: "sqlite3RowSetInit (\<lambda>_. True) 0 80 = (Some p, 1)" by (simp add: sqlite3RowSetInit_def)
  have "sorted_list_of_set (set [4, 1, 4, 3]) = [1, 3, 4 :: int]"
    by (simp only: sorted_list_of_set_sort_remdups) simp
  then show ?thesis
    using rowset_sorted [OF p, of "[4, 1, 4, 3]"] p
    by (auto simp: all_ok_def simp del: rs_insert_all.simps)
qed

end
