(* ===== verification/Char_Class.thy ===== *)
theory Char_Class
  imports Sqlite_Prelude
begin

text \<open>
  The character tables of \<^verbatim>\<open>global.c\<close> (ASCII build) and the classification macros of
  \<^verbatim>\<open>sqliteInt.h\<close> that read them, with the ranges they stand for.
\<close>

definition sqlite3UpperToLower :: "u8 list" where
  "sqlite3UpperToLower =
    [0, 1, 2, 3, 4, 5, 6, 7, 8, 9, 10, 11, 12, 13, 14, 15,
     16, 17, 18, 19, 20, 21, 22, 23, 24, 25, 26, 27, 28, 29, 30, 31,
     32, 33, 34, 35, 36, 37, 38, 39, 40, 41, 42, 43, 44, 45, 46, 47,
     48, 49, 50, 51, 52, 53, 54, 55, 56, 57, 58, 59, 60, 61, 62, 63,
     64, 97, 98, 99, 100, 101, 102, 103, 104, 105, 106, 107, 108, 109, 110, 111,
     112, 113, 114, 115, 116, 117, 118, 119, 120, 121, 122, 91, 92, 93, 94, 95,
     96, 97, 98, 99, 100, 101, 102, 103, 104, 105, 106, 107, 108, 109, 110, 111,
     112, 113, 114, 115, 116, 117, 118, 119, 120, 121, 122, 123, 124, 125, 126, 127,
     128, 129, 130, 131, 132, 133, 134, 135, 136, 137, 138, 139, 140, 141, 142, 143,
     144, 145, 146, 147, 148, 149, 150, 151, 152, 153, 154, 155, 156, 157, 158, 159,
     160, 161, 162, 163, 164, 165, 166, 167, 168, 169, 170, 171, 172, 173, 174, 175,
     176, 177, 178, 179, 180, 181, 182, 183, 184, 185, 186, 187, 188, 189, 190, 191,
     192, 193, 194, 195, 196, 197, 198, 199, 200, 201, 202, 203, 204, 205, 206, 207,
     208, 209, 210, 211, 212, 213, 214, 215, 216, 217, 218, 219, 220, 221, 222, 223,
     224, 225, 226, 227, 228, 229, 230, 231, 232, 233, 234, 235, 236, 237, 238, 239,
     240, 241, 242, 243, 244, 245, 246, 247, 248, 249, 250, 251, 252, 253, 254, 255]"

definition sqlite3CtypeMap :: "u8 list" where
  "sqlite3CtypeMap =
    [0x0, 0x0, 0x0, 0x0, 0x0, 0x0, 0x0, 0x0, 0x0, 0x1, 0x1, 0x1, 0x1, 0x1, 0x0, 0x0,
     0x0, 0x0, 0x0, 0x0, 0x0, 0x0, 0x0, 0x0, 0x0, 0x0, 0x0, 0x0, 0x0, 0x0, 0x0, 0x0,
     0x1, 0x0, 0x80, 0x0, 0x40, 0x0, 0x0, 0x80, 0x0, 0x0, 0x0, 0x0, 0x0, 0x0, 0x0, 0x0,
     0xc, 0xc, 0xc, 0xc, 0xc, 0xc, 0xc, 0xc, 0xc, 0xc, 0x0, 0x0, 0x0, 0x0, 0x0, 0x0,
     0x0, 0xa, 0xa, 0xa, 0xa, 0xa, 0xa, 0x2, 0x2, 0x2, 0x2, 0x2, 0x2, 0x2, 0x2, 0x2,
     0x2, 0x2, 0x2, 0x2, 0x2, 0x2, 0x2, 0x2, 0x2, 0x2, 0x2, 0x80, 0x0, 0x0, 0x0, 0x40,
     0x80, 0x2a, 0x2a, 0x2a, 0x2a, 0x2a, 0x2a, 0x22, 0x22, 0x22, 0x22, 0x22, 0x22, 0x22, 0x22, 0x22,
     0x22, 0x22, 0x22, 0x22, 0x22, 0x22, 0x22, 0x22, 0x22, 0x22, 0x22, 0x0, 0x0, 0x0, 0x0, 0x0,
     0x40, 0x40, 0x40, 0x40, 0x40, 0x40, 0x40, 0x40, 0x40, 0x40, 0x40, 0x40, 0x40, 0x40, 0x40, 0x40,
     0x40, 0x40, 0x40, 0x40, 0x40, 0x40, 0x40, 0x40, 0x40, 0x40, 0x40, 0x40, 0x40, 0x40, 0x40, 0x40,
     0x40, 0x40, 0x40, 0x40, 0x40, 0x40, 0x40, 0x40, 0x40, 0x40, 0x40, 0x40, 0x40, 0x40, 0x40, 0x40,
     0x40, 0x40, 0x40, 0x40, 0x40, 0x40, 0x40, 0x40, 0x40, 0x40, 0x40, 0x40, 0x40, 0x40, 0x40, 0x40,
     0x40, 0x40, 0x40, 0x40, 0x40, 0x40, 0x40, 0x40, 0x40, 0x40, 0x40, 0x40, 0x40, 0x40, 0x40, 0x40,
     0x40, 0x40, 0x40, 0x40, 0x40, 0x40, 0x40, 0x40, 0x40, 0x40, 0x40, 0x40, 0x40, 0x40, 0x40, 0x40,
     0x40, 0x40, 0x40, 0x40, 0x40, 0x40, 0x40, 0x40, 0x40, 0x40, 0x40, 0x40, 0x40, 0x40, 0x40, 0x40,
     0x40, 0x40, 0x40, 0x40, 0x40, 0x40, 0x40, 0x40, 0x40, 0x40, 0x40, 0x40, 0x40, 0x40, 0x40, 0x40]"

definition sqlite3Tolower :: "u8 \<Rightarrow> u8" where
  "sqlite3Tolower x = sqlite3UpperToLower ! unat x"

definition sqlite3Toupper :: "u8 \<Rightarrow> u8" where
  "sqlite3Toupper x = x AND NOT (sqlite3CtypeMap ! unat x AND 0x20)"

definition sqlite3Isspace :: "u8 \<Rightarrow> bool" where
  "sqlite3Isspace x \<longleftrightarrow> sqlite3CtypeMap ! unat x AND 0x01 \<noteq> 0"

definition sqlite3Isalnum :: "u8 \<Rightarrow> bool" where
  "sqlite3Isalnum x \<longleftrightarrow> sqlite3CtypeMap ! unat x AND 0x06 \<noteq> 0"

definition sqlite3Isalpha :: "u8 \<Rightarrow> bool" where
  "sqlite3Isalpha x \<longleftrightarrow> sqlite3CtypeMap ! unat x AND 0x02 \<noteq> 0"

definition sqlite3Isdigit :: "u8 \<Rightarrow> bool" where
  "sqlite3Isdigit x \<longleftrightarrow> sqlite3CtypeMap ! unat x AND 0x04 \<noteq> 0"

definition sqlite3Isxdigit :: "u8 \<Rightarrow> bool" where
  "sqlite3Isxdigit x \<longleftrightarrow> sqlite3CtypeMap ! unat x AND 0x08 \<noteq> 0"

definition sqlite3Isquote :: "u8 \<Rightarrow> bool" where
  "sqlite3Isquote x \<longleftrightarrow> sqlite3CtypeMap ! unat x AND 0x80 \<noteq> 0"

definition IdChar :: "u8 \<Rightarrow> bool" where
  "IdChar x \<longleftrightarrow> sqlite3CtypeMap ! unat x AND 0x46 \<noteq> 0"

lemmas ctype_defs = sqlite3Isspace_def sqlite3Isalnum_def sqlite3Isalpha_def sqlite3Isdigit_def
  sqlite3Isxdigit_def sqlite3Isquote_def IdChar_def

subsection \<open>What the tables say\<close>

definition ctype_of :: "nat \<Rightarrow> u8" where
  "ctype_of i =
     (if i = 32 \<or> 9 \<le> i \<and> i \<le> 13 then 0x01
      else if 48 \<le> i \<and> i \<le> 57 then 0x0c
      else if 65 \<le> i \<and> i \<le> 70 then 0x0a
      else if 71 \<le> i \<and> i \<le> 90 then 0x02
      else if 97 \<le> i \<and> i \<le> 102 then 0x2a
      else if 103 \<le> i \<and> i \<le> 122 then 0x22
      else if i = 34 \<or> i = 39 \<or> i = 91 \<or> i = 96 then 0x80
      else if i = 36 \<or> i = 95 \<or> 128 \<le> i then 0x40
      else 0)"

definition lower_of :: "nat \<Rightarrow> u8" where
  "lower_of i = (if 65 \<le> i \<and> i \<le> 90 then word_of_nat (i + 32) else word_of_nat i)"

lemma upt_256: "[0..<256] = 0 # 1 # [2..<256]"
  by (simp add: upt_rec [of 0] upt_rec [of "Suc 0"] numeral_2_eq_2 [symmetric])

lemma ctype_list: "sqlite3CtypeMap = map ctype_of [0..<256]"
  by (simp add: upt_256 ctype_of_def sqlite3CtypeMap_def)

lemma lower_list: "sqlite3UpperToLower = map lower_of [0..<256]"
  by (simp add: upt_256 lower_of_def sqlite3UpperToLower_def)

lemma nth_table: "(map f [0..<256]) ! unat (c :: u8) = f (unat c)"
  using unat_bounds(1) [of c] nth_map_upt [of "unat c" 256 0 f] by simp

lemma ctype_table: "sqlite3CtypeMap ! unat (c :: u8) = ctype_of (unat c)"
  unfolding ctype_list by (rule nth_table)

lemma lower_table: "sqlite3Tolower c = (if 65 \<le> c \<and> c \<le> 90 then c + 32 else c)"
  unfolding sqlite3Tolower_def lower_list nth_table by (simp add: lower_of_def word_le_nat_alt)

lemmas ctype_simps = ctype_defs ctype_table ctype_of_def word_le_nat_alt word_unat_eq_iff

lemma sqlite3Isspace_iff: "sqlite3Isspace c \<longleftrightarrow> c = 32 \<or> 9 \<le> c \<and> c \<le> 13"
  by (auto simp: ctype_simps)

lemma sqlite3Isdigit_iff: "sqlite3Isdigit c \<longleftrightarrow> 48 \<le> c \<and> c \<le> 57"
  by (auto simp: ctype_simps)

lemma sqlite3Isxdigit_iff:
  "sqlite3Isxdigit c \<longleftrightarrow> 48 \<le> c \<and> c \<le> 57 \<or> 65 \<le> c \<and> c \<le> 70 \<or> 97 \<le> c \<and> c \<le> 102"
  by (auto simp: ctype_simps)

lemma sqlite3Isquote_iff: "sqlite3Isquote c \<longleftrightarrow> c = 34 \<or> c = 39 \<or> c = 91 \<or> c = 96"
  by (auto simp: ctype_simps)

lemma lower_eq_0 [simp]: "sqlite3Tolower c = 0 \<longleftrightarrow> c = 0"
proof -
  have "c + 32 \<noteq> 0" if "65 \<le> c" "c \<le> 90"
    using that by (auto simp: word_le_nat_alt unat_eq_zero [symmetric] unat_word_ariths)
  then show ?thesis by (auto simp: lower_table)
qed

end
