(* ===== verification/Str_Util.thy ===== *)
theory Str_Util
  imports Char_Class "HOL-Library.List_Lexorder"
begin

text \<open>
  The string helpers of \<^verbatim>\<open>util.c\<close>: case-insensitive comparison and hashing of identifiers, and the
  in-place removal of SQL quotes. A C string is a byte buffer that holds a zero; a read past the end of
  the buffer is \<open>None\<close>.
\<close>

subsection \<open>Definitions\<close>

fun sqlite3StrICmp :: "u8 list \<Rightarrow> u8 list \<Rightarrow> int option" where
  "sqlite3StrICmp (c # a) (x # b) =
     (if c = x then
        if c = 0 then Some 0 else sqlite3StrICmp a b
      else
        let d = uint (sqlite3Tolower c) - uint (sqlite3Tolower x) in
        if d \<noteq> 0 then Some d else sqlite3StrICmp a b)"
| "sqlite3StrICmp _ _ = None"

definition sqlite3_stricmp :: "u8 list option \<Rightarrow> u8 list option \<Rightarrow> int option" where
  "sqlite3_stricmp zLeft zRight =
     (case zLeft of
        None \<Rightarrow> Some (if zRight \<noteq> None then -1 else 0)
      | Some a \<Rightarrow> (case zRight of None \<Rightarrow> Some 1 | Some b \<Rightarrow> sqlite3StrICmp a b))"

fun strnicmp_loop :: "nat \<Rightarrow> u8 list \<Rightarrow> u8 list \<Rightarrow> int option" where
  "strnicmp_loop 0 a b = Some 0"
| "strnicmp_loop (Suc N) (c # a) (x # b) =
     (if c \<noteq> 0 \<and> sqlite3Tolower c = sqlite3Tolower x then strnicmp_loop N a b
      else Some (uint (sqlite3Tolower c) - uint (sqlite3Tolower x)))"
| "strnicmp_loop (Suc N) _ _ = None"

definition sqlite3_strnicmp :: "u8 list option \<Rightarrow> u8 list option \<Rightarrow> int \<Rightarrow> int option" where
  "sqlite3_strnicmp zLeft zRight N =
     (case zLeft of
        None \<Rightarrow> Some (if zRight \<noteq> None then -1 else 0)
      | Some a \<Rightarrow> (case zRight of None \<Rightarrow> Some 1 | Some b \<Rightarrow> strnicmp_loop (nat N) a b))"

fun strihash_loop :: "u8 list \<Rightarrow> u8 \<Rightarrow> u8 option" where
  "strihash_loop [] h = None"
| "strihash_loop (c # z) h = (if c \<noteq> 0 then strihash_loop z (h + sqlite3Tolower c) else Some h)"

definition sqlite3StrIHash :: "u8 list option \<Rightarrow> u8 option" where
  "sqlite3StrIHash zo = (case zo of None \<Rightarrow> Some 0 | Some z \<Rightarrow> strihash_loop z 0)"

function dequote_loop :: "u8 \<Rightarrow> u8 list \<Rightarrow> nat \<Rightarrow> nat \<Rightarrow> u8 list option" where
  "dequote_loop quote z i j =
     (if i < length z then
        if z ! i = quote then
          if Suc i < length z then
            if z ! Suc i = quote then dequote_loop quote (z[j := quote]) (i + 2) (Suc j)
            else Some (z[j := 0])
          else None
        else dequote_loop quote (z[j := z ! i]) (Suc i) (Suc j)
      else None)"
  by pat_completeness auto
termination dequote_loop
  by (relation "measure (\<lambda>(q, z, i, j). length z - i)") auto

declare dequote_loop.simps [simp del]

definition sqlite3Dequote :: "u8 list option \<Rightarrow> u8 list option option" where
  "sqlite3Dequote zo =
     (case zo of
        None \<Rightarrow> Some None
      | Some z \<Rightarrow> do {
          quote \<leftarrow> rd z 0;
          (if \<not> sqlite3Isquote quote then Some (Some z)
           else map_option Some (dequote_loop (if quote = 91 then 93 else quote) z 1 0))
        })"

text \<open>A token is a pointer into the SQL text and a length; only the pointer and the length change.\<close>

fun token_has_quote :: "u8 list \<Rightarrow> nat \<Rightarrow> bool option" where
  "token_has_quote z 0 = Some False"
| "token_has_quote [] (Suc n) = None"
| "token_has_quote (c # z) (Suc n) = (if sqlite3Isquote c then Some True else token_has_quote z n)"

definition sqlite3DequoteToken :: "u8 list \<Rightarrow> nat \<Rightarrow> (u8 list \<times> nat) option" where
  "sqlite3DequoteToken z n =
     (if n < 2 then Some (z, n)
      else do {
        c \<leftarrow> rd z 0;
        if \<not> sqlite3Isquote c then Some (z, n)
        else do {
          q \<leftarrow> token_has_quote (drop 1 z) (n - 2);
          Some (if q then (z, n) else (drop 1 z, n - 2))
        }
      })"

subsection \<open>Comparison\<close>

abbreviation lower :: "u8 list \<Rightarrow> u8 list" where
  "lower s \<equiv> map sqlite3Tolower s"

lemma lower_0 [simp]: "sqlite3Tolower 0 = 0"
  by simp

lemma uint_lower_pos: "c \<noteq> 0 \<Longrightarrow> 0 < uint (sqlite3Tolower c)"
  by (simp add: less_le uint_0_iff)

lemma stricmp_spec:
  "\<lbrakk>0 \<notin> set s; 0 \<notin> set t\<rbrakk> \<Longrightarrow>
   \<exists>r. sqlite3StrICmp (s @ 0 # p) (t @ 0 # q) = Some r
     \<and> (r = 0 \<longleftrightarrow> lower s = lower t) \<and> (r < 0 \<longleftrightarrow> lower s < lower t)"
proof (induction s arbitrary: t)
  case Nil
  then show ?case
    by (cases t) (auto simp: Let_def uint_0_iff dest: uint_lower_pos)
next
  case (Cons c s)
  show ?case
  proof (cases t)
    case Nil
    then show ?thesis using Cons.prems by (auto simp: Let_def uint_0_iff)
  next
    case t: (Cons x t')
    have "\<exists>r. sqlite3StrICmp (s @ 0 # p) (t' @ 0 # q) = Some r
       \<and> (r = 0 \<longleftrightarrow> lower s = lower t') \<and> (r < 0 \<longleftrightarrow> lower s < lower t')"
      using Cons.prems t by (intro Cons.IH) auto
    then obtain r where r: "sqlite3StrICmp (s @ 0 # p) (t' @ 0 # q) = Some r"
      "r = 0 \<longleftrightarrow> lower s = lower t'" "r < 0 \<longleftrightarrow> lower s < lower t'" by (elim exE conjE)
    show ?thesis
    proof (cases "sqlite3Tolower c = sqlite3Tolower x")
      case True
      then show ?thesis using r Cons.prems t by (auto simp: Let_def)
    next
      case False
      then have "c \<noteq> x" by auto
      moreover have "uint (sqlite3Tolower c) \<noteq> uint (sqlite3Tolower x)" using False by (simp add: word_uint_eq_iff)
      ultimately show ?thesis using False t by (simp add: word_less_def)
    qed
  qed
qed

lemma strihash_spec:
  "0 \<notin> set s \<Longrightarrow> strihash_loop (s @ 0 # p) h = Some (h + sum_list (lower s))"
  by (induction s arbitrary: h) (auto simp: add.assoc)

lemma strnicmp_prefix:
  "\<lbrakk>0 \<notin> set s; 0 \<notin> set t\<rbrakk> \<Longrightarrow>
   \<exists>r. strnicmp_loop n (s @ 0 # p) (t @ 0 # q) = Some r
     \<and> (r = 0 \<longleftrightarrow> lower (take n s) = lower (take n t)) \<and> (r < 0 \<longleftrightarrow> lower (take n s) < lower (take n t))"
proof (induction n arbitrary: s t)
  case (Suc n)
  show ?case
  proof (cases s)
    case Nil
    then show ?thesis using Suc.prems
      by (cases t) (auto simp: uint_0_iff dest: uint_lower_pos)
  next
    case s: (Cons c s')
    show ?thesis
    proof (cases t)
      case Nil
      then show ?thesis using Suc.prems s by (auto simp: uint_0_iff)
    next
      case t: (Cons x t')
      have "\<exists>r. strnicmp_loop n (s' @ 0 # p) (t' @ 0 # q) = Some r
         \<and> (r = 0 \<longleftrightarrow> lower (take n s') = lower (take n t')) \<and> (r < 0 \<longleftrightarrow> lower (take n s') < lower (take n t'))"
        using Suc.prems s t by (intro Suc.IH) auto
      then obtain r where r: "strnicmp_loop n (s' @ 0 # p) (t' @ 0 # q) = Some r"
        "r = 0 \<longleftrightarrow> lower (take n s') = lower (take n t')" "r < 0 \<longleftrightarrow> lower (take n s') < lower (take n t')"
        by (elim exE conjE)
      show ?thesis
      proof (cases "sqlite3Tolower c = sqlite3Tolower x")
        case True
        then show ?thesis using r Suc.prems s t by auto
      next
        case False
        moreover have "uint (sqlite3Tolower c) \<noteq> uint (sqlite3Tolower x)" using False by (simp add: word_uint_eq_iff)
        ultimately show ?thesis using s t by (simp add: word_less_def)
      qed
    qed
  qed
qed simp

subsection \<open>Removal of quotes\<close>

text \<open>The way SQL writes a quoted name: the closing quote is doubled inside.\<close>

fun quoted :: "u8 \<Rightarrow> u8 list \<Rightarrow> u8 list" where
  "quoted q [] = []"
| "quoted q (c # s) = (if c = q then q # q # quoted q s else c # quoted q s)"

definition cstr :: "u8 list \<Rightarrow> u8 list" where
  "cstr z = takeWhile (\<lambda>c. c \<noteq> 0) z"

lemma cstr_terminated [simp]: "0 \<notin> set s \<Longrightarrow> cstr (s @ 0 # p) = s"
  by (auto simp: cstr_def takeWhile_append)

lemma quoted_length: "length s \<le> length (quoted q s)"
  by (induction q s rule: quoted.induct) auto

lemma drop_update_before: "j < i \<Longrightarrow> drop i (z[j := v]) = drop i z"
  by simp

lemma dequote_loop_spec:
  assumes "p \<noteq> []" "hd p \<noteq> q"
  shows "\<lbrakk>drop i z = quoted q s @ q # p; j < i\<rbrakk> \<Longrightarrow>
    \<exists>z' w. dequote_loop q z i j = Some z' \<and> length z' = length z \<and> z' = take j z @ s @ 0 # w"
proof (induction s arbitrary: z i j)
  case Nil
  have len: "i < length z" using Nil.prems(1) by (metis drop_eq_Nil append_is_Nil_conv list.distinct(1) not_le)
  have z: "z ! i = q" "drop (Suc i) z = p"
    using Nil.prems(1) len by (auto simp: Cons_nth_drop_Suc [symmetric])
  then have len2: "Suc i < length z" using assms(1) by (metis drop_eq_Nil not_le)
  then have "z ! Suc i \<noteq> q" using z(2) assms(2) by (metis hd_drop_conv_nth)
  then have "dequote_loop q z i j = Some (z[j := 0])"
    using len len2 z by (subst dequote_loop.simps) simp
  moreover have "z[j := 0] = take j z @ 0 # drop (Suc j) z"
    using Nil.prems(2) len by (simp add: upd_conv_take_nth_drop)
  ultimately show ?case using Nil.prems(2) len by auto
next
  case (Cons c s)
  have ne: "drop i z \<noteq> []" using Cons.prems(1) by (cases "c = q") auto
  then have len: "i < length z" by simp
  have j: "j < length z" using len Cons.prems(2) by simp
  have dz: "drop i z = z ! i # drop (Suc i) z" using len by (simp add: Cons_nth_drop_Suc)
  define n where "n = (if c = q then i + 2 else Suc i)"
  have zi: "z ! i = c" using Cons.prems(1) dz by (auto split: if_splits)
  have d1: "drop (Suc i) z = (if c = q then q # quoted q s @ q # p else quoted q s @ q # p)"
    using Cons.prems(1) dz by (auto split: if_splits)
  have zsi: "Suc i < length z" "z ! Suc i = q" "drop (i + 2) z = quoted q s @ q # p" if "c = q"
  proof -
    have e: "drop (Suc i) z = q # quoted q s @ q # p" using d1 that by simp
    show l: "Suc i < length z" using e by (metis drop_eq_Nil list.distinct(1) not_le)
    have "drop (Suc i) z = z ! Suc i # drop (Suc (Suc i)) z" using l by (simp add: Cons_nth_drop_Suc)
    then show "z ! Suc i = q" "drop (i + 2) z = quoted q s @ q # p" using e by auto
  qed
  have step: "dequote_loop q z i j = dequote_loop q (z[j := c]) n (Suc j)"
    using len zi zsi by (subst dequote_loop.simps) (auto simp: n_def)
  have "drop n (z[j := c]) = quoted q s @ q # p"
    using d1 zsi(3) Cons.prems(2) by (auto simp: n_def)
  moreover have "Suc j < n" using Cons.prems(2) by (simp add: n_def)
  ultimately obtain z' w where zw: "dequote_loop q (z[j := c]) n (Suc j) = Some z'"
    "length z' = length z" "z' = take (Suc j) (z[j := c]) @ s @ 0 # w"
    using Cons.IH [of n "z[j := c]" "Suc j"] by auto
  have "take (Suc j) (z[j := c]) = take j z @ [c]"
    using j by (simp add: take_Suc_conv_app_nth)
  then show ?case using step zw by auto
qed

lemma dequote_quoted:
  assumes "sqlite3Isquote o'" "q = (if o' = 91 then 93 else o')" "p \<noteq> []" "hd p \<noteq> q"
  shows "\<exists>z' w. sqlite3Dequote (Some (o' # quoted q s @ q # p)) = Some (Some z')
     \<and> z' = s @ 0 # w \<and> length z' = length (o' # quoted q s @ q # p)"
proof -
  have "drop 1 (o' # quoted q s @ q # p) = quoted q s @ q # p" by simp
  then obtain z' w where "dequote_loop q (o' # quoted q s @ q # p) 1 0 = Some z'"
    "length z' = length (o' # quoted q s @ q # p)" "z' = take 0 (o' # quoted q s @ q # p) @ s @ 0 # w"
    using dequote_loop_spec [OF assms(3,4), of 1 "o' # quoted q s @ q # p" s 0] by auto
  then show ?thesis using assms(1,2) by (simp add: sqlite3Dequote_def rd_def)
qed

text \<open>On a token without an inner quote the two routines agree.\<close>

lemma token_has_quote_take:
  "n \<le> length z \<Longrightarrow> token_has_quote z n = Some (\<exists>c \<in> set (take n z). sqlite3Isquote c)"
  by (induction z n rule: token_has_quote.induct) auto

lemma quoted_plain: "q \<notin> set s \<Longrightarrow> quoted q s = s"
  by (induction q s rule: quoted.induct) auto

lemma set_quoted: "set (quoted q s) = set s"
  by (induction q s rule: quoted.induct) auto

lemma dequote_token_quoted:
  assumes "sqlite3Isquote o'"
  shows "sqlite3DequoteToken (o' # quoted q s @ q # p) (length (quoted q s) + 2)
    = Some (if \<exists>c \<in> set s. sqlite3Isquote c then (o' # quoted q s @ q # p, length (quoted q s) + 2)
            else (quoted q s @ q # p, length (quoted q s)))"
proof -
  have "token_has_quote (quoted q s @ q # p) (length (quoted q s)) = Some (\<exists>c \<in> set s. sqlite3Isquote c)"
    by (simp add: token_has_quote_take set_quoted)
  then show ?thesis using assms by (simp add: sqlite3DequoteToken_def)
qed

subsection \<open>Properties\<close>

text \<open>C34: comparing two names always returns; the result is zero, negative or positive exactly as the
  lower-cased names are equal, in lexicographic order or in the opposite order. So it is a total preorder
  on names, and names that compare equal have the same hash.\<close>

theorem stricmp_order:
  assumes "0 \<notin> set s" "0 \<notin> set t"
  shows "\<exists>r. sqlite3_stricmp (Some (s @ 0 # p)) (Some (t @ 0 # q)) = Some r
    \<and> (r = 0 \<longleftrightarrow> lower s = lower t) \<and> (r < 0 \<longleftrightarrow> lower s < lower t)
    \<and> (r = 0 \<longrightarrow> sqlite3StrIHash (Some (s @ 0 # p)) = sqlite3StrIHash (Some (t @ 0 # q)))"
proof -
  obtain r where r: "sqlite3StrICmp (s @ 0 # p) (t @ 0 # q) = Some r"
      "r = 0 \<longleftrightarrow> lower s = lower t" "r < 0 \<longleftrightarrow> lower s < lower t"
    using stricmp_spec [OF assms, of p q] by (elim exE conjE)
  moreover have "sqlite3StrIHash (Some (s @ 0 # p)) = sqlite3StrIHash (Some (t @ 0 # q))"
    if "lower s = lower t"
    using that assms by (simp add: sqlite3StrIHash_def strihash_spec)
  ultimately show ?thesis by (simp add: sqlite3_stricmp_def)
qed

theorem stricmp_order_witness:
  "\<exists>r. sqlite3_stricmp (Some ([65, 98] @ 0 # [])) (Some ([97, 66, 67] @ 0 # [])) = Some r \<and> r < 0"
proof -
  have "\<exists>r. sqlite3_stricmp (Some ([65, 98] @ 0 # [])) (Some ([97, 66, 67] @ 0 # [])) = Some r
    \<and> (r = 0 \<longleftrightarrow> lower [65, 98] = lower [97, 66, 67]) \<and> (r < 0 \<longleftrightarrow> lower [65, 98] < lower [97, 66, 67])
    \<and> (r = 0 \<longrightarrow> sqlite3StrIHash (Some ([65, 98] @ 0 # [])) = sqlite3StrIHash (Some ([97, 66, 67] @ 0 # [])))"
    by (rule stricmp_order) simp_all
  moreover have "lower [65, 98] < lower [97, 66, 67]" by (simp add: lower_table)
  ultimately show ?thesis by (elim exE conjE) auto
qed

text \<open>a comparison limited to \<open>n\<close> bytes orders the first \<open>n\<close> bytes of the two names, and a limit
  past both ends is the whole comparison.\<close>

theorem strnicmp_order:
  assumes "0 \<notin> set s" "0 \<notin> set t"
  shows "\<exists>r. sqlite3_strnicmp (Some (s @ 0 # p)) (Some (t @ 0 # q)) (int n) = Some r
    \<and> (r = 0 \<longleftrightarrow> lower (take n s) = lower (take n t))
    \<and> (r < 0 \<longleftrightarrow> lower (take n s) < lower (take n t))"
  using strnicmp_prefix [OF assms, of n p q] by (simp add: sqlite3_strnicmp_def)

theorem strnicmp_order_witness:
  "sqlite3_strnicmp (Some ([65, 98] @ 0 # [])) (Some ([97, 66, 67] @ 0 # [])) (int 2) = Some 0"
proof -
  have "\<exists>r. sqlite3_strnicmp (Some ([65, 98] @ 0 # [])) (Some ([97, 66, 67] @ 0 # [])) (int 2) = Some r
    \<and> (r = 0 \<longleftrightarrow> lower (take 2 [65, 98]) = lower (take 2 [97, 66, 67]))
    \<and> (r < 0 \<longleftrightarrow> lower (take 2 [65, 98]) < lower (take 2 [97, 66, 67]))"
    by (rule strnicmp_order) simp_all
  moreover have "lower (take 2 [65, 98]) = lower (take 2 [97, 66, 67])" by (simp add: lower_table)
  ultimately show ?thesis by (elim exE conjE) auto
qed

text \<open>C20: removing the quotes in place undoes SQL quoting for each of the four quote styles, stays inside
  the buffer and terminates the result. The token shortcut, applied to the same quoted text, leaves the token alone if a character of the
  name is an opening quote, and else moves the pointer past the opening quote and yields the same name. This holds for every token:
  a token in brackets ends at its first closing bracket, so that its name has none.\<close>

theorem dequote_roundtrip:
  assumes "sqlite3Isquote o'" "q = (if o' = 91 then 93 else o')" "0 \<notin> set s"
  shows "\<exists>z'. sqlite3Dequote (Some (o' # quoted q s @ q # 0 # p)) = Some (Some z')
     \<and> cstr z' = s \<and> length z' = length (o' # quoted q s @ q # 0 # p)
     \<and> (q = 93 \<and> 93 \<in> set s
        \<or> (if \<exists>c \<in> set s. sqlite3Isquote c
           then sqlite3DequoteToken (o' # quoted q s @ q # 0 # p) (length (quoted q s) + 2)
              = Some (o' # quoted q s @ q # 0 # p, length (quoted q s) + 2)
           else sqlite3DequoteToken (o' # quoted q s @ q # 0 # p) (length (quoted q s) + 2)
              = Some (quoted q s @ q # 0 # p, length s)
             \<and> take (length s) (quoted q s @ q # 0 # p) = cstr z'))"
proof -
  have "q \<noteq> 0" using assms(1,2) by (auto simp: sqlite3Isquote_iff)
  then have "\<exists>z' w. sqlite3Dequote (Some (o' # quoted q s @ q # 0 # p)) = Some (Some z')
     \<and> z' = s @ 0 # w \<and> length z' = length (o' # quoted q s @ q # 0 # p)"
    using assms by (intro dequote_quoted) auto
  then obtain z' w where z: "sqlite3Dequote (Some (o' # quoted q s @ q # 0 # p)) = Some (Some z')"
    "z' = s @ 0 # w" "length z' = length (o' # quoted q s @ q # 0 # p)" by (elim exE conjE)
  have c: "cstr z' = s" using z(2) assms(3) by simp
  have plain: "quoted q s = s" if "\<not> (q = 93 \<and> 93 \<in> set s)" "\<forall>c \<in> set s. \<not> sqlite3Isquote c"
    using that assms(1,2) by (intro quoted_plain) (auto split: if_splits)
  note token = dequote_token_quoted [OF assms(1), of q s "0 # p"]
  show ?thesis
  proof (cases "q = 93 \<and> 93 \<in> set s \<or> (\<exists>c \<in> set s. sqlite3Isquote c)")
    case True
    then show ?thesis using z(1,3) c token by (intro exI [of _ z']) auto
  next
    case False
    then have "quoted q s = s" using plain by blast
    then show ?thesis using False z(1,3) c token by (intro exI [of _ z']) simp
  qed
qed

theorem dequote_roundtrip_witness:
  "\<exists>z'. sqlite3Dequote (Some (91 # quoted 93 [97, 32, 98] @ 93 # 0 # [])) = Some (Some z')
     \<and> cstr z' = [97, 32, 98]
     \<and> sqlite3DequoteToken (91 # quoted 93 [97, 32, 98] @ 93 # 0 # []) (length [91, 97, 32, 98, 93 :: u8])
         = Some ([97, 32, 98, 93, 0], length [97, 32, 98 :: u8])"
proof -
  have "\<exists>z'. sqlite3Dequote (Some (91 # quoted 93 [97, 32, 98] @ 93 # 0 # [])) = Some (Some z')
     \<and> cstr z' = [97, 32, 98] \<and> length z' = length (91 # quoted 93 [97, 32, 98] @ 93 # 0 # [])
     \<and> ((93 :: u8) = 93 \<and> 93 \<in> set [97, 32, 98 :: u8]
        \<or> (if \<exists>c \<in> set [97, 32, 98]. sqlite3Isquote c
           then sqlite3DequoteToken (91 # quoted 93 [97, 32, 98] @ 93 # 0 # []) (length (quoted 93 [97, 32, 98]) + 2)
              = Some (91 # quoted 93 [97, 32, 98] @ 93 # 0 # [], length (quoted 93 [97, 32, 98]) + 2)
           else sqlite3DequoteToken (91 # quoted 93 [97, 32, 98] @ 93 # 0 # []) (length (quoted 93 [97, 32, 98]) + 2)
              = Some (quoted 93 [97, 32, 98] @ 93 # 0 # [], length [97, 32, 98 :: u8])
             \<and> take (length [97, 32, 98 :: u8]) (quoted 93 [97, 32, 98] @ 93 # 0 # []) = cstr z'))"
    by (rule dequote_roundtrip) (simp_all add: sqlite3Isquote_iff)
  then show ?thesis by (elim exE conjE) (simp add: sqlite3Isquote_iff)
qed

end
