(* ===== verification/Int_Arith.thy ===== *)
theory Int_Arith
  imports Sqlite_Prelude
begin

unbundle bit_operations_syntax

text \<open>
  The integer arithmetic of \<^verbatim>\<open>util.c\<close>: addition, subtraction and multiplication that report overflow,
  the absolute value of a 32-bit integer, and the logarithmic estimates of the query planner. A signed
  C operation is an operation on \<open>int\<close> whose result is \<open>None\<close> outside its type (undefined in C), so a
  theorem with a \<open>Some\<close> result also shows that no intermediate value overflows.
\<close>

subsection \<open>Signed C arithmetic\<close>

abbreviation (input) LARGEST_INT64 :: int where
  "LARGEST_INT64 \<equiv> 9223372036854775807"

abbreviation (input) SMALLEST_INT64 :: int where
  "SMALLEST_INT64 \<equiv> - 9223372036854775808"

definition i64_ok :: "int \<Rightarrow> bool" where
  "i64_ok v \<longleftrightarrow> SMALLEST_INT64 \<le> v \<and> v \<le> LARGEST_INT64"

definition i64 :: "int \<Rightarrow> int option" where
  "i64 v = (if i64_ok v then Some v else None)"

text \<open>C division truncates towards zero, and has no result for a zero divisor.\<close>

definition c_div :: "int \<Rightarrow> int \<Rightarrow> int" where
  "c_div a b = sgn a * sgn b * (\<bar>a\<bar> div \<bar>b\<bar>)"

definition i64_div :: "int \<Rightarrow> int \<Rightarrow> int option" where
  "i64_div a b = (if b = 0 then None else i64 (c_div a b))"

subsection \<open>Definitions\<close>

text \<open>Each routine returns its result code and the new value of \<open>*pA\<close>.\<close>

definition sqlite3AddInt64 :: "int \<Rightarrow> int \<Rightarrow> (nat \<times> int) option" where
  "sqlite3AddInt64 iA iB =
     (if iB \<ge> 0 then do {
        d \<leftarrow> if iA > 0 then map_option (\<lambda>l. l < iB) (i64 (LARGEST_INT64 - iA)) else Some False;
        if d then Some (1, iA) else map_option (Pair 0) (i64 (iA + iB))
      } else do {
        d \<leftarrow> if iA < 0 then do {
               s \<leftarrow> i64 (iA + LARGEST_INT64);
               m \<leftarrow> i64 (- s);
               b \<leftarrow> i64 (iB + 1);
               Some (m > b)
             } else Some False;
        if d then Some (1, iA) else map_option (Pair 0) (i64 (iA + iB))
      })"

definition sqlite3SubInt64 :: "int \<Rightarrow> int \<Rightarrow> (nat \<times> int) option" where
  "sqlite3SubInt64 pA iB =
     (if iB = SMALLEST_INT64 then
        if pA \<ge> 0 then Some (1, pA) else map_option (Pair 0) (i64 (pA - iB))
      else do {
        m \<leftarrow> i64 (- iB);
        sqlite3AddInt64 pA m
      })"

definition sqlite3MulInt64 :: "int \<Rightarrow> int \<Rightarrow> (nat \<times> int) option" where
  "sqlite3MulInt64 iA iB = do {
     ovf \<leftarrow> if iB > 0 then do {
              hi \<leftarrow> i64_div LARGEST_INT64 iB;
              lo \<leftarrow> i64_div SMALLEST_INT64 iB;
              Some (iA > hi \<or> iA < lo)
            } else if iB < 0 then
              if iA > 0 then do {
                lo \<leftarrow> i64_div SMALLEST_INT64 iA;
                Some (iB < lo)
              } else if iA < 0 then
                if iB = SMALLEST_INT64 then Some True
                else if iA = SMALLEST_INT64 then Some True
                else do {
                  a \<leftarrow> i64 (- iA);
                  b \<leftarrow> i64 (- iB);
                  hi \<leftarrow> i64_div LARGEST_INT64 b;
                  Some (a > hi)
                }
              else Some False
            else Some False;
     if ovf then Some (1, iA) else map_option (Pair 0) (i64 (iA * iB))
   }"

definition sqlite3AbsInt32 :: "int \<Rightarrow> int" where
  "sqlite3AbsInt32 x =
     (if x \<ge> 0 then x else if x = -2147483648 then 2147483647 else - x)"

text \<open>The other branch of the conditional compilation is a call of a compiler builtin and nothing else. The
  definitions state what the compiler documents of it: it stores the exact
  result reduced to 64 bits and returns whether it had to be reduced.\<close>

definition wrap64 :: "int \<Rightarrow> int" where
  "wrap64 v = (v + 9223372036854775808) mod 18446744073709551616 - 9223372036854775808"

definition sqlite3AddInt64_builtin :: "int \<Rightarrow> int \<Rightarrow> nat \<times> int" where
  "sqlite3AddInt64_builtin pA iB = (if i64_ok (pA + iB) then 0 else 1, wrap64 (pA + iB))"

definition sqlite3SubInt64_builtin :: "int \<Rightarrow> int \<Rightarrow> nat \<times> int" where
  "sqlite3SubInt64_builtin pA iB = (if i64_ok (pA - iB) then 0 else 1, wrap64 (pA - iB))"

definition sqlite3MulInt64_builtin :: "int \<Rightarrow> int \<Rightarrow> nat \<times> int" where
  "sqlite3MulInt64_builtin pA iB = (if i64_ok (pA * iB) then 0 else 1, wrap64 (pA * iB))"

text \<open>The contract of the three routines: the exact result where it fits; otherwise the value is left alone
  and 1 is returned.\<close>

definition overflow_spec :: "int \<Rightarrow> int \<Rightarrow> (nat \<times> int) option" where
  "overflow_spec a v = Some (if i64_ok v then (0, v) else (1, a))"

subsection \<open>Logarithmic estimates\<close>

text \<open>A \<^verbatim>\<open>LogEst\<close> is a 16-bit integer that approximates ten times a binary logarithm.\<close>

definition wrap16 :: "int \<Rightarrow> int" where
  "wrap16 v = (v + 32768) mod 65536 - 32768"

definition LogEstAdd_x :: "int list" where
  "LogEstAdd_x =
     [10, 10, 9, 9, 8, 8, 7, 7, 7, 6, 6, 6, 5, 5, 5, 4, 4, 4, 4, 3, 3, 3, 3, 3, 3,
      2, 2, 2, 2, 2, 2, 2]"

definition sqlite3LogEstAdd :: "int \<Rightarrow> int \<Rightarrow> int" where
  "sqlite3LogEstAdd a b =
     (if a \<ge> b then
        if a > b + 49 then a
        else if a > b + 31 then wrap16 (a + 1)
        else wrap16 (a + LogEstAdd_x ! nat (a - b))
      else
        if b > a + 49 then b
        else if b > a + 31 then wrap16 (b + 1)
        else wrap16 (b + LogEstAdd_x ! nat (b - a)))"

definition LogEst_a :: "int list" where
  "LogEst_a = [0, 2, 3, 5, 6, 7, 8, 9]"

text \<open>The three loops of the portable code; each returns the new \<open>(x, y)\<close>. A loop that starts with
  \<open>x = 0\<close> in \<open>logest_up\<close> would not end; the guard \<open>x < 2\<close> of the caller excludes it.\<close>

partial_function (option) logest_up :: "u64 \<Rightarrow> int \<Rightarrow> (u64 \<times> int) option" where
  "logest_up x y = (if x < 8 then logest_up (push_bit 1 x) (y - 10) else Some (x, y))"

function logest_down4 :: "u64 \<Rightarrow> int \<Rightarrow> u64 \<times> int" where
  "logest_down4 x y = (if x > 255 then logest_down4 (drop_bit 4 x) (y + 40) else (x, y))"
  by pat_completeness auto
termination logest_down4
  by (relation "measure (\<lambda>(x, y). unat x)")
    (auto simp: drop_bit_eq_div unat_div word_less_nat_alt)

function logest_down1 :: "u64 \<Rightarrow> int \<Rightarrow> u64 \<times> int" where
  "logest_down1 x y = (if x > 15 then logest_down1 (drop_bit 1 x) (y + 10) else (x, y))"
  by pat_completeness auto
termination logest_down1
  by (relation "measure (\<lambda>(x, y). unat x)")
    (auto simp: drop_bit_eq_div unat_div word_less_nat_alt)

declare logest_down4.simps [simp del] logest_down1.simps [simp del]

definition sqlite3LogEst :: "u64 \<Rightarrow> int option" where
  "sqlite3LogEst x =
     (if x < 8 \<and> x < 2 then Some 0
      else do {
        (x', y) \<leftarrow> if x < 8 then logest_up x 40
                  else Some (let (x1, y1) = logest_down4 x 40 in logest_down1 x1 y1);
        Some (LogEst_a ! unat (x' AND 7) + y - 10)
      })"

text \<open>The branch for compilers with \<^verbatim>\<open>__builtin_clzll\<close>, the number of leading zero bits.\<close>

function clzll_from :: "u64 \<Rightarrow> nat \<Rightarrow> nat" where
  "clzll_from x i = (if i < 64 \<and> \<not> bit x (63 - i) then clzll_from x (Suc i) else i)"
  by pat_completeness auto
termination clzll_from by (relation "measure (\<lambda>(x, i). 64 - i)") auto

declare clzll_from.simps [simp del]

definition sqlite3LogEst_clz :: "u64 \<Rightarrow> int option" where
  "sqlite3LogEst_clz x =
     (if x < 8 \<and> x < 2 then Some 0
      else do {
        (x', y) \<leftarrow> if x < 8 then logest_up x 40
                  else (let i = 60 - int (clzll_from x 0) in
                        if i < 0 then None else Some (drop_bit (nat i) x, 40 + i * 10));
        Some (LogEst_a ! unat (x' AND 7) + y - 10)
      })"

text \<open>Shifts by 64 bits or more are undefined in C.\<close>

definition sqlite3LogEstToInt :: "int \<Rightarrow> u64 option" where
  "sqlite3LogEstToInt x0 =
     (let n0 = word_of_int (x0 - 10 * c_div x0 10) :: u64;
          x = c_div x0 10;
          n = (if n0 \<ge> 5 then n0 - 2 else if n0 \<ge> 1 then n0 - 1 else n0)
      in if x > 60 then Some 9223372036854775807
         else if x \<ge> 3 then Some (push_bit (nat (x - 3)) (n + 8))
         else if 3 - x < 64 then Some (drop_bit (nat (3 - x)) (n + 8)) else None)"

subsection \<open>Overflow is detected exactly\<close>

lemma wrap64_id: "i64_ok v \<Longrightarrow> wrap64 v = v"
  by (simp add: wrap64_def i64_ok_def)

lemma add_overflow:
  "\<lbrakk>i64_ok a; i64_ok b\<rbrakk> \<Longrightarrow> sqlite3AddInt64 a b = overflow_spec a (a + b)"
  by (auto simp: sqlite3AddInt64_def overflow_spec_def i64_def i64_ok_def)

lemma sub_overflow:
  "\<lbrakk>i64_ok a; i64_ok b\<rbrakk> \<Longrightarrow> sqlite3SubInt64 a b = overflow_spec a (a - b)"
  by (auto simp: sqlite3SubInt64_def add_overflow overflow_spec_def i64_def i64_ok_def)

lemma c_div_pos: "0 \<le> a \<Longrightarrow> 0 < b \<Longrightarrow> c_div a b = a div b"
  by (cases "a = 0") (auto simp: c_div_def)

lemma c_div_neg: "a < 0 \<Longrightarrow> 0 < b \<Longrightarrow> c_div a b = - ((- a) div b)"
  by (auto simp: c_div_def)

lemma div_bound: "0 \<le> (n :: int) \<Longrightarrow> 0 < b \<Longrightarrow> 0 \<le> n div b \<and> n div b \<le> n"
  by (metis pos_imp_zdiv_nonneg_iff div_by_1 zdiv_mono2 zless_imp_add1_zle add_0 zero_less_one)

lemma i64_div_largest: "0 < b \<Longrightarrow> i64_div LARGEST_INT64 b = Some (LARGEST_INT64 div b)"
  using div_bound [of LARGEST_INT64 b] by (simp add: i64_div_def c_div_pos i64_def i64_ok_def)

lemma i64_div_smallest: "0 < b \<Longrightarrow> i64_div SMALLEST_INT64 b = Some (- (9223372036854775808 div b))"
  using div_bound [of 9223372036854775808 b] by (simp add: i64_div_def c_div_neg i64_def i64_ok_def)

lemma gt_div_iff:
  assumes "0 < (b :: int)"
  shows "n div b < a \<longleftrightarrow> n < a * b"
proof -
  have m: "n = n div b * b + n mod b" "0 \<le> n mod b" "n mod b < b" using assms by simp_all
  show ?thesis
  proof
    assume "n div b < a"
    then have "(n div b + 1) * b \<le> a * b" using assms by (intro mult_right_mono) auto
    then have "n div b * b + b \<le> a * b" by (simp add: algebra_simps)
    then show "n < a * b" using m by linarith
  next
    assume "n < a * b"
    then have "n div b * b < a * b" using m by linarith
    then show "n div b < a" using assms by simp
  qed
qed

lemma lt_neg_div_iff: "0 < (b :: int) \<Longrightarrow> a < - (n div b) \<longleftrightarrow> a * b < - n"
  using gt_div_iff [of b n "- a"] by auto

lemma mul_overflow:
  assumes "i64_ok a" "i64_ok b"
  shows "sqlite3MulInt64 a b = overflow_spec a (a * b)"
proof -
  consider "0 < b" | "b < 0" "0 < a" | "b < 0" "a < 0" | "a = 0 \<or> b = 0" by linarith
  then show ?thesis
  proof cases
    case 1
    then show ?thesis
      by (auto simp: sqlite3MulInt64_def i64_div_largest i64_div_smallest gt_div_iff lt_neg_div_iff
          overflow_spec_def i64_def i64_ok_def)
  next
    case 2
    then have "a * b < 0" by (simp add: mult_pos_neg)
    then show ?thesis using 2
      by (auto simp: sqlite3MulInt64_def i64_div_smallest lt_neg_div_iff overflow_spec_def i64_def
          i64_ok_def mult.commute [of b a])
  next
    case 3
    then have pos: "0 < a * b" by (simp add: mult_neg_neg)
    have big: "\<not> i64_ok (a * b)" if "a = SMALLEST_INT64 \<or> b = SMALLEST_INT64"
      using that 3 by (auto simp: i64_ok_def)
    have eq: "(- a) * (- b) = a * b" by simp
    have "a \<noteq> SMALLEST_INT64 \<Longrightarrow> b \<noteq> SMALLEST_INT64 \<Longrightarrow> i64_ok (- a) \<and> i64_ok (- b)"
      using assms 3 by (auto simp: i64_ok_def)
    then show ?thesis using 3 big pos eq
      by (auto simp: sqlite3MulInt64_def i64_div_largest gt_div_iff overflow_spec_def i64_def)
         (auto simp: i64_ok_def)
  next
    case 4
    then show ?thesis
      by (auto simp: sqlite3MulInt64_def i64_div_largest i64_div_smallest gt_div_iff lt_neg_div_iff
          overflow_spec_def i64_def i64_ok_def)
  qed
qed

subsection \<open>The estimate of an integer\<close>

lemma and_7: "unat ((x :: u64) AND 7) = unat x mod 8"
proof -
  have "x AND 7 = take_bit 3 x" by (simp add: take_bit_eq_mask mask_eq_exp_minus_1)
  then show ?thesis by (simp add: take_bit_eq_mod unat_mod)
qed

lemma logest_down1_spec:
  "\<lbrakk>2 ^ (3 + k) \<le> unat x; unat x < 2 ^ (4 + k)\<rbrakk> \<Longrightarrow>
   logest_down1 x y = (drop_bit k x, y + 10 * int k)"
proof (induction k arbitrary: x y)
  case 0
  then show ?case by (subst logest_down1.simps) (simp add: word_less_nat_alt)
next
  case (Suc k)
  have "16 * (2 :: nat) ^ k \<le> unat x" using Suc.prems by (simp add: power_add)
  moreover have "(1 :: nat) \<le> 2 ^ k" by simp
  ultimately have "16 \<le> unat x" by linarith
  then have big: "15 < x" by (simp add: word_less_nat_alt)
  have h: "unat (drop_bit 1 x) = unat x div 2" by (simp add: drop_bit_eq_div unat_div)
  have "2 ^ (3 + k) \<le> unat (drop_bit 1 x)" "unat (drop_bit 1 x) < 2 ^ (4 + k)"
    using Suc.prems unfolding h by (simp_all add: power_add less_mult_imp_div_less)
  then have "logest_down1 (drop_bit 1 x) (y + 10) = (drop_bit k (drop_bit 1 x), y + 10 + 10 * int k)"
    by (rule Suc.IH)
  then show ?case using big by (subst logest_down1.simps) (simp add: drop_bit_drop_bit)
qed

lemma logest_down4_spec:
  "\<lbrakk>2 ^ (3 + k) \<le> unat x; unat x < 2 ^ (4 + k)\<rbrakk> \<Longrightarrow>
   \<exists>m. 4 * m \<le> k \<and> logest_down4 x y = (drop_bit (4 * m) x, y + 40 * int m)"
proof (induction k arbitrary: x y rule: less_induct)
  case (less k)
  show ?case
  proof (cases "255 < x")
    case True
    then have b: "256 \<le> unat x" by (simp add: word_less_nat_alt)
    have k4: "4 < k"
    proof (rule ccontr)
      assume "\<not> 4 < k"
      then have "(2 :: nat) ^ (4 + k) \<le> 2 ^ 8" by (intro power_increasing) auto
      then show False using less.prems b by simp
    qed
    have h: "unat (drop_bit 4 x) = unat x div 16" by (simp add: drop_bit_eq_div unat_div)
    have pk: "(2 :: nat) ^ k = 16 * 2 ^ (k - 4)"
      using k4 power_add [of "2 :: nat" 4 "k - 4"] by simp
    have "2 ^ (3 + (k - 4)) \<le> unat (drop_bit 4 x)" "unat (drop_bit 4 x) < 2 ^ (4 + (k - 4))"
      using less.prems unfolding h by (simp_all add: power_add pk less_mult_imp_div_less)
    then obtain m where m: "4 * m \<le> k - 4"
      "logest_down4 (drop_bit 4 x) (y + 40) = (drop_bit (4 * m) (drop_bit 4 x), y + 40 + 40 * int m)"
      using less.IH [of "k - 4" "drop_bit 4 x" "y + 40"] k4 by auto
    show ?thesis
      using m True k4 by (subst logest_down4.simps, intro exI [of _ "Suc m"])
        (auto simp: drop_bit_drop_bit add.commute)
  next
    case False
    then show ?thesis by (subst logest_down4.simps, intro exI [of _ 0]) simp
  qed
qed

lemma logest_down_spec:
  assumes "2 ^ (3 + k) \<le> unat x" "unat x < 2 ^ (4 + k)"
  shows "(let (x1, y1) = logest_down4 x y in logest_down1 x1 y1) = (drop_bit k x, y + 10 * int k)"
proof -
  obtain m where m: "4 * m \<le> k" "logest_down4 x y = (drop_bit (4 * m) x, y + 40 * int m)"
    using logest_down4_spec [OF assms] by auto
  define n where "n = k - 4 * m"
  have k: "k = 4 * m + n" using m(1) by (simp add: n_def)
  have h: "unat (drop_bit (4 * m) x) = unat x div 2 ^ (4 * m)"
    unfolding unat_drop_bit_eq by (simp add: drop_bit_eq_div)
  have "2 ^ (3 + n) \<le> unat (drop_bit (4 * m) x)" "unat (drop_bit (4 * m) x) < 2 ^ (4 + n)"
    using assms unfolding h k
    by (simp_all add: power_add less_mult_imp_div_less div_le_mono less_eq_div_iff_mult_less_eq ac_simps)
  then have "logest_down1 (drop_bit (4 * m) x) (y + 40 * int m)
      = (drop_bit n (drop_bit (4 * m) x), y + 40 * int m + 10 * int n)"
    by (rule logest_down1_spec)
  then show ?thesis using m(2) by (simp add: k drop_bit_drop_bit add.commute)
qed

lemma logest_up_small:
  "logest_up 2 40 = Some (8, 20)" "logest_up 3 40 = Some (12, 20)" "logest_up 4 40 = Some (8, 30)"
  "logest_up 5 40 = Some (10, 30)" "logest_up 6 40 = Some (12, 30)" "logest_up 7 40 = Some (14, 30)"
  by (simp_all add: logest_up.simps)

lemma bit_u64: "bit (x :: u64) n \<longleftrightarrow> odd (unat x div 2 ^ n)"
  using bit_unsigned_iff [where 'a = nat, of x n] bit_iff_odd [of "unat x" n] by simp

lemma clzll_from_spec:
  assumes "2 ^ j \<le> unat x" "unat x < 2 ^ Suc j" "j < 64"
  shows "i \<le> 63 - j \<Longrightarrow> clzll_from x i = 63 - j"
proof (induction "63 - j - i" arbitrary: i)
  case 0
  have "unat x div 2 ^ j = 1" using assms by (intro div_nat_eqI) auto
  then have "bit x j" using assms(3) by (simp add: bit_u64)
  moreover have "i = 63 - j" using 0 by simp
  ultimately show ?case using assms(3) by (subst clzll_from.simps) auto
next
  case (Suc d)
  have "(2 :: nat) ^ Suc j \<le> 2 ^ (63 - i)" using Suc.hyps(2) by (intro power_increasing) auto
  then have "unat x div 2 ^ (63 - i) = 0" using assms(2) by simp
  then have "\<not> bit x (63 - i)" by (simp add: bit_u64)
  moreover have "clzll_from x (Suc i) = 63 - j" using Suc.hyps by (intro Suc.hyps(1)) auto
  ultimately show ?case using Suc.hyps(2) by (subst clzll_from.simps) auto
qed

lemma clz_branch:
  assumes "2 ^ (3 + k) \<le> unat x" "unat x < 2 ^ (4 + k)"
  shows "(let i = 60 - int (clzll_from x 0) in
            if i < 0 then None else Some (drop_bit (nat i) x, 40 + i * 10))
       = Some (drop_bit k x, 40 + 10 * int k)"
proof -
  have "k < 61"
  proof (rule ccontr)
    assume "\<not> k < 61"
    then have "(2 :: nat) ^ 64 \<le> 2 ^ (3 + k)" by (intro power_increasing) auto
    then show False using assms(1) unat_bounds(4) [of x] by simp
  qed
  then have "clzll_from x 0 = 63 - (3 + k)"
    using assms by (intro clzll_from_spec) auto
  then have "60 - int (clzll_from x 0) = int k" using \<open>k < 61\<close> by simp
  then show ?thesis by (simp add: Let_def)
qed

lemma small_u64_cases:
  "\<lbrakk>x < 8; \<not> x < (2 :: u64)\<rbrakk> \<Longrightarrow> x = 2 \<or> x = 3 \<or> x = 4 \<or> x = 5 \<or> x = 6 \<or> x = 7"
  by (auto simp: word_less_nat_alt word_unat_eq_iff)

lemma ex_log2: "8 \<le> n \<Longrightarrow> \<exists>k. 2 ^ (3 + k) \<le> n \<and> n < (2 :: nat) ^ (4 + k)"
proof (induction n rule: less_induct)
  case (less n)
  show ?case
  proof (cases "n < 16")
    case True
    then show ?thesis using less.prems by (intro exI [of _ 0]) simp
  next
    case False
    then have "\<exists>k. 2 ^ (3 + k) \<le> n div 2 \<and> n div 2 < (2 :: nat) ^ (4 + k)"
      by (intro less.IH) auto
    then obtain k where "2 ^ (3 + k) \<le> n div 2" "n div 2 < (2 :: nat) ^ (4 + k)" by (elim exE conjE)
    then have "2 ^ (3 + Suc k) \<le> n \<and> n < (2 :: nat) ^ (4 + Suc k)"
      by (simp add: power_add) linarith
    then show ?thesis by (rule exI)
  qed
qed

lemma logest_clz_eq: "sqlite3LogEst_clz x = sqlite3LogEst x"
proof (cases "x < 8")
  case False
  then have "8 \<le> unat x" by (simp add: word_less_nat_alt)
  then obtain k where "2 ^ (3 + k) \<le> unat x" "unat x < 2 ^ (4 + k)" using ex_log2 by blast
  then show ?thesis using False
    by (simp add: sqlite3LogEst_clz_def sqlite3LogEst_def clz_branch logest_down_spec)
qed (simp add: sqlite3LogEst_clz_def sqlite3LogEst_def)

text \<open>One description for every argument above one: the exponent \<open>i\<close>, and the three bits after the leading
  one as the index into the table.\<close>

lemma logest_char:
  assumes "2 ^ i \<le> unat x" "unat x < 2 ^ Suc i" "1 \<le> i"
  shows "sqlite3LogEst x = Some (10 * int i + LogEst_a ! (8 * unat x div 2 ^ i - 8))"
proof (cases "x < 8")
  case True
  have i: "i < 3"
  proof (rule ccontr)
    assume "\<not> i < 3"
    then have "(2 :: nat) ^ 3 \<le> 2 ^ i" by (intro power_increasing) auto
    then show False using assms(1) True by (simp add: word_less_nat_alt)
  qed
  have "(2 :: nat) ^ 1 \<le> 2 ^ i" using assms(3) by (intro power_increasing) auto
  then have "\<not> x < 2" using assms(1) by (simp add: word_less_nat_alt)
  then consider "x = 2" | "x = 3" | "x = 4" | "x = 5" | "x = 6" | "x = 7"
    using small_u64_cases [OF True] by blast
  moreover have "i = 1 \<or> i = 2" using i assms(3) by auto
  ultimately show ?thesis using assms(1,2)
    by cases (auto simp: sqlite3LogEst_def logest_up_small LogEst_a_def)
next
  case False
  then have x8: "8 \<le> unat x" by (simp add: word_less_nat_alt)
  have "3 \<le> i"
  proof (rule ccontr)
    assume "\<not> 3 \<le> i"
    then have "(2 :: nat) ^ Suc i \<le> 2 ^ 3" by (intro power_increasing) auto
    then show False using assms(2) x8 by simp
  qed
  then obtain k where k: "i = 3 + k" by (metis le_Suc_ex)
  have d: "unat (drop_bit k x) = unat x div 2 ^ k"
    unfolding unat_drop_bit_eq by (simp add: drop_bit_eq_div)
  have r: "unat x div 2 ^ k < 16" "8 \<le> unat x div 2 ^ k"
    using assms(1,2) unfolding k
    by (simp_all add: power_add less_mult_imp_div_less less_eq_div_iff_mult_less_eq)
  have "8 * unat x div 2 ^ i = unat x div 2 ^ k" by (simp add: k power_add div_mult2_eq)
  moreover have "unat x div 2 ^ k mod 8 = unat x div 2 ^ k - 8"
    using r by (simp add: mod_if)
  ultimately show ?thesis using False assms(1,2) k
    by (simp add: sqlite3LogEst_def logest_down_spec and_7 d)
qed

lemma ex_floor_log2:
  assumes "2 \<le> unat (x :: u64)"
  shows "\<exists>i f. 1 \<le> i \<and> i < 64 \<and> f < 8 \<and> 2 ^ i \<le> unat x \<and> unat x < 2 ^ Suc i
     \<and> 8 * unat x div 2 ^ i = 8 + f \<and> (8 + f) * 2 ^ i \<le> 8 * unat x \<and> 8 * unat x < (9 + f) * 2 ^ i"
proof -
  have "8 \<le> 4 * unat x" using assms by simp
  then obtain k where "2 ^ (3 + k) \<le> 4 * unat x" "4 * unat x < 2 ^ (4 + k)" using ex_log2 by blast
  then have b: "2 ^ Suc k \<le> unat x" "unat x < 2 ^ Suc (Suc k)" by (simp_all add: power_add)
  define q where "q = 8 * unat x div 2 ^ Suc k"
  have "q < 16" unfolding q_def using b(2) by (intro less_mult_imp_div_less) simp
  moreover have "8 \<le> q" unfolding q_def using b(1) by (simp add: less_eq_div_iff_mult_less_eq)
  ultimately obtain f where f: "q = 8 + f" "f < 8" by (metis le_Suc_ex nat_add_left_cancel_less numeral_Bit0)
  have "q * 2 ^ Suc k \<le> 8 * unat x" unfolding q_def by (rule div_times_less_eq_dividend)
  moreover have "8 * unat x < Suc q * 2 ^ Suc k"
    unfolding q_def using dividend_less_div_times [of "2 ^ Suc k" "8 * unat x"] by (simp add: add.commute)
  moreover have "Suc k < 64"
  proof (rule ccontr)
    assume "\<not> Suc k < 64"
    then have "(2 :: nat) ^ 64 \<le> 2 ^ Suc k" by (intro power_increasing) auto
    then show False using b(1) unat_bounds(4) [of x] by simp
  qed
  ultimately show ?thesis using b f q_def by (intro exI [of _ "Suc k"] exI [of _ f]) auto
qed

lemma less_8_cases: "f < (8 :: nat) \<longleftrightarrow> f \<in> {0, 1, 2, 3, 4, 5, 6, 7}"
  by auto

lemma LogEst_a_bounds: "f < 8 \<Longrightarrow> 0 \<le> LogEst_a ! f \<and> LogEst_a ! f \<le> 9"
  by (auto simp: less_8_cases LogEst_a_def)

lemma LogEst_a_accuracy:
  assumes "f < 8"
  shows "(9 + f) ^ 10 \<le> (2 :: nat) ^ (nat (LogEst_a ! f) + 32)"
    and "(2 :: nat) ^ (2 * nat (LogEst_a ! f) + 60) \<le> 2 * (8 + f) ^ 20"
  using assms by (auto simp: less_8_cases LogEst_a_def)

lemma LogEst_a_mono: "f \<le> g \<Longrightarrow> g < 8 \<Longrightarrow> LogEst_a ! f \<le> LogEst_a ! g"
  by (auto simp: less_8_cases LogEst_a_def) (auto simp: le_Suc_eq numeral_eq_Suc)

lemma estimate_accuracy:
  fixes n i f :: nat
  assumes "f < 8" "(8 + f) * 2 ^ i \<le> 8 * n" "8 * n < (9 + f) * 2 ^ i"
  shows "n ^ 10 < 2 ^ (10 * i + nat (LogEst_a ! f) + 2)"
    and "2 ^ (2 * (10 * i + nat (LogEst_a ! f))) \<le> 2 * n ^ 20"
proof -
  have "(8 * n) ^ 10 < ((9 + f) * 2 ^ i) ^ 10" using assms(3) by (intro power_strict_mono) auto
  also have "\<dots> = (9 + f) ^ 10 * 2 ^ (10 * i)" by (simp add: power_mult_distrib power_mult [symmetric] mult.commute)
  also have "\<dots> \<le> 2 ^ (nat (LogEst_a ! f) + 32) * 2 ^ (10 * i)"
    by (intro mult_right_mono LogEst_a_accuracy assms(1)) simp
  also have "\<dots> = 2 ^ 30 * 2 ^ (10 * i + nat (LogEst_a ! f) + 2)" by (simp add: power_add ac_simps)
  finally show "n ^ 10 < 2 ^ (10 * i + nat (LogEst_a ! f) + 2)" by (simp add: power_mult_distrib)
  have "2 ^ 60 * (2 :: nat) ^ (2 * (10 * i + nat (LogEst_a ! f)))
      = 2 ^ (2 * nat (LogEst_a ! f) + 60) * 2 ^ (20 * i)" by (simp add: power_add ac_simps)
  also have "\<dots> \<le> 2 * (8 + f) ^ 20 * 2 ^ (20 * i)"
    by (intro mult_right_mono LogEst_a_accuracy assms(1)) simp
  also have "\<dots> = 2 * ((8 + f) * 2 ^ i) ^ 20" by (simp add: power_mult_distrib power_mult [symmetric] mult.commute)
  also have "\<dots> \<le> 2 * (8 * n) ^ 20" using assms(2) by (intro mult_left_mono power_mono) auto
  also have "\<dots> = 2 ^ 60 * (2 * n ^ 20)" by (simp add: power_mult_distrib)
  finally show "2 ^ (2 * (10 * i + nat (LogEst_a ! f))) \<le> 2 * n ^ 20" by simp
qed

text \<open>Everything about the estimate of one argument.\<close>

lemma logest_cases:
  obtains (small) "unat x < 2" "sqlite3LogEst x = Some 0"
  | (large) i f where "1 \<le> i" "i < 64" "f < 8" "2 ^ i \<le> unat x" "unat x < 2 ^ Suc i"
      "(8 + f) * 2 ^ i \<le> 8 * unat x" "8 * unat x < (9 + f) * 2 ^ i"
      "sqlite3LogEst x = Some (10 * int i + LogEst_a ! f)"
proof (cases "unat x < 2")
  case True
  then show ?thesis by (intro small) (simp_all add: sqlite3LogEst_def word_less_nat_alt)
next
  case False
  obtain i f where *: "1 \<le> i" "i < 64" "f < 8" "2 ^ i \<le> unat x" "unat x < 2 ^ Suc i"
      "8 * unat x div 2 ^ i = 8 + f" "(8 + f) * 2 ^ i \<le> 8 * unat x" "8 * unat x < (9 + f) * 2 ^ i"
    using ex_floor_log2 [OF leI [OF False]] by (elim exE conjE)
  then have "sqlite3LogEst x = Some (10 * int i + LogEst_a ! f)"
    using logest_char [of i x] by simp
  then show ?thesis using * by (intro large)
qed

lemma logest_mono:
  assumes "x \<le> y" "sqlite3LogEst x = Some L" "sqlite3LogEst y = Some M"
  shows "L \<le> M"
proof (cases x rule: logest_cases)
  case small
  then show ?thesis using assms(2,3)
    by (cases y rule: logest_cases) (auto dest: LogEst_a_bounds)
next
  case x: (large i f)
  have le: "unat x \<le> unat y" using assms(1) by (simp add: word_le_nat_alt)
  show ?thesis
  proof (cases y rule: logest_cases)
    case small
    have "(2 :: nat) ^ 1 \<le> 2 ^ i" using x(1) by (intro power_increasing) auto
    then show ?thesis using small le x(4) by simp
  next
    case y: (large j g)
    have "(2 :: nat) ^ i < 2 ^ Suc j" using x(4) y(5) le by linarith
    then have "i < Suc j" by (rule power_less_imp_less_exp [rotated]) simp
    then consider "i < j" | "i = j" by linarith
    then show ?thesis
    proof cases
      case 1
      then show ?thesis using LogEst_a_bounds [OF x(3)] LogEst_a_bounds [OF y(3)] x y assms by auto
    next
      case 2
      have "(8 + f) * 2 ^ j < (9 + g) * 2 ^ j" 
        using x(6) y(7) le unfolding 2 by linarith
      then have "f \<le> g" by simp
      then show ?thesis using LogEst_a_mono [OF _ y(3)] x y 2 assms by auto
    qed
  qed
qed

lemma to_int_index:
  assumes "f < 8"
  shows "(let n0 = word_of_int (LogEst_a ! f) :: u64 in
          if n0 \<ge> 5 then n0 - 2 else if n0 \<ge> 1 then n0 - 1 else n0) = of_nat f"
  using assms by (auto simp: less_8_cases LogEst_a_def)

lemma logest_to_int_large:
  assumes "f < 8" "3 \<le> i" "i \<le> 60"
  shows "sqlite3LogEstToInt (10 * int i + LogEst_a ! f) = Some (push_bit (i - 3) (of_nat f + 8))"
proof -
  have d: "c_div (10 * int i + LogEst_a ! f) 10 = int i"
    using LogEst_a_bounds [OF assms(1)] assms(2) by (simp add: c_div_pos)
  have "nat (int i - 3) = i - 3" by simp
  then show ?thesis
    using to_int_index [OF assms(1)] assms(2,3) by (simp add: sqlite3LogEstToInt_def d Let_def)
qed

lemma unat_push_small:
  assumes "f < 8" "3 \<le> i" "i \<le> 60"
  shows "unat (push_bit (i - 3) (of_nat f + 8 :: u64)) = (8 + f) * 2 ^ (i - 3)"
proof -
  have "(2 :: nat) ^ (i - 3) \<le> 2 ^ 57" using assms by (intro power_increasing) auto
  then have b: "(8 + f) * 2 ^ (i - 3) < 16 * (2 ^ 57 :: nat)"
    using assms(1) by (intro mult_less_le_imp_less) auto
  have "push_bit (i - 3) (of_nat f + 8 :: u64) = of_nat ((8 + f) * 2 ^ (i - 3))"
    by (simp add: push_bit_eq_mult algebra_simps)
  moreover have "unat (of_nat ((8 + f) * 2 ^ (i - 3)) :: u64) = (8 + f) * 2 ^ (i - 3)"
    using b unfolding unat_of_nat by simp
  ultimately show ?thesis by simp
qed

lemma logest_to_int_small:
  "sqlite3LogEstToInt 0 = Some 1" "sqlite3LogEstToInt 10 = Some 2" "sqlite3LogEstToInt 16 = Some 3"
  "sqlite3LogEstToInt 20 = Some 4" "sqlite3LogEstToInt 23 = Some 5" "sqlite3LogEstToInt 26 = Some 6"
  "sqlite3LogEstToInt 28 = Some 7"
  by (simp_all add: sqlite3LogEstToInt_def c_div_pos Let_def)

lemma logest_small:
  "sqlite3LogEst 1 = Some 0" "sqlite3LogEst 2 = Some 10" "sqlite3LogEst 3 = Some 16"
  "sqlite3LogEst 4 = Some 20" "sqlite3LogEst 5 = Some 23" "sqlite3LogEst 6 = Some 26"
  "sqlite3LogEst 7 = Some 28"
  by (simp_all add: sqlite3LogEst_def logest_up_small LogEst_a_def)

lemma logest_inverse:
  assumes "unat x < 2 ^ 61" "sqlite3LogEst x = Some L"
  shows "\<exists>v. sqlite3LogEstToInt L = Some v \<and> sqlite3LogEst v = Some L"
proof (cases "x < 8")
  case x8: True
  show ?thesis
  proof (cases "x < 2")
    case True
    then have "sqlite3LogEst x = Some 0" using x8 by (simp add: sqlite3LogEst_def)
    then show ?thesis using assms(2) logest_to_int_small(1) logest_small(1) by auto
  next
    case False
    then show ?thesis using small_u64_cases [OF x8 False] assms(2)
      by (auto simp: logest_small logest_to_int_small)
  qed
next
  case False
  then have x8: "8 \<le> unat x" by (simp add: word_less_nat_alt)
  show ?thesis
  proof (cases x rule: logest_cases)
    case (large i f)
    have e: "(2 :: nat) ^ 3 < 2 ^ Suc i" "(2 :: nat) ^ i < 2 ^ 61" using x8 large(4,5) assms(1) by simp_all
    have "3 < Suc i" by (rule power_less_imp_less_exp [OF _ e(1)]) simp
    moreover have "i < 61" by (rule power_less_imp_less_exp [OF _ e(2)]) simp
    ultimately have i: "3 \<le> i" "i \<le> 60" by simp_all
    define v where "v = (push_bit (i - 3) (of_nat f + 8) :: u64)"
    have p: "(2 :: nat) ^ i = 8 * 2 ^ (i - 3)" using i(1) power_add [of "2 :: nat" 3 "i - 3"] by simp
    have v: "unat v = (8 + f) * 2 ^ (i - 3)" unfolding v_def using large(3) i by (rule unat_push_small)
    have "2 ^ i \<le> unat v" "unat v < 2 ^ Suc i" "8 * unat v div 2 ^ i = 8 + f"
      using large(3) by (simp_all add: v p)
    then have "sqlite3LogEst v = Some (10 * int i + LogEst_a ! f)"
      using logest_char [of i v] i by simp
    moreover have "sqlite3LogEstToInt L = Some v"
      using logest_to_int_large [OF large(3) i] large(8) assms(2) by (simp add: v_def)
    ultimately show ?thesis using large(8) assms(2) by auto
  qed (use x8 in simp)
qed

subsection \<open>Sums of estimates\<close>

lemma LogEstAdd_x_bounds: "d < 32 \<Longrightarrow> 1 \<le> LogEstAdd_x ! d \<and> LogEstAdd_x ! d \<le> 10"
proof -
  assume "d < 32"
  then have "LogEstAdd_x ! d \<in> set LogEstAdd_x" by (intro nth_mem) (simp add: LogEstAdd_x_def)
  moreover have "\<forall>v \<in> set LogEstAdd_x. 1 \<le> v \<and> v \<le> 10" by (simp add: LogEstAdd_x_def)
  ultimately show ?thesis by blast
qed

lemma wrap16_id: "\<lbrakk>-32768 \<le> v; v < 32768\<rbrakk> \<Longrightarrow> wrap16 v = v"
  by (simp add: wrap16_def)

lemma logest_add_commute: "sqlite3LogEstAdd a b = sqlite3LogEstAdd b a"
  by (simp add: sqlite3LogEstAdd_def)

lemma logest_add_bounds:
  assumes "-32768 \<le> a" "-32768 \<le> b" "a < 32758" "b < 32758"
  shows "max a b \<le> sqlite3LogEstAdd a b" "sqlite3LogEstAdd a b \<le> max a b + 10"
proof -
  have *: "max a b \<le> sqlite3LogEstAdd a b \<and> sqlite3LogEstAdd a b \<le> max a b + 10"
    if "b \<le> a" "-32768 \<le> a" "-32768 \<le> b" "a < 32758" for a b
  proof (cases "a > b + 31")
    case True
    then show ?thesis using that by (simp add: sqlite3LogEstAdd_def wrap16_id)
  next
    case False
    then have x: "1 \<le> LogEstAdd_x ! nat (a - b)" "LogEstAdd_x ! nat (a - b) \<le> 10"
      using that LogEstAdd_x_bounds [of "nat (a - b)"] by auto
    then have "wrap16 (a + LogEstAdd_x ! nat (a - b)) = a + LogEstAdd_x ! nat (a - b)"
      using that by (intro wrap16_id) auto
    then show ?thesis using False that x by (simp add: sqlite3LogEstAdd_def)
  qed
  show "max a b \<le> sqlite3LogEstAdd a b" "sqlite3LogEstAdd a b \<le> max a b + 10"
    using *[of a b] *[of b a] assms logest_add_commute [of a b] by (cases "a \<le> b", auto)+
qed

subsection \<open>Properties\<close>

text \<open>C16: for every pair of 64-bit integers the portable code of addition, subtraction and multiplication
  never overflows itself, stores the exact result when it fits and otherwise reports the overflow and
  leaves the operand alone; the compiler builtins report the same and store the same result when it
  fits.\<close>

theorem int64_overflow:
  assumes "i64_ok a" "i64_ok b"
  shows "sqlite3AddInt64 a b = Some (if i64_ok (a + b) then (0, a + b) else (1, a))
    \<and> sqlite3SubInt64 a b = Some (if i64_ok (a - b) then (0, a - b) else (1, a))
    \<and> sqlite3MulInt64 a b = Some (if i64_ok (a * b) then (0, a * b) else (1, a))
    \<and> sqlite3AddInt64_builtin a b = (if i64_ok (a + b) then (0, a + b) else (1, wrap64 (a + b)))
    \<and> sqlite3SubInt64_builtin a b = (if i64_ok (a - b) then (0, a - b) else (1, wrap64 (a - b)))
    \<and> sqlite3MulInt64_builtin a b = (if i64_ok (a * b) then (0, a * b) else (1, wrap64 (a * b)))"
  using add_overflow [OF assms] sub_overflow [OF assms] mul_overflow [OF assms]
  by (simp add: overflow_spec_def sqlite3AddInt64_builtin_def sqlite3SubInt64_builtin_def
      sqlite3MulInt64_builtin_def wrap64_id)

theorem int64_overflow_witness:
  "sqlite3MulInt64 (- 4294967296) 2147483648 = Some (0, SMALLEST_INT64)
   \<and> sqlite3SubInt64 0 SMALLEST_INT64 = Some (1, 0)"
  using int64_overflow [of "- 4294967296" 2147483648] int64_overflow [of 0 SMALLEST_INT64]
  by (simp add: i64_ok_def)

text \<open>C35: the estimate of every 64-bit integer is computed (its loops end) and lies between 0 and 639; it is
  the same in the loop and in the leading-zeros build; it differs from ten times the binary logarithm of
  \<open>x\<close> by less than 2 below and by at most one half above; and it is monotone.\<close>

theorem logest_accuracy:
  "\<exists>L. sqlite3LogEst x = Some L \<and> sqlite3LogEst_clz x = Some L \<and> 0 \<le> L \<and> L \<le> 639
     \<and> (x \<noteq> 0 \<longrightarrow> unat x ^ 10 < 2 ^ (nat L + 2) \<and> 2 ^ (2 * nat L) \<le> 2 * unat x ^ 20)
     \<and> (\<forall>y M. x \<le> y \<and> sqlite3LogEst y = Some M \<longrightarrow> L \<le> M)"
proof (cases x rule: logest_cases)
  case small
  then have "x \<noteq> 0 \<Longrightarrow> unat x = 1" by (metis One_nat_def less_2_cases unat_eq_zero)
  then show ?thesis using small(2) logest_mono [of x _ 0] by (auto simp: logest_clz_eq)
next
  case (large i f)
  have L: "nat (10 * int i + LogEst_a ! f) = 10 * i + nat (LogEst_a ! f)"
    using LogEst_a_bounds [OF large(3)] by (simp add: nat_add_distrib)
  show ?thesis
    using large(8) logest_mono [OF _ large(8)] LogEst_a_bounds [OF large(3)] large(2)
      estimate_accuracy [OF large(3,6,7)]
    by (auto simp: logest_clz_eq L)
qed

theorem logest_accuracy_witness:
  "\<exists>L. sqlite3LogEst 1000 = Some L \<and> unat (1000 :: u64) ^ 10 < 2 ^ (nat L + 2)"
proof -
  obtain L where "sqlite3LogEst 1000 = Some L"
    "(1000 :: u64) \<noteq> 0 \<longrightarrow> unat (1000 :: u64) ^ 10 < 2 ^ (nat L + 2) \<and> 2 ^ (2 * nat L) \<le> 2 * unat (1000 :: u64) ^ 20"
    using logest_accuracy [of 1000] by (elim exE conjE)
  then show ?thesis by (intro exI [of _ L]) simp
qed

text \<open>turning an estimate back into an integer and estimating again gives the same estimate, for every
  integer below \<open>2 ^ 61\<close>, and no shift is out of range.\<close>

theorem logest_roundtrip:
  assumes "unat x < 2 ^ 61"
  shows "\<exists>L v. sqlite3LogEst x = Some L \<and> sqlite3LogEstToInt L = Some v \<and> sqlite3LogEst v = Some L"
proof -
  obtain L where "sqlite3LogEst x = Some L" by (cases x rule: logest_cases) auto
  then show ?thesis using logest_inverse [OF assms] by blast
qed

theorem logest_roundtrip_witness:
  "\<exists>L v. sqlite3LogEst 1000000 = Some L \<and> sqlite3LogEstToInt L = Some v \<and> sqlite3LogEst v = Some L"
  by (rule logest_roundtrip) simp

text \<open>the estimate of a sum does not depend on the order of its arguments, is at least the larger one, at
  most ten (a factor of two) above it, and does not leave the 16-bit range.\<close>

theorem logest_add:
  assumes "-32768 \<le> a" "-32768 \<le> b" "a < 32758" "b < 32758"
  shows "sqlite3LogEstAdd a b = sqlite3LogEstAdd b a
    \<and> max a b \<le> sqlite3LogEstAdd a b \<and> sqlite3LogEstAdd a b \<le> max a b + 10"
  using logest_add_bounds [OF assms] logest_add_commute by blast

theorem logest_add_witness: "sqlite3LogEstAdd 33 40 = sqlite3LogEstAdd 40 33 \<and> sqlite3LogEstAdd 33 40 \<le> 50"
  using logest_add [of 33 40] by simp

end
