(* ===== verification/Int_Text.thy ===== *)
theory Int_Text
  imports Str_Util Int_Arith
begin

text \<open>
  The conversions between integers and text of \<^verbatim>\<open>util.c\<close>: printing a 64-bit integer, parsing decimal text
  in UTF-8 or UTF-16, decimal and hexadecimal literals, 32-bit integers, and hexadecimal blobs. Texts are
  byte buffers; a position is an index, and a read or write outside the buffer is \<open>None\<close>.
\<close>

subsection \<open>Printing\<close>

function int2text_loop :: "u64 \<Rightarrow> nat \<Rightarrow> u8 list \<Rightarrow> (nat \<times> u8 list) option" where
  "int2text_loop x i zTemp = do {
     zTemp' \<leftarrow> mem_put zTemp i [ucast (x mod 10) + 48];
     if x div 10 = 0 then Some (i, zTemp')
     else if i = 0 then None
     else int2text_loop (x div 10) (i - 1) zTemp'
   }"
  by pat_completeness auto
termination int2text_loop
  by (relation "measure (\<lambda>(x, i, z). i)") auto

declare int2text_loop.simps [simp del]

text \<open>The bytes of the uninitialised local \<^verbatim>\<open>zTemp\<close> below the final \<open>i\<close> are never read; they are zeros
  here.\<close>

definition sqlite3Int64ToText :: "int \<Rightarrow> u8 list \<Rightarrow> (nat \<times> u8 list) option" where
  "sqlite3Int64ToText v zOut =
     (let x = (if v < 0 then if v = SMALLEST_INT64 then push_bit 63 1 else word_of_int (- v)
               else word_of_int v) :: u64 in
      do {
        (i, zTemp) \<leftarrow> int2text_loop x 20 (replicate 22 0);
        (i, zTemp) \<leftarrow> if v < 0 then if i = 0 then None
                                     else map_option (Pair (i - 1)) (mem_put zTemp (i - 1) [45])
                      else Some (i, zTemp);
        (if 22 - i \<le> length zOut then Some (21 - i, drop i zTemp @ drop (22 - i) zOut) else None)
      })"

subsection \<open>Parsing decimal text\<close>

definition pow63_digits :: "u8 list" where
  "pow63_digits = [57, 50, 50, 51, 51, 55, 50, 48, 51, 54, 56, 53, 52, 55, 55, 53, 56, 48]"

function compare_loop :: "u8 list \<Rightarrow> nat \<Rightarrow> nat \<Rightarrow> nat \<Rightarrow> int \<Rightarrow> int option" where
  "compare_loop z p incr i c =
     (if c = 0 \<and> i < 18 then do {
        b \<leftarrow> rd z (p + i * incr);
        compare_loop z p incr (Suc i) ((sint b - sint (pow63_digits ! i)) * 10)
      } else Some c)"
  by pat_completeness auto
termination compare_loop by (relation "measure (\<lambda>(z, p, incr, i, c). 18 - i)") auto

definition compare2pow63 :: "u8 list \<Rightarrow> nat \<Rightarrow> nat \<Rightarrow> int option" where
  "compare2pow63 z p incr = do {
     c \<leftarrow> compare_loop z p incr 0 0;
     if c = 0 then do { b \<leftarrow> rd z (p + 18 * incr); Some (sint b - 56) } else Some c
   }"

text \<open>A loop \<^verbatim>\<open>while( zNum<zEnd && P(*zNum) ) zNum += incr\<close>; with a zero increment it would not end.\<close>

function scan_while :: "(u8 \<Rightarrow> bool) \<Rightarrow> u8 list \<Rightarrow> nat \<Rightarrow> nat \<Rightarrow> nat \<Rightarrow> nat option" where
  "scan_while P z p zEnd incr =
     (if p < zEnd then
        if incr = 0 then None
        else do {
          c \<leftarrow> rd z p;
          if P c then scan_while P z (p + incr) zEnd incr else Some p
        }
      else Some p)"
  by pat_completeness auto
termination scan_while by (relation "measure (\<lambda>(P, z, p, e, k). e - p)") auto

function scan_digits :: "u8 list \<Rightarrow> nat \<Rightarrow> nat \<Rightarrow> nat \<Rightarrow> nat \<Rightarrow> u64 \<Rightarrow> (nat \<times> u64) option" where
  "scan_digits z p zEnd incr i u =
     (if p + i < zEnd then
        if incr = 0 then None
        else do {
          c \<leftarrow> rd z (p + i);
          if 48 \<le> c \<and> c \<le> 57 then scan_digits z p zEnd incr (i + incr) (u * 10 + ucast c - 48)
          else Some (i, u)
        }
      else Some (i, u))"
  by pat_completeness auto
termination scan_digits by (relation "measure (\<lambda>(z, p, e, k, i, u). e - (p + i))") auto

function scan_high :: "u8 list \<Rightarrow> nat \<Rightarrow> nat \<Rightarrow> nat option" where
  "scan_high z i n =
     (if i < n then do {
        c \<leftarrow> rd z i;
        if c = 0 then scan_high z (i + 2) n else Some i
      } else Some i)"
  by pat_completeness auto
termination scan_high by (relation "measure (\<lambda>(z, i, n). n - i)") auto

declare compare_loop.simps [simp del] scan_while.simps [simp del] scan_digits.simps [simp del]
  scan_high.simps [simp del]

text \<open>The encodings: 1 is UTF-8, 2 is UTF-16LE and 3 is UTF-16BE. The result is the return code and
  \<open>*pNum\<close>.\<close>

definition atoi64_scan :: "u8 list \<Rightarrow> nat \<Rightarrow> nat \<Rightarrow> nat \<Rightarrow> bool \<Rightarrow> (int \<times> int) option" where
  "atoi64_scan z p zEnd incr nonNum = do {
     p \<leftarrow> scan_while sqlite3Isspace z p zEnd incr;
     (neg, zStart) \<leftarrow>
       if p < zEnd then do {
         c \<leftarrow> rd z p;
         Some (if c = 45 then (True, p + incr) else if c = 43 then (False, p + incr) else (False, p))
       } else Some (False, p);
     zNum \<leftarrow> scan_while (\<lambda>c. c = 48) z zStart zEnd incr;
     (i, u) \<leftarrow> scan_digits z zNum zEnd incr 0 0;
     let pNum = (if u > 9223372036854775807 then if neg then SMALLEST_INT64 else LARGEST_INT64
                 else if neg then - uint u else uint u);
     rc \<leftarrow> if i = 0 \<and> zStart = zNum then Some (-1)
           else if nonNum then Some 1
           else if zNum + i < zEnd then do {
             jj \<leftarrow> scan_while sqlite3Isspace z (zNum + i) zEnd incr;
             Some (if jj < zEnd then 1 else 0)
           } else Some 0;
     if i < 19 * incr then Some (rc, pNum)
     else do {
       c \<leftarrow> if i > 19 * incr then Some 1 else compare2pow63 z zNum incr;
       let lim = (if neg then SMALLEST_INT64 else LARGEST_INT64);
       Some (if c < 0 then (rc, pNum)
             else if c > 0 then (2, lim)
             else (if neg then rc else 3, lim))
     }
   }"

definition sqlite3Atoi64 :: "u8 list \<Rightarrow> nat \<Rightarrow> nat \<Rightarrow> (int \<times> int) option" where
  "sqlite3Atoi64 z len enc =
     (if enc = 1 then atoi64_scan z 0 len 1 False
      else
        let n = 2 * (len div 2) in
        do {
          i \<leftarrow> scan_high z (3 - enc) n;
          atoi64_scan z (enc mod 2) (if even i then i + 1 else i - 1) 2 (i < n)
        })"

subsection \<open>Hexadecimal digits and literals\<close>

definition sqlite3HexToInt :: "u8 \<Rightarrow> u8" where
  "sqlite3HexToInt h = (h + 9 * (1 AND drop_bit 6 h)) AND 15"

function hexblob_loop :: "u8 list \<Rightarrow> int \<Rightarrow> nat \<Rightarrow> u8 list \<Rightarrow> (nat \<times> u8 list) option" where
  "hexblob_loop z n i zBlob =
     (if int i < n then do {
        a \<leftarrow> rd z i;
        b \<leftarrow> rd z (i + 1);
        zBlob' \<leftarrow> mem_put zBlob (i div 2) [push_bit 4 (sqlite3HexToInt a) OR sqlite3HexToInt b];
        hexblob_loop z n (i + 2) zBlob'
      } else Some (i, zBlob))"
  by pat_completeness auto
termination hexblob_loop by (relation "measure (\<lambda>(z, n, i, b). nat (n - int i))") auto

text \<open>The blob, or the null pointer (\<open>Some None\<close>) when memory runs out. \<open>junk\<close> is what the fresh memory holds.\<close>

definition sqlite3HexToBlob :: "bool \<Rightarrow> (nat \<Rightarrow> u8) \<Rightarrow> u8 list \<Rightarrow> nat \<Rightarrow> u8 list option option" where
  "sqlite3HexToBlob mem_ok junk z n =
     (if mem_ok then do {
        (i, zBlob) \<leftarrow> hexblob_loop z (int n - 1) 0 (map junk [0..<n div 2 + 1]);
        map_option Some (mem_put zBlob (i div 2) [0])
      } else Some None)"

function skip_zeros :: "u8 list \<Rightarrow> nat \<Rightarrow> nat option" where
  "skip_zeros z p = do { c \<leftarrow> rd z p; if c = 48 then skip_zeros z (Suc p) else Some p }"
  by pat_completeness auto
termination skip_zeros
  by (relation "measure (\<lambda>(z, p). length z - p)") (auto simp: rd_def split: if_splits)

function scan_hex :: "u8 list \<Rightarrow> nat \<Rightarrow> u64 \<Rightarrow> (nat \<times> u64) option" where
  "scan_hex z k u = do {
     c \<leftarrow> rd z k;
     if sqlite3Isxdigit c then scan_hex z (Suc k) (u * 16 + ucast (sqlite3HexToInt c)) else Some (k, u)
   }"
  by pat_completeness auto
termination scan_hex
  by (relation "measure (\<lambda>(z, k, u). length z - k)") (auto simp: rd_def split: if_splits)

text \<open>The standard function \<^verbatim>\<open>strspn\<close> with the characters of an integer literal.\<close>

definition is_int_char :: "u8 \<Rightarrow> bool" where
  "is_int_char c \<longleftrightarrow> c = 43 \<or> c = 45 \<or> c = 32 \<or> c = 10 \<or> c = 9 \<or> 48 \<le> c \<and> c \<le> 57"

function strspn_int :: "u8 list \<Rightarrow> nat \<Rightarrow> nat option" where
  "strspn_int z n = do { c \<leftarrow> rd z n; if is_int_char c then strspn_int z (Suc n) else Some n }"
  by pat_completeness auto
termination strspn_int
  by (relation "measure (\<lambda>(z, n). length z - n)") (auto simp: rd_def split: if_splits)

declare hexblob_loop.simps [simp del] skip_zeros.simps [simp del] scan_hex.simps [simp del]
  strspn_int.simps [simp del]

definition sqlite3DecOrHexToI64 :: "u8 list \<Rightarrow> (int \<times> int) option" where
  "sqlite3DecOrHexToI64 z = do {
     z0 \<leftarrow> rd z 0;
     hex \<leftarrow> if z0 = 48 then do { z1 \<leftarrow> rd z 1; Some (z1 = 120 \<or> z1 = 88) } else Some False;
     if hex then do {
       i \<leftarrow> skip_zeros z 2;
       (k, u) \<leftarrow> scan_hex z i 0;
       zk \<leftarrow> rd z k;
       Some (if k - i > 16 then 2 else if zk \<noteq> 0 then 1 else 0, sint u)
     } else do {
       n \<leftarrow> strspn_int z 0;
       let n = n mod 1073741824;
       zn \<leftarrow> rd z n;
       sqlite3Atoi64 z (if zn \<noteq> 0 then n + 1 else n) 1
     }
   }"

subsection \<open>32-bit integers\<close>

function scan_hex8 :: "u8 list \<Rightarrow> nat \<Rightarrow> nat \<Rightarrow> u32 \<Rightarrow> (nat \<times> u32) option" where
  "scan_hex8 z p i u =
     (if i < 8 then do {
        c \<leftarrow> rd z (p + i);
        if sqlite3Isxdigit c then scan_hex8 z p (Suc i) (u * 16 + ucast (sqlite3HexToInt c))
        else Some (i, u)
      } else Some (i, u))"
  by pat_completeness auto
termination scan_hex8 by (relation "measure (\<lambda>(z, p, i, u). 8 - i)") auto

function scan_dec11 :: "u8 list \<Rightarrow> nat \<Rightarrow> nat \<Rightarrow> int \<Rightarrow> (nat \<times> int) option" where
  "scan_dec11 z p i v =
     (if i < 11 then do {
        b \<leftarrow> rd z (p + i);
        let c = sint b - 48;
        if c \<ge> 0 \<and> c \<le> 9 then scan_dec11 z p (Suc i) (v * 10 + c) else Some (i, v)
      } else Some (i, v))"
  by pat_completeness auto
termination scan_dec11 by (relation "measure (\<lambda>(z, p, i, v). 11 - i)") auto

declare scan_hex8.simps [simp del] scan_dec11.simps [simp del]

text \<open>The result code and \<open>*pValue\<close>.\<close>

definition getint32_dec :: "u8 list \<Rightarrow> nat \<Rightarrow> bool \<Rightarrow> int \<Rightarrow> (nat \<times> int) option" where
  "getint32_dec z p neg pValue = do {
     c \<leftarrow> rd z p;
     if \<not> sqlite3Isdigit c then Some (0, pValue)
     else do {
       p \<leftarrow> skip_zeros z p;
       (i, v) \<leftarrow> scan_dec11 z p 0 0;
       Some (if i > 10 then (0, pValue)
             else if v - (if neg then 1 else 0) > 2147483647 then (0, pValue)
             else (1, if neg then - v else v))
     }
   }"

definition getint32_hex :: "u8 list \<Rightarrow> int \<Rightarrow> (nat \<times> int) option" where
  "getint32_hex z pValue = do {
     p \<leftarrow> skip_zeros z 2;
     (i, u) \<leftarrow> scan_hex8 z p 0 0;
     if u AND 2147483648 = 0 then do {
       c \<leftarrow> rd z (p + i);
       Some (if \<not> sqlite3Isxdigit c then (1, sint u) else (0, pValue))
     } else Some (0, pValue)
   }"

definition sqlite3GetInt32 :: "u8 list \<Rightarrow> int \<Rightarrow> (nat \<times> int) option" where
  "sqlite3GetInt32 z pValue = do {
     z0 \<leftarrow> rd z 0;
     if z0 = 45 then getint32_dec z 1 True pValue
     else if z0 = 43 then getint32_dec z 1 False pValue
     else do {
       hex \<leftarrow> if z0 = 48 then do {
                z1 \<leftarrow> rd z 1;
                if z1 = 120 \<or> z1 = 88 then do { z2 \<leftarrow> rd z 2; Some (sqlite3Isxdigit z2) } else Some False
              } else Some False;
       if hex then getint32_hex z pValue else getint32_dec z 0 False pValue
     }
   }"

definition sqlite3Atoi :: "u8 list \<Rightarrow> int option" where
  "sqlite3Atoi z = map_option snd (sqlite3GetInt32 z 0)"

function getuint32_loop :: "u8 list \<Rightarrow> nat \<Rightarrow> u64 \<Rightarrow> (nat \<times> u64) option option" where
  "getuint32_loop z i v = do {
     c \<leftarrow> rd z i;
     if sqlite3Isdigit c then
       let v = v * 10 + ucast c - 48 in
       if v > 4294967296 then Some None else getuint32_loop z (Suc i) v
     else Some (Some (i, v))
   }"
  by pat_completeness auto
termination getuint32_loop
  by (relation "measure (\<lambda>(z, i, v). length z - i)") (auto simp: rd_def split: if_splits)

declare getuint32_loop.simps [simp del]

definition sqlite3GetUInt32 :: "u8 list \<Rightarrow> (nat \<times> u32) option" where
  "sqlite3GetUInt32 z = do {
     r \<leftarrow> getuint32_loop z 0 0;
     case r of
       None \<Rightarrow> Some (0, 0)
     | Some (i, v) \<Rightarrow>
         if i = 0 then Some (0, 0)
         else do { c \<leftarrow> rd z i; Some (if c \<noteq> 0 then (0, 0) else (1, ucast v)) }
   }"

subsection \<open>Decimal values\<close>

definition dec_val :: "u8 list \<Rightarrow> nat" where
  "dec_val ds = foldl (\<lambda>v c. v * 10 + (unat c - 48)) 0 ds"

lemma dec_val_simps [simp]:
  "dec_val [] = 0" "dec_val (ds @ [c]) = dec_val ds * 10 + (unat c - 48)"
  by (simp_all add: dec_val_def)

lemma dec_val_Cons: "dec_val (c # ds) = (unat c - 48) * 10 ^ length ds + dec_val ds"
  by (induction ds rule: rev_induct) (simp_all add: dec_val_def algebra_simps)

lemma digit_bound: "sqlite3Isdigit c \<Longrightarrow> 48 \<le> unat c \<and> unat c \<le> 57"
  by (simp add: sqlite3Isdigit_iff word_le_nat_alt)

lemma dec_val_less: "\<forall>c \<in> set ds. sqlite3Isdigit c \<Longrightarrow> dec_val ds < 10 ^ length ds"
proof (induction ds rule: rev_induct)
  case (snoc c ds)
  then have "unat c - 48 \<le> 9" "dec_val ds < 10 ^ length ds"
    using digit_bound [of c] by auto
  then show ?case by simp
qed simp

lemma dec_val_ge:
  assumes "sqlite3Isdigit c" "c \<noteq> 48"
  shows "10 ^ length ds \<le> dec_val (c # ds)"
proof -
  have "1 \<le> unat c - 48" using digit_bound [OF assms(1)] assms(2) by (auto simp: word_unat_eq_iff)
  then have "1 * 10 ^ length ds \<le> (unat c - 48) * 10 ^ length ds" by (rule mult_right_mono) simp
  then show ?thesis unfolding dec_val_Cons by linarith
qed

lemma dec_val_zeros: "\<forall>c \<in> set zs. c = 48 \<Longrightarrow> dec_val (zs @ ds) = dec_val ds"
  by (induction zs) (auto simp: dec_val_Cons)

text \<open>Lists of digits of one length compare as their values do.\<close>

lemma dec_val_first_diff:
  assumes "\<forall>x \<in> set xs. sqlite3Isdigit x" "\<forall>y \<in> set ys. sqlite3Isdigit y" "length xs = length ys"
    "unat a < unat b" "sqlite3Isdigit a" "sqlite3Isdigit b"
  shows "dec_val (a # xs) < dec_val (b # ys)"
proof -
  have "Suc (unat a - 48) \<le> unat b - 48" using assms(4) digit_bound [OF assms(5)] by linarith
  then have "Suc (unat a - 48) * 10 ^ length ys \<le> (unat b - 48) * 10 ^ length ys"
    by (rule mult_right_mono) simp
  then show ?thesis using dec_val_less [OF assms(1)] assms(3) by (simp add: dec_val_Cons)
qed

subsection \<open>The characters a scan visits\<close>

function text_view :: "u8 list \<Rightarrow> nat \<Rightarrow> nat \<Rightarrow> nat \<Rightarrow> u8 list" where
  "text_view z p e k = (if p < e \<and> 0 < k then z ! p # text_view z (p + k) e k else [])"
  by pat_completeness auto
termination text_view by (relation "measure (\<lambda>(z, p, e, k). e - p)") auto

declare text_view.simps [simp del]

lemma text_view_drop: "0 < k \<Longrightarrow> text_view z (p + k * n) e k = drop n (text_view z p e k)"
proof (induction n arbitrary: p)
  case (Suc n)
  have "text_view z (p + k + k * n) e k = drop n (text_view z (p + k) e k)" using Suc by blast
  moreover have "drop n (text_view z (p + k) e k) = drop (Suc n) (text_view z p e k)"
    using Suc.prems by (subst (2) text_view.simps) (auto simp: text_view.simps [of z "p + k"])
  ultimately show ?case by (simp add: add.assoc)
qed simp

lemma text_view_Nil: "0 < k \<Longrightarrow> text_view z p e k = [] \<longleftrightarrow> e \<le> p"
  by (subst text_view.simps) auto

lemma text_view_nth:
  assumes "n < length (text_view z p e k)" "0 < k"
  shows "p + n * k < e" "text_view z p e k ! n = z ! (p + n * k)"
proof -
  have "text_view z (p + k * n) e k \<noteq> []" using assms by (simp add: text_view_drop)
  then show l: "p + n * k < e" using assms(2) by (simp add: text_view_Nil mult.commute)
  have "hd (text_view z (p + k * n) e k) = z ! (p + n * k)"
    using l assms(2) by (subst text_view.simps) (simp add: mult.commute)
  then show "text_view z p e k ! n = z ! (p + n * k)"
    using assms by (simp add: text_view_drop hd_drop_conv_nth)
qed

text \<open>Every position the scan may read lies in the buffer.\<close>

definition in_text :: "u8 list \<Rightarrow> nat \<Rightarrow> nat \<Rightarrow> nat \<Rightarrow> bool" where
  "in_text z p e k \<longleftrightarrow> (\<forall>n. p + n * k < e \<longrightarrow> p + n * k < length z)"

lemma in_text_rd: "\<lbrakk>in_text z p e k; p < e\<rbrakk> \<Longrightarrow> rd z p = Some (z ! p)"
  by (auto simp: in_text_def rd_def dest: spec [of _ 0])

lemma in_text_add: "in_text z p e k \<Longrightarrow> in_text z (p + k * n) e k"
  unfolding in_text_def by (metis add.assoc add_mult_distrib mult.commute)

lemma in_text_step: "in_text z p e k \<Longrightarrow> in_text z (p + k) e k"
  using in_text_add [of z p e k 1] by simp

lemma scan_while_view:
  "\<lbrakk>in_text z p e k; 0 < k\<rbrakk> \<Longrightarrow>
   scan_while P z p e k = Some (p + k * length (takeWhile P (text_view z p e k)))"
proof (induction P z p e k rule: scan_while.induct)
  case (1 P z p e k)
  show ?case
  proof (cases "p < e")
    case True
    then have r: "rd z p = Some (z ! p)" using "1.prems" by (simp add: in_text_rd)
    show ?thesis
      using True r "1.prems" "1.IH" [of "z ! p"] in_text_step [OF "1.prems"(1)]
      by (subst scan_while.simps, subst text_view.simps) auto
  qed (simp add: scan_while.simps text_view.simps)
qed

lemmas scan_digits_step = scan_digits.simps [folded sqlite3Isdigit_iff]

lemma scan_digits_view:
  "\<lbrakk>in_text z (p + i) e k; 0 < k\<rbrakk> \<Longrightarrow>
   scan_digits z p e k i u =
     Some (i + k * length (takeWhile sqlite3Isdigit (text_view z (p + i) e k)),
           foldl (\<lambda>u c. u * 10 + ucast c - 48) u (takeWhile sqlite3Isdigit (text_view z (p + i) e k)))"
proof (induction z p e k i u rule: scan_digits.induct)
  case (1 z p e k i u)
  show ?case
  proof (cases "p + i < e")
    case True
    then have r: "rd z (p + i) = Some (z ! (p + i))" using "1.prems" by (simp add: in_text_rd)
    have n: "in_text z (p + (i + k)) e k" using in_text_step [OF "1.prems"(1)] by (simp add: add.assoc)
    show ?thesis
      using True r n "1.prems" "1.IH" [folded sqlite3Isdigit_iff, of "z ! (p + i)"]
      by (subst scan_digits_step, subst (1 2) text_view.simps) (auto simp: add.assoc)
  qed (simp add: scan_digits.simps text_view.simps)
qed

lemma fold_digits_u64:
  "\<forall>c \<in> set ds. sqlite3Isdigit c \<Longrightarrow>
   foldl (\<lambda>u c. u * 10 + ucast c - 48) 0 ds = (of_nat (dec_val ds) :: u64)"
proof (induction ds rule: rev_induct)
  case (snoc c ds)
  have "(ucast c :: u64) = of_nat (unat c)" by simp
  moreover have "(of_nat (unat c) :: u64) - 48 = of_nat (unat c - 48)"
    using snoc.prems digit_bound [of c] by (simp add: of_nat_diff)
  ultimately have "(ucast c :: u64) - 48 = of_nat (unat c - 48)" by simp
  then show ?case using snoc by (simp add: algebra_simps)
qed simp

lemma dec_val_append: "dec_val (xs @ ys) = dec_val xs * 10 ^ length ys + dec_val ys"
  by (induction ys rule: rev_induct)
    (simp_all add: append_assoc [symmetric] algebra_simps del: append_assoc)

lemma dec_val_at:
  assumes "take j xs = take j ys" "j < length xs" "length xs = length ys"
    "\<forall>x \<in> set xs. sqlite3Isdigit x" "\<forall>y \<in> set ys. sqlite3Isdigit y" "unat (xs ! j) < unat (ys ! j)"
  shows "dec_val xs < dec_val ys"
proof -
  have x: "xs = take j xs @ xs ! j # drop (Suc j) xs" using assms(2) by (rule id_take_nth_drop)
  have y: "ys = take j xs @ ys ! j # drop (Suc j) ys"
    using assms(1-3) id_take_nth_drop [of j ys] by simp
  have "dec_val (xs ! j # drop (Suc j) xs) < dec_val (ys ! j # drop (Suc j) ys)"
    using assms by (intro dec_val_first_diff) (auto dest: in_set_dropD)
  moreover have "length (xs ! j # drop (Suc j) xs) = length (ys ! j # drop (Suc j) ys)" using assms(3) by simp
  ultimately show ?thesis by (subst x, subst y) (simp only: dec_val_append)
qed

lemma sint_digit: "sqlite3Isdigit c \<Longrightarrow> sint c = int (unat c)"
proof -
  assume "sqlite3Isdigit c"
  then have "uint c \<le> 57" by (simp add: sqlite3Isdigit_iff word_le_def)
  moreover have "- 128 \<le> uint c" using uint_nonnegative [of c] by linarith
  ultimately show ?thesis by (simp add: sint_uint signed_take_bit_int_eq_self_iff)
qed

lemma pow63_value: "dec_val (pow63_digits @ [56]) = 9223372036854775808"
  by (simp add: pow63_digits_def dec_val_def)

lemma pow63_digit: "\<forall>c \<in> set (pow63_digits @ [56]). sqlite3Isdigit c"
  by (simp add: pow63_digits_def sqlite3Isdigit_iff)

lemma length_pow63 [simp]: "length pow63_digits = 18"
  by (simp add: pow63_digits_def)

lemma compare_loop_done: "c \<noteq> 0 \<or> 18 \<le> i \<Longrightarrow> compare_loop z p k i c = Some c"
  by (subst compare_loop.simps) auto

lemma compare_loop_spec:
  assumes rds: "\<And>i. i < 19 \<Longrightarrow> rd z (p + i * k) = Some (ds ! i)" and "length ds = 19"
    and dig: "\<forall>c \<in> set ds. sqlite3Isdigit c"
  shows "\<lbrakk>i \<le> 18; take i ds = take i pow63_digits\<rbrakk> \<Longrightarrow>
    \<exists>c. compare_loop z p k i 0 = Some c
      \<and> (c = 0 \<longrightarrow> take 18 ds = pow63_digits)
      \<and> (c \<noteq> 0 \<longrightarrow> (\<exists>j < 18. take j ds = take j pow63_digits
           \<and> c = (int (unat (ds ! j)) - int (unat (pow63_digits ! j))) * 10))"
proof (induction "18 - i" arbitrary: i)
  case 0
  then show ?case by (intro exI [of _ 0]) (simp add: compare_loop_done)
next
  case (Suc d)
  then have i: "i < 18" by simp
  let ?c = "(int (unat (ds ! i)) - int (unat (pow63_digits ! i))) * 10"
  have "sqlite3Isdigit (ds ! i)" using dig assms(2) i by simp
  moreover have "sqlite3Isdigit (pow63_digits ! i)" using pow63_digit i by simp
  ultimately have step: "compare_loop z p k i 0 = compare_loop z p k (Suc i) ?c"
    using i rds [of i] by (subst compare_loop.simps) (simp add: sint_digit)
  show ?case
  proof (cases "?c = 0")
    case True
    then have "ds ! i = pow63_digits ! i" by (simp add: word_uint_eq_iff)
    then have "take (Suc i) ds = take (Suc i) pow63_digits"
      using Suc.prems(2) i assms(2) by (simp add: take_Suc_conv_app_nth)
    moreover have "d = 18 - Suc i" "Suc i \<le> 18" using Suc.hyps(2) i by simp_all
    ultimately show ?thesis using Suc.hyps(1) [of "Suc i"] step True by metis
  next
    case False
    then show ?thesis using step i Suc.prems(2) by (intro exI [of _ ?c]) (auto simp: compare_loop_done)
  qed
qed

lemma diff10_sign: "(int a - int b) * 10 < 0 \<longleftrightarrow> a < b" "0 < (int a - int b) * 10 \<longleftrightarrow> b < a"
  by simp_all

lemma compare2pow63_spec:
  assumes rds: "\<And>i. i < 19 \<Longrightarrow> rd z (p + i * k) = Some (ds ! i)" and len: "length ds = 19"
    and dig: "\<forall>c \<in> set ds. sqlite3Isdigit c"
  shows "\<exists>c. compare2pow63 z p k = Some c
    \<and> (c < 0 \<longleftrightarrow> dec_val ds < 9223372036854775808) \<and> (c = 0 \<longleftrightarrow> dec_val ds = 9223372036854775808)"
proof -
  let ?P = "pow63_digits @ [56]"
  obtain c where c: "compare_loop z p k 0 0 = Some c" "c = 0 \<longrightarrow> take 18 ds = pow63_digits"
    "c \<noteq> 0 \<longrightarrow> (\<exists>j < 18. take j ds = take j pow63_digits
           \<and> c = (int (unat (ds ! j)) - int (unat (pow63_digits ! j))) * 10)"
    using compare_loop_spec [OF rds len dig, of 0] by auto
  show ?thesis
  proof (cases "c = 0")
    case True
    have ds: "ds = pow63_digits @ [ds ! 18]"
      using c(2) True len id_take_nth_drop [of 18 ds] by simp
    have d18: "sqlite3Isdigit (ds ! 18)" using dig len by simp
    have "compare2pow63 z p k = Some (int (unat (ds ! 18)) - 56)"
      using c(1) True rds [of 18] d18 by (simp add: compare2pow63_def sint_digit)
    moreover have "dec_val ds + 56 = 9223372036854775808 + unat (ds ! 18)"
    proof -
      have "dec_val ds = dec_val pow63_digits * 10 + (unat (ds ! 18) - 48)" by (subst ds) simp
      moreover have "dec_val pow63_digits = 922337203685477580" by (simp add: pow63_digits_def dec_val_def)
      ultimately show ?thesis using digit_bound [OF d18] by simp
    qed
    ultimately show ?thesis by (intro exI [of _ "int (unat (ds ! 18)) - 56"]) linarith
  next
    case False
    then obtain j where j: "j < 18" "take j ds = take j pow63_digits"
      "c = (int (unat (ds ! j)) - int (unat (pow63_digits ! j))) * 10" using c(3) by auto
    have t: "take j ds = take j ?P" using j(1,2) by simp
    have n: "?P ! j = pow63_digits ! j" using j(1) by (simp add: nth_append)
    have ls: "length ds = length ?P" using len by simp
    have "compare2pow63 z p k = Some c" using c(1) False by (simp add: compare2pow63_def)
    moreover have "unat (ds ! j) < unat (?P ! j) \<Longrightarrow> dec_val ds < dec_val ?P"
      using t ls j(1) len dig pow63_digit by (intro dec_val_at [of j]) auto
    moreover have "unat (?P ! j) < unat (ds ! j) \<Longrightarrow> dec_val ?P < dec_val ds"
      using t ls j(1) len dig pow63_digit by (intro dec_val_at [of j]) auto
    moreover have "c < 0 \<longleftrightarrow> unat (ds ! j) < unat (?P ! j)" "c > 0 \<longleftrightarrow> unat (?P ! j) < unat (ds ! j)"
      unfolding n j(3) by (rule diff10_sign)+
    ultimately show ?thesis using False unfolding pow63_value by (intro exI [of _ c]) linarith
  qed
qed

subsection \<open>What decimal parsing returns\<close>

text \<open>The reference: optional spaces, an optional sign, digits, and the rest of the text. \<open>nonNum\<close> says that
  the text goes on with a character beyond the first 256.\<close>

definition split_sign :: "u8 list \<Rightarrow> bool \<times> u8 list" where
  "split_sign s =
     (case s of [] \<Rightarrow> (False, [])
      | c # t \<Rightarrow> if c = 45 then (True, t) else if c = 43 then (False, t) else (False, s))"

definition atoi64_result :: "bool \<Rightarrow> int \<Rightarrow> nat \<Rightarrow> int \<times> int" where
  "atoi64_result neg rc n =
     (let v = int n in
      if neg then if v \<le> 9223372036854775808 then (rc, - v) else (2, SMALLEST_INT64)
      else if v < 9223372036854775808 then (rc, v)
      else if v = 9223372036854775808 then (3, LARGEST_INT64) else (2, LARGEST_INT64))"

definition atoi64_spec :: "bool \<Rightarrow> u8 list \<Rightarrow> int \<times> int" where
  "atoi64_spec nonNum s =
     (let (neg, t) = split_sign (dropWhile sqlite3Isspace s);
          ds = takeWhile sqlite3Isdigit t;
          rc = (if ds = [] then -1
                else if nonNum \<or> \<not> list_all sqlite3Isspace (dropWhile sqlite3Isdigit t) then 1 else 0)
      in atoi64_result neg rc (dec_val ds))"

lemma view_while:
  assumes "in_text z p e k" "0 < k"
  shows "\<exists>q. scan_while P z p e k = Some q \<and> in_text z q e k \<and> text_view z q e k = dropWhile P (text_view z p e k)
     \<and> q = p + k * length (takeWhile P (text_view z p e k))"
  using scan_while_view [OF assms, of P] in_text_add [OF assms(1)]
  by (auto simp: text_view_drop assms(2) dropWhile_eq_drop)

text \<open>The significant digits behind the leading zeros.\<close>

lemma digits_split:
  "takeWhile sqlite3Isdigit t =
     takeWhile (\<lambda>c. c = 48) t @ takeWhile sqlite3Isdigit (dropWhile (\<lambda>c. c = 48) t)"
  by (induction t) (auto simp: sqlite3Isdigit_iff)

lemma rest_split:
  "dropWhile sqlite3Isdigit (dropWhile (\<lambda>c. c = 48) t) = dropWhile sqlite3Isdigit t"
  by (induction t) (auto simp: sqlite3Isdigit_iff)

lemma sig_first: "c \<in> set (take 1 (dropWhile (\<lambda>c. c = 48) t)) \<Longrightarrow> c \<noteq> (48 :: u8)"
  by (induction t) (auto split: if_splits)

lemma sig_bounds:
  fixes t :: "u8 list"
  defines "ds \<equiv> takeWhile sqlite3Isdigit (dropWhile (\<lambda>c. c = 48) t)"
  shows "length ds < 19 \<Longrightarrow> dec_val ds < 1000000000000000000"
    and "length ds > 19 \<Longrightarrow> 10000000000000000000 \<le> dec_val ds"
proof -
  have dig: "\<forall>c \<in> set ds. sqlite3Isdigit c" unfolding ds_def by (auto dest: set_takeWhileD)
  show "dec_val ds < 1000000000000000000" if "length ds < 19"
  proof -
    have "(10 :: nat) ^ length ds \<le> 10 ^ 18" using that by (intro power_increasing) auto
    then show ?thesis using dec_val_less [OF dig] by simp
  qed
  show "10000000000000000000 \<le> dec_val ds" if l: "length ds > 19"
  proof (cases ds)
    case (Cons c cs)
    then have "c \<noteq> 48" using sig_first [of c t] unfolding ds_def
      by (cases "dropWhile (\<lambda>c. c = 48) t") (auto split: if_splits)
    then have "10 ^ length cs \<le> dec_val ds" unfolding Cons using dig Cons by (intro dec_val_ge) auto
    moreover have "(10 :: nat) ^ 19 \<le> 10 ^ length cs" using l Cons by (intro power_increasing) auto
    ultimately show ?thesis by simp
  qed (use l in simp)
qed

lemma u64_of_dec:
  "n < 18446744073709551616 \<Longrightarrow> unat (of_nat n :: u64) = n"
  by (simp add: unat_of_nat)

lemma trailing_scan:
  assumes "in_text z p e k" "0 < k"
  shows "(if p < e then do { jj \<leftarrow> scan_while sqlite3Isspace z p e k; Some (if jj < e then 1 else 0) }
          else Some 0) = Some (if list_all sqlite3Isspace (text_view z p e k) then 0 else (1 :: int))"
proof -
  obtain q where q: "scan_while sqlite3Isspace z p e k = Some q"
    "text_view z q e k = dropWhile sqlite3Isspace (text_view z p e k)"
    using view_while [OF assms] by blast
  have "q < e \<longleftrightarrow> dropWhile sqlite3Isspace (text_view z p e k) \<noteq> []"
    using q(2) text_view_Nil [OF assms(2), of z q e] by auto
  moreover have "p \<ge> e \<Longrightarrow> text_view z p e k = []" using text_view_Nil [OF assms(2)] by simp
  ultimately show ?thesis using q(1) by (auto simp: dropWhile_eq_Nil_conv list_all_iff)
qed

definition atoi64_end :: "u8 list \<Rightarrow> nat \<Rightarrow> nat \<Rightarrow> bool \<Rightarrow> int \<Rightarrow> nat \<Rightarrow> u64 \<Rightarrow> (int \<times> int) option" where
  "atoi64_end z zNum k neg rc n u =
     (let lim = (if neg then SMALLEST_INT64 else LARGEST_INT64);
          pNum = (if u > 9223372036854775807 then lim else if neg then - uint u else uint u)
      in if n < 19 then Some (rc, pNum)
         else do {
           c \<leftarrow> if n > 19 then Some 1 else compare2pow63 z zNum k;
           Some (if c < 0 then (rc, pNum) else if c > 0 then (2, lim) else (if neg then rc else 3, lim))
         })"

lemma atoi64_fits:
  assumes "n < 9223372036854775808"
  shows "\<not> (of_nat n :: u64) > 9223372036854775807" "uint (of_nat n :: u64) = int n"
proof -
  have u: "unat (of_nat n :: u64) = n" using assms by (intro u64_of_dec) simp
  show "\<not> (of_nat n :: u64) > 9223372036854775807" using assms unfolding word_less_nat_alt u by simp
  show "uint (of_nat n :: u64) = int n" using u by (metis uint_nat)
qed

lemma atoi64_end_spec:
  assumes view: "\<And>i. i < length ds \<Longrightarrow> rd z (p + i * k) = Some (ds ! i)"
    and dig: "\<forall>c \<in> set ds. sqlite3Isdigit c"
    and small: "length ds < 19 \<Longrightarrow> dec_val ds < 1000000000000000000"
    and big: "length ds > 19 \<Longrightarrow> 10000000000000000000 \<le> dec_val ds"
  shows "atoi64_end z p k neg rc (length ds) (of_nat (dec_val ds)) = Some (atoi64_result neg rc (dec_val ds))"
proof -
  consider "length ds < 19" | "length ds > 19" | "length ds = 19" by linarith
  then show ?thesis
  proof cases
    case 1
    then have "dec_val ds < 9223372036854775808" using small by simp
    then show ?thesis using 1 atoi64_fits [of "dec_val ds"]
      by (simp add: atoi64_end_def atoi64_result_def Let_def)
  next
    case 2
    then show ?thesis using big by (simp add: atoi64_end_def atoi64_result_def Let_def)
  next
    case 3
    obtain c where c: "compare2pow63 z p k = Some c"
      "c < 0 \<longleftrightarrow> dec_val ds < 9223372036854775808" "c = 0 \<longleftrightarrow> dec_val ds = 9223372036854775808"
      using compare2pow63_spec [of z p k ds] view dig 3 by auto
    consider "c < 0" | "c = 0" | "c > 0" by linarith
    then show ?thesis
    proof cases
      case 1
      then show ?thesis using c 3 atoi64_fits [of "dec_val ds"]
        by (simp add: atoi64_end_def atoi64_result_def Let_def)
    next
      case 2
      then show ?thesis using c 3 by (simp add: atoi64_end_def atoi64_result_def Let_def)
    next
      case 3
      then have "dec_val ds > 9223372036854775808" using c by auto
      then show ?thesis using c 3 \<open>length ds = 19\<close>
        by (simp add: atoi64_end_def atoi64_result_def Let_def)
    qed
  qed
qed

lemma atoi64_scan_spec:
  assumes e: "in_text z p e k" "0 < k"
  shows "atoi64_scan z p e k nonNum = Some (atoi64_spec nonNum (text_view z p e k))"
proof -
  let ?V = "text_view z p e k"
  obtain p1 where p1: "scan_while sqlite3Isspace z p e k = Some p1"
    "text_view z p1 e k = dropWhile sqlite3Isspace ?V" "in_text z p1 e k"
    using view_while [OF e] by blast
  obtain neg t where nt: "split_sign (dropWhile sqlite3Isspace ?V) = (neg, t)" by fastforce
  obtain p2 where p2: "(if p1 < e then do {
         c \<leftarrow> rd z p1;
         Some (if c = 45 then (True, p1 + k) else if c = 43 then (False, p1 + k) else (False, p1))
       } else Some (False, p1)) = Some (neg, p2)" "text_view z p2 e k = t" "in_text z p2 e k"
  proof (cases "p1 < e")
    case True
    then have v: "text_view z p1 e k = z ! p1 # text_view z (p1 + k) e k"
      using e by (subst text_view.simps) simp
    have r: "rd z p1 = Some (z ! p1)" using True p1(3) by (simp add: in_text_rd)
    show ?thesis
      using that nt True r v p1(2) [symmetric] p1(3) in_text_step [OF p1(3)] by (auto simp: split_sign_def split: if_splits)
  next
    case False
    then have "text_view z p1 e k = []" using e by (simp add: text_view_Nil)
    then show ?thesis using that nt False p1(3) unfolding p1(2) [symmetric] by (simp add: split_sign_def)
  qed
  let ?zs = "takeWhile (\<lambda>c. c = 48) t" and ?s = "dropWhile (\<lambda>c. c = 48) t"
  obtain p3 where p3: "scan_while (\<lambda>c. c = 48) z p2 e k = Some p3" "text_view z p3 e k = ?s"
    "p3 = p2 + k * length ?zs" "in_text z p3 e k"
    using view_while [OF p2(3) e(2), of "\<lambda>c. c = 48"] p2(2) by blast
  define ds where "ds = takeWhile sqlite3Isdigit ?s"
  have dig: "\<forall>c \<in> set ds. sqlite3Isdigit c" unfolding ds_def by (auto dest: set_takeWhileD)
  have sd: "scan_digits z p3 e k 0 0 = Some (k * length ds, of_nat (dec_val ds))"
    using scan_digits_view [of z p3 0 e k 0] p3(4) e(2) fold_digits_u64 [OF dig] by (simp add: p3(2) ds_def)
  have all: "takeWhile sqlite3Isdigit t = ?zs @ ds" unfolding ds_def by (rule digits_split)
  have val: "dec_val (takeWhile sqlite3Isdigit t) = dec_val ds"
    unfolding all by (rule dec_val_zeros) (auto dest: set_takeWhileD)
  have none: "k * length ds = 0 \<and> p2 = p3 \<longleftrightarrow> takeWhile sqlite3Isdigit t = []"
    using e(2) by (auto simp: all p3(3))
  have rest: "text_view z (p3 + k * length ds) e k = dropWhile sqlite3Isdigit t"
    using e(2) by (simp add: text_view_drop p3(2) ds_def dropWhile_eq_drop [symmetric] rest_split)
  define rc :: int where "rc = (if takeWhile sqlite3Isdigit t = [] then -1
    else if nonNum \<or> \<not> list_all sqlite3Isspace (dropWhile sqlite3Isdigit t) then 1 else 0)"
  have rc: "(if k * length ds = 0 \<and> p2 = p3 then Some (-1)
           else if nonNum then Some 1
           else if p3 + k * length ds < e then do {
             jj \<leftarrow> scan_while sqlite3Isspace z (p3 + k * length ds) e k;
             Some (if jj < e then 1 else 0)
           } else Some 0) = Some rc"
    unfolding none trailing_scan [OF in_text_add [OF p3(4)] e(2)] rest rc_def by simp
  have run: "atoi64_scan z p e k nonNum = atoi64_end z p3 k neg rc (length ds) (of_nat (dec_val ds))"
    using e(2) unfolding atoi64_scan_def atoi64_end_def p1(1) bind.bind_lunit p2(1) prod.case p3(1) sd rc Let_def
    by simp
  have view: "\<And>i. i < length ds \<Longrightarrow> rd z (p3 + i * k) = Some (ds ! i)"
  proof -
    fix i assume i: "i < length ds"
    then have l: "i < length (text_view z p3 e k)" unfolding p3(2) ds_def by (meson length_takeWhile_le less_le_trans)
    have "ds ! i = ?s ! i" using i unfolding ds_def by (simp add: takeWhile_nth)
    then show "rd z (p3 + i * k) = Some (ds ! i)"
      using text_view_nth [OF l e(2)] p3(4) unfolding p3(2) by (simp add: rd_def in_text_def)
  qed
  have "atoi64_end z p3 k neg rc (length ds) (of_nat (dec_val ds)) = Some (atoi64_result neg rc (dec_val ds))"
    using view dig sig_bounds [of t] unfolding ds_def [symmetric] by (intro atoi64_end_spec) auto
  then show ?thesis
    unfolding run atoi64_spec_def nt prod.case Let_def val rc_def [symmetric] by simp
qed

subsection \<open>Encodings\<close>

text \<open>What a text in one of the three encodings says to the parser: its code units below 256 up to the first that
  is not, and whether there is such a one. A UTF-16 text is read as pairs of a high and a low byte, an odd last
  byte is ignored, and every byte of a UTF-8 text counts.\<close>

fun units16 :: "bool \<Rightarrow> u8 list \<Rightarrow> (u8 \<times> u8) list" where
  "units16 le (a # b # s) = (if le then (b, a) else (a, b)) # units16 le s"
| "units16 le _ = []"

definition low_text :: "nat \<Rightarrow> u8 list \<Rightarrow> u8 list" where
  "low_text enc s = (if enc = 1 then s else map snd (takeWhile (\<lambda>(h, l). h = 0) (units16 (enc = 2) s)))"

definition has_wide :: "nat \<Rightarrow> u8 list \<Rightarrow> bool" where
  "has_wide enc s \<longleftrightarrow> enc \<noteq> 1 \<and> \<not> list_all (\<lambda>(h, l). h = 0) (units16 (enc = 2) s)"

lemma text_view_eq:
  "\<lbrakk>\<And>i. i < length cs \<Longrightarrow> p + i * k < e \<and> z ! (p + i * k) = cs ! i; e \<le> p + length cs * k; 0 < k\<rbrakk>
   \<Longrightarrow> text_view z p e k = cs"
proof (induction cs arbitrary: p)
  case Nil
  then show ?case by (simp add: text_view_Nil)
next
  case (Cons c cs)
  have "text_view z (p + k) e k = cs"
  proof (rule Cons.IH)
    fix i assume "i < length cs"
    then show "p + k + i * k < e \<and> z ! (p + k + i * k) = cs ! i"
      using Cons.prems(1) [of "Suc i"] by (simp add: add.assoc)
  qed (use Cons.prems in \<open>simp_all add: add.assoc\<close>)
  then show ?case using Cons.prems(1) [of 0] Cons.prems(3) by (subst text_view.simps) simp
qed

lemma length_pairs: "length (concat (map (\<lambda>c. [f c, g c]) cs)) = 2 * length cs"
  by (induction cs) auto

lemma length_units16: "length (units16 le s) = length s div 2"
  by (induction le s rule: units16.induct) auto

lemma nth_units16:
  "i < length s div 2 \<Longrightarrow> units16 le s ! i
     = (if le then (s ! Suc (2 * i), s ! (2 * i)) else (s ! (2 * i), s ! Suc (2 * i)))"
proof (induction le s arbitrary: i rule: units16.induct)
  case (1 le a b s)
  then show ?case by (cases i) auto
qed auto

lemma scan_high_first:
  "\<lbrakk>\<And>i. i < m \<Longrightarrow> p + 2 * i < n \<and> p + 2 * i < length z \<and> z ! (p + 2 * i) = 0;
    p + 2 * m < n \<Longrightarrow> p + 2 * m < length z \<and> z ! (p + 2 * m) \<noteq> 0\<rbrakk>
   \<Longrightarrow> scan_high z p n = Some (p + 2 * m)"
proof (induction m arbitrary: p)
  case 0
  then show ?case by (subst scan_high.simps) (simp add: rd_def)
next
  case (Suc m)
  have "scan_high z (p + 2) n = Some (p + 2 + 2 * m)"
  proof (rule Suc.IH)
    show "p + 2 + 2 * i < n \<and> p + 2 + 2 * i < length z \<and> z ! (p + 2 + 2 * i) = 0" if "i < m" for i
      using Suc.prems(1) [of "Suc i"] that by simp
  qed (use Suc.prems(2) in simp)
  then show ?case using Suc.prems(1) [of 0] by (subst scan_high.simps) (simp add: rd_def)
qed

lemma atoi64_text:
  assumes "enc \<in> {1, 2, 3}" and l: "len \<le> length z"
  shows "sqlite3Atoi64 z len enc
    = Some (atoi64_spec (has_wide enc (take len z)) (low_text enc (take len z)))"
proof (cases "enc = 1")
  case True
  have "text_view z 0 len 1 = take len z" using l by (intro text_view_eq) auto
  moreover have "in_text z 0 len 1" using l by (simp add: in_text_def)
  ultimately show ?thesis
    using atoi64_scan_spec [of z 0 len 1 False] True by (simp add: sqlite3Atoi64_def has_wide_def low_text_def)
next
  case False
  define U where "U = units16 (enc = 2) (take len z)"
  define m where "m = length (takeWhile (\<lambda>(h, l). h = 0) U)"
  define N where "N = len div 2"
  have U: "length U = N" using l by (simp add: U_def N_def length_units16)
  have n: "2 * N \<le> length z" using l by (simp add: N_def)
  have nth: "U ! i = (if enc = 2 then (z ! Suc (2 * i), z ! (2 * i)) else (z ! (2 * i), z ! Suc (2 * i)))"
    if "i < N" for i
  proof -
    have "Suc (2 * i) < len" using that by (simp add: N_def)
    then show ?thesis using that l by (simp add: U_def N_def nth_units16)
  qed
  have m: "m \<le> N" using length_takeWhile_le [of _ U] U by (simp add: m_def)
  have zero: "fst (U ! i) = 0" if "i < m" for i
    using nth_mem [of i "takeWhile (\<lambda>(h, l). h = 0) U"] that takeWhile_nth [of i _ U]
    by (auto simp: m_def dest: set_takeWhileD)
  have wide: "fst (U ! m) \<noteq> 0" if "m < N"
    using nth_length_takeWhile [of "\<lambda>(h, l). h = 0" U] that U by (auto simp: m_def case_prod_beta)
  have w: "has_wide enc (take len z) \<longleftrightarrow> m < N"
  proof -
    have "takeWhile (\<lambda>(h, l). h = 0) U = U \<longleftrightarrow> m = N"
      using takeWhile_eq_take [of _ U] U by (metis m_def take_all_iff order_refl)
    then show ?thesis
      using False m by (auto simp: has_wide_def U_def [symmetric] list_all_iff takeWhile_eq_all_conv)
  qed
  have t: "low_text enc (take len z) = map snd (take m U)"
    using False by (simp add: low_text_def U_def [symmetric] m_def takeWhile_eq_take [symmetric])
  consider "enc = 2" | "enc = 3" using assms False by auto
  then show ?thesis
  proof cases
    case 1
    have "scan_high z 1 (2 * N) = Some (1 + 2 * m)"
      using zero wide nth m n 1 by (intro scan_high_first) (fastforce)+
    moreover have "text_view z 0 (2 * m) 2 = map snd (take m U)"
      using nth m U 1 by (intro text_view_eq) (auto simp: mult.commute)
    moreover have "in_text z 0 (2 * m) 2" using m n by (simp add: in_text_def)
    moreover have "Suc (2 * m) < 2 * N \<longleftrightarrow> m < N" by linarith
    ultimately show ?thesis
      using atoi64_scan_spec [of z 0 "2 * m" 2 "m < N"] 1 w t by (simp add: sqlite3Atoi64_def Let_def N_def)
  next
    case 2
    have "scan_high z 0 (2 * N) = Some (0 + 2 * m)"
      using zero wide nth m n 2 by (intro scan_high_first) (fastforce)+
    moreover have "text_view z 1 (Suc (2 * m)) 2 = map snd (take m U)"
      using nth m U 2 by (intro text_view_eq) (auto simp: mult.commute)
    moreover have "in_text z 1 (Suc (2 * m)) 2" using m n by (simp add: in_text_def)
    ultimately show ?thesis
      using atoi64_scan_spec [of z 1 "Suc (2 * m)" 2 "m < N"] 2 w t by (simp add: sqlite3Atoi64_def Let_def N_def)
  qed
qed

lemma atoi64_ascii: "sqlite3Atoi64 (cs @ r) (length cs) 1 = Some (atoi64_spec False cs)"
  using atoi64_text [of 1 "length cs" "cs @ r"] by (simp add: has_wide_def low_text_def)

subsection \<open>The printed text\<close>

fun dec_text :: "nat \<Rightarrow> u8 list" where
  "dec_text n = (if n < 10 then [of_nat n + 48] else dec_text (n div 10) @ [of_nat (n mod 10) + 48])"

declare dec_text.simps [simp del]

lemma unat_digit: "d < 10 \<Longrightarrow> unat (of_nat d + 48 :: u8) = d + 48"
  by (simp add: unat_word_ariths unat_of_nat)

lemma dec_text_digits: "\<forall>c \<in> set (dec_text n). sqlite3Isdigit c"
proof (induction n rule: dec_text.induct)
  case (1 n)
  have "sqlite3Isdigit (of_nat d + 48)" if "d < 10" for d
    using that by (simp add: sqlite3Isdigit_iff word_le_nat_alt unat_digit)
  then show ?case using 1 by (subst dec_text.simps) auto
qed

lemma dec_text_value: "dec_val (dec_text n) = n"
proof (induction n rule: dec_text.induct)
  case (1 n)
  show ?case
  proof (cases "n < 10")
    case True
    then show ?thesis by (subst dec_text.simps) (simp add: dec_val_def unat_digit)
  next
    case False
    then show ?thesis using 1 by (subst dec_text.simps) (simp add: unat_digit)
  qed
qed

lemma dec_text_length: "n < 10 ^ k \<Longrightarrow> 0 < k \<Longrightarrow> length (dec_text n) \<le> k"
proof (induction k arbitrary: n)
  case (Suc k)
  show ?case
  proof (cases "n < 10")
    case False
    have "n div 10 < 10 ^ k" using Suc.prems by (simp add: less_mult_imp_div_less)
    moreover have "0 < k" using False Suc.prems by (cases k) auto
    ultimately show ?thesis using Suc.IH False by (subst dec_text.simps) simp
  qed (simp add: dec_text.simps)
qed simp

lemma int2text_loop_spec:
  "\<lbrakk>length (dec_text (unat x)) \<le> Suc i; i < length z\<rbrakk> \<Longrightarrow>
   int2text_loop x i z = Some (Suc i - length (dec_text (unat x)),
     take (Suc i - length (dec_text (unat x))) z @ dec_text (unat x) @ drop (Suc i) z)"
proof (induction x i z rule: int2text_loop.induct)
  case (1 x i z)
  have d: "unat (x div 10) = unat x div 10" "unat (x mod 10) = unat x mod 10"
    by (simp_all add: unat_div unat_mod)
  have c: "(ucast (x mod 10) + 48 :: u8) = of_nat (unat x mod 10) + 48"
    unfolding d(2) [symmetric] by simp
  have put: "mem_put z i [ucast (x mod 10) + 48]
      = Some (take i z @ [of_nat (unat x mod 10) + 48] @ drop (Suc i) z)"
    using "1.prems"(2) c by (simp add: mem_put_def)
  show ?case
  proof (cases "unat x < 10")
    case True
    then have "x div 10 = 0" using d(1) by (metis div_less unat_eq_zero)
    moreover have "dec_text (unat x) = [of_nat (unat x mod 10) + 48]" using True by (simp add: dec_text.simps)
    ultimately show ?thesis using put by (subst int2text_loop.simps) simp
  next
    case False
    then have nz: "x div 10 \<noteq> 0" using d(1) by (metis div_greater_zero_iff not_less unat_0 less_irrefl zero_less_numeral)
    have t: "dec_text (unat x) = dec_text (unat (x div 10)) @ [of_nat (unat x mod 10) + 48]"
      using False d(1) by (subst dec_text.simps) simp
    let ?z = "take i z @ [of_nat (unat x mod 10) + 48] @ drop (Suc i) z"
    have ne: "dec_text m \<noteq> []" for m by (subst dec_text.simps) simp
    have i: "i \<noteq> 0" using "1.prems"(1) t ne [of "unat (x div 10)"] by (cases i) auto
    have "int2text_loop (x div 10) (i - 1) ?z = Some (Suc (i - 1) - length (dec_text (unat (x div 10))),
       take (Suc (i - 1) - length (dec_text (unat (x div 10)))) ?z @ dec_text (unat (x div 10)) @ drop (Suc (i - 1)) ?z)"
      using "1.prems" t i put nz by (intro "1.IH") auto
    then show ?thesis using put nz i t "1.prems"
      by (subst int2text_loop.simps) (simp add: min_def)
  qed
qed

definition int_text :: "int \<Rightarrow> u8 list" where
  "int_text v = (if v < 0 then 45 # dec_text (nat (- v)) else dec_text (nat v))"

lemma int2text_start:
  fixes x :: u64
  assumes "unat x \<le> 9223372036854775808"
  shows "length (dec_text (unat x)) \<le> 19"
    "int2text_loop x 20 (replicate 22 0) = Some (21 - length (dec_text (unat x)),
       replicate (21 - length (dec_text (unat x))) 0 @ dec_text (unat x) @ [0])"
proof -
  show l: "length (dec_text (unat x)) \<le> 19" using assms by (intro dec_text_length) auto
  have "Suc 20 = 21" "drop (Suc 20) (replicate 22 0) = [0 :: u8]" by (simp_all add: numeral_eq_Suc)
  moreover have "take n (replicate 22 0) = replicate n (0 :: u8)" if "n \<le> 21" for n
    using that by simp
  ultimately show "int2text_loop x 20 (replicate 22 0) = Some (21 - length (dec_text (unat x)),
       replicate (21 - length (dec_text (unat x))) 0 @ dec_text (unat x) @ [0])"
    using int2text_loop_spec [of x 20 "replicate 22 0"] l by (simp add: numeral_eq_Suc)
qed

lemma int_text_length:
  assumes "i64_ok v"
  shows "length (int_text v) \<le> 20"
proof -
  have "nat (- v) < 10 ^ 19" "nat v < 10 ^ 19" using assms by (auto simp: i64_ok_def)
  then have "length (dec_text (nat (- v))) \<le> 19" "length (dec_text (nat v)) \<le> 19"
    by (simp_all add: dec_text_length)
  then show ?thesis by (simp add: int_text_def)
qed

lemma int64_to_text:
  assumes "i64_ok v" "21 \<le> length zOut"
  shows "sqlite3Int64ToText v zOut =
    Some (length (int_text v), int_text v @ 0 # drop (Suc (length (int_text v))) zOut)"
proof -
  define x :: u64 where "x = (if v < 0 then if v = SMALLEST_INT64 then push_bit 63 1 else word_of_int (- v)
               else word_of_int v)"
  have x: "unat x = nat \<bar>v\<bar>"
  proof -
    have w: "uint (word_of_int w :: u64) = w" if "0 \<le> w" "w < 18446744073709551616" for w
      using that by (simp add: uint_word_of_int)
    have "v < 0 \<Longrightarrow> uint (word_of_int (- v) :: u64) = - v" "0 \<le> v \<Longrightarrow> uint (word_of_int v :: u64) = v"
      using assms(1) unfolding i64_ok_def by (rule_tac w, auto)+
    then have "uint x = \<bar>v\<bar>" by (auto simp: x_def)
    then show ?thesis by (metis nat_uint_eq)
  qed
  have small: "unat x \<le> 9223372036854775808" using assms(1) unfolding x by (auto simp: i64_ok_def)
  let ?d = "dec_text (unat x)"
  have l: "length ?d \<le> 19" and run: "int2text_loop x 20 (replicate 22 0) =
      Some (21 - length ?d, replicate (21 - length ?d) 0 @ ?d @ [0])"
    using int2text_start [OF small] by blast+
  show ?thesis
  proof (cases "v < 0")
    case True
    have t: "int_text v = 45 # ?d" using True x by (simp add: int_text_def)
    have put: "mem_put (replicate (21 - length ?d) 0 @ ?d @ [0]) (20 - length ?d) [45]
        = Some (replicate (20 - length ?d) 0 @ 45 # ?d @ [0])"
      using l by (simp add: mem_put_def Suc_diff_le)
    show ?thesis
      using True run put l assms(2) unfolding sqlite3Int64ToText_def x_def [symmetric] Let_def t
      by (simp add: Suc_diff_le)
  next
    case False
    have t: "int_text v = ?d" using False x by (simp add: int_text_def)
    show ?thesis
      using False run l assms(2) unfolding sqlite3Int64ToText_def x_def [symmetric] Let_def t
      by (simp add: Suc_diff_le)
  qed
qed

lemma digit_not_space: "sqlite3Isdigit c \<Longrightarrow> \<not> sqlite3Isspace c \<and> c \<noteq> 45 \<and> c \<noteq> 43"
  by (auto simp: sqlite3Isdigit_iff sqlite3Isspace_iff word_le_nat_alt word_unat_eq_iff)

lemma dec_text_Cons: "\<exists>c cs. dec_text n = c # cs \<and> sqlite3Isdigit c"
proof -
  have "dec_text n \<noteq> []" by (subst dec_text.simps) simp
  then show ?thesis using dec_text_digits [of n] by (cases "dec_text n") auto
qed

lemma atoi64_int_text:
  assumes "i64_ok v"
  shows "atoi64_spec False (int_text v) = (0, v)"
proof -
  define n where "n = nat \<bar>v\<bar>"
  obtain c cs where d: "dec_text n = c # cs" "sqlite3Isdigit c" using dec_text_Cons by blast
  have s45: "\<not> sqlite3Isspace 45" by (simp add: sqlite3Isspace_iff)
  have t: "int_text v = (if v < 0 then 45 # dec_text n else dec_text n)" by (simp add: int_text_def n_def)
  have "split_sign (dropWhile sqlite3Isspace (int_text v)) = (v < 0, dec_text n)"
    using d digit_not_space [OF d(2)] s45 by (simp add: t split_sign_def)
  moreover have td: "takeWhile sqlite3Isdigit (dec_text n) = dec_text n" "dropWhile sqlite3Isdigit (dec_text n) = []"
    using dec_text_digits [of n] by (simp_all add: takeWhile_eq_all_conv dropWhile_eq_Nil_conv)
  moreover have "dec_text n \<noteq> []" using d by simp
  ultimately have "atoi64_spec False (int_text v) = atoi64_result (v < 0) 0 n"
    by (simp add: atoi64_spec_def Let_def dec_text_value td)
  moreover have "int n = \<bar>v\<bar>" by (simp add: n_def)
  ultimately show ?thesis
    using assms by (simp add: atoi64_result_def Let_def i64_ok_def)
qed

subsection \<open>Zero-terminated scans\<close>

lemma rd_drop: "rd (drop p z) i = rd z (p + i)"
  by (auto simp: rd_def)

lemma skip_zeros_spec:
  "\<lbrakk>drop p z = t @ 0 # r\<rbrakk> \<Longrightarrow>
   skip_zeros z p = Some (p + length (takeWhile (\<lambda>c. c = 48) t))"
proof (induction t arbitrary: p)
  case Nil
  then have "rd z p = Some 0" using rd_drop [of p z 0] by simp
  then show ?case by (subst skip_zeros.simps) simp
next
  case (Cons c t)
  then have c: "rd z p = Some c" using rd_drop [of p z 0] by simp
  have "drop (Suc p) z = t @ 0 # r" using Cons.prems by (metis append_Cons drop_Suc list.sel(3) drop_tl)
  from Cons.IH [OF this] c show ?case by (subst skip_zeros.simps) auto
qed

lemma drop_skip_zeros:
  "drop p z = t @ 0 # r \<Longrightarrow> drop (p + length (takeWhile P t)) z = dropWhile P t @ 0 # r"
  by (metis add.commute append_assoc append_eq_conv_conj drop_drop takeWhile_dropWhile_id)

lemma drop_rd:
  assumes "drop p z = t @ 0 # r"
  shows "i < length t \<Longrightarrow> rd z (p + i) = Some (t ! i)" "rd z (p + length t) = Some 0"
  unfolding rd_drop [symmetric] assms by (simp_all add: rd_def nth_append)

lemma drop_step: "drop p z = c # t \<Longrightarrow> rd z p = Some c \<and> drop (Suc p) z = t"
  using rd_drop [of p z 0] by (metis add.right_neutral drop_Suc drop_tl list.sel(3) rd_Cons_0)

lemma zero_classes [simp]: "\<not> sqlite3Isxdigit 0" "\<not> sqlite3Isdigit 0" "\<not> sqlite3Isspace 0"
  by (simp_all add: sqlite3Isxdigit_iff sqlite3Isdigit_iff sqlite3Isspace_iff)

definition hex_val :: "u8 list \<Rightarrow> nat" where
  "hex_val hs = foldl (\<lambda>v c. v * 16 + unat (sqlite3HexToInt c)) 0 hs"

lemma hex_val_simps [simp]:
  "hex_val [] = 0" "hex_val (hs @ [c]) = hex_val hs * 16 + unat (sqlite3HexToInt c)"
  by (simp_all add: hex_val_def)

lemma hex_val_Cons: "hex_val (c # hs) = unat (sqlite3HexToInt c) * 16 ^ length hs + hex_val hs"
  by (induction hs rule: rev_induct) (simp_all add: hex_val_def algebra_simps)

lemma hex_digit_less: "unat (sqlite3HexToInt c) < 16"
proof -
  have "sqlite3HexToInt c = take_bit 4 (c + 9 * (1 AND drop_bit 6 c))"
    by (simp add: sqlite3HexToInt_def take_bit_eq_mask mask_eq_exp_minus_1)
  then have "unat (sqlite3HexToInt c) = unat (c + 9 * (1 AND drop_bit 6 c)) mod 16"
    by (simp add: take_bit_eq_mod unat_mod)
  then show ?thesis by simp
qed

lemma hex_val_less: "hex_val hs < 16 ^ length hs"
proof (induction hs rule: rev_induct)
  case (snoc c hs)
  then show ?case using hex_digit_less [of c] by simp
qed simp

lemma scan_hex8_spec:
  "\<lbrakk>drop (p + i) z = t @ 0 # r; i \<le> 8\<rbrakk> \<Longrightarrow>
   scan_hex8 z p i u = Some (i + length (take (8 - i) (takeWhile sqlite3Isxdigit t)),
     foldl (\<lambda>u c. u * 16 + ucast (sqlite3HexToInt c)) u (take (8 - i) (takeWhile sqlite3Isxdigit t)))"
proof (induction t arbitrary: i u)
  case Nil
  then show ?case using drop_step [of "p + i" z] by (subst scan_hex8.simps) auto
next
  case (Cons c t)
  have c: "rd z (p + i) = Some c" "drop (p + Suc i) z = t @ 0 # r" using Cons.prems(1) drop_step by auto
  show ?case
  proof (cases "i < 8 \<and> sqlite3Isxdigit c")
    case True
    then have "scan_hex8 z p i u = scan_hex8 z p (Suc i) (u * 16 + ucast (sqlite3HexToInt c))"
      using c(1) by (subst scan_hex8.simps) simp
    moreover have "8 - i = Suc (8 - Suc i)" using True by linarith
    ultimately show ?thesis using Cons.IH [OF c(2)] True by simp
  next
    case False
    then show ?thesis using c(1) Cons.prems(2) by (subst scan_hex8.simps) auto
  qed
qed

lemma sint_u8_low: "\<not> bit (c :: u8) 7 \<Longrightarrow> sint c = uint c"
proof -
  assume "\<not> bit c 7"
  then have "even (unat c div 128)"
    using bit_unsigned_iff [where 'a = nat, of c 7] bit_iff_odd [of "unat c" 7] by simp
  moreover have "unat c div 128 < 2" using unat_bounds(1) [of c] by simp
  ultimately have "unat c div 128 = 0" by (auto simp: less_2_cases_iff)
  then have "unat c < 128" by simp
  then have "c < 128" by (simp add: word_less_nat_alt)
  then have "uint c < 128" "- 128 \<le> uint c"
    using uint_nonnegative [of c] by (simp_all add: word_less_def order_trans [of _ 0])
  then show ?thesis by (simp add: sint_uint signed_take_bit_int_eq_self_iff)
qed

lemma scan_dec11_spec:
  "\<lbrakk>drop (p + i) z = t @ 0 # r; i \<le> 11\<rbrakk> \<Longrightarrow>
   scan_dec11 z p i v = Some (i + length (take (11 - i) (takeWhile sqlite3Isdigit t)),
     foldl (\<lambda>v c. v * 10 + (int (unat c) - 48)) v (take (11 - i) (takeWhile sqlite3Isdigit t)))"
proof (induction t arbitrary: i v)
  case Nil
  then show ?case using drop_step [of "p + i" z] by (subst scan_dec11.simps) auto
next
  case (Cons c t)
  have c: "rd z (p + i) = Some c" "drop (p + Suc i) z = t @ 0 # r" using Cons.prems(1) drop_step by auto
  have dig: "0 \<le> sint c - 48 \<and> sint c - 48 \<le> 9 \<longleftrightarrow> sqlite3Isdigit c"
  proof
    assume "sqlite3Isdigit c"
    then show "0 \<le> sint c - 48 \<and> sint c - 48 \<le> 9" using digit_bound [of c] sint_digit [of c] by linarith
  next
    assume a: "0 \<le> sint c - 48 \<and> sint c - 48 \<le> 9"
    then have "\<not> bit c 7" using sint_u8_nonneg [of c] by simp
    then have "sint c = uint c" by (rule sint_u8_low)
    then show "sqlite3Isdigit c" using a by (simp add: sqlite3Isdigit_iff word_le_def)
  qed
  show ?case
  proof (cases "i < 11 \<and> sqlite3Isdigit c")
    case True
    then have "scan_dec11 z p i v = scan_dec11 z p (Suc i) (v * 10 + (int (unat c) - 48))"
      using c(1) dig by (subst scan_dec11.simps) (simp add: sint_digit)
    moreover have "11 - i = Suc (11 - Suc i)" using True by linarith
    ultimately show ?thesis using Cons.IH [OF c(2)] True by simp
  next
    case False
    then show ?thesis using c(1) Cons.prems(2) dig by (subst scan_dec11.simps) (auto simp: Let_def)
  qed
qed

lemma scan_hex_spec:
  "drop k z = t @ 0 # r \<Longrightarrow>
   scan_hex z k u = Some (k + length (takeWhile sqlite3Isxdigit t),
     foldl (\<lambda>u c. u * 16 + ucast (sqlite3HexToInt c)) u (takeWhile sqlite3Isxdigit t))"
proof (induction t arbitrary: k u)
  case Nil
  then show ?case using drop_step [of k z] by (subst scan_hex.simps) auto
next
  case (Cons c t)
  have c: "rd z k = Some c" "drop (Suc k) z = t @ 0 # r" using Cons.prems drop_step by auto
  show ?case using Cons.IH [OF c(2)] c(1) by (subst scan_hex.simps) auto
qed

lemma strspn_spec:
  "drop n z = t @ 0 # r \<Longrightarrow> strspn_int z n = Some (n + length (takeWhile is_int_char t))"
proof (induction t arbitrary: n)
  case Nil
  then show ?case using drop_step [of n z] by (subst strspn_int.simps) (auto simp: is_int_char_def)
next
  case (Cons c t)
  have c: "rd z n = Some c" "drop (Suc n) z = t @ 0 # r" using Cons.prems drop_step by auto
  show ?case using Cons.IH [OF c(2)] c(1) by (subst strspn_int.simps) auto
qed

lemma fold_hex:
  "foldl (\<lambda>u c. u * 16 + ucast (sqlite3HexToInt c)) 0 hs = (of_nat (hex_val hs) :: 'a :: len word)"
  by (induction hs rule: rev_induct) (simp_all add: algebra_simps)

lemma fold_dec_int:
  "\<forall>c \<in> set ds. sqlite3Isdigit c \<Longrightarrow>
   foldl (\<lambda>v c. v * 10 + (int (unat c) - 48)) 0 ds = int (dec_val ds)"
proof (induction ds rule: rev_induct)
  case (snoc c ds)
  then show ?case using digit_bound [of c] by (simp add: of_nat_diff)
qed simp

subsection \<open>What the 32-bit parsers accept\<close>

text \<open>The value of a text the routine accepts: \<open>0x\<close> and hexadecimal digits below \<open>2 ^ 31\<close>, or a decimal
  number in the range of \<^verbatim>\<open>int\<close>; anything may follow.\<close>

definition hex_prefix :: "u8 list \<Rightarrow> bool" where
  "hex_prefix s \<longleftrightarrow> 3 \<le> length s \<and> s ! 0 = 48 \<and> (s ! 1 = 120 \<or> s ! 1 = 88) \<and> sqlite3Isxdigit (s ! 2)"

definition dec32_of :: "bool \<Rightarrow> u8 list \<Rightarrow> int option" where
  "dec32_of neg t =
     (let ds = takeWhile sqlite3Isdigit t; v = int (dec_val ds) in
      if ds = [] then None
      else if neg then if v \<le> 2147483648 then Some (- v) else None
      else if v < 2147483648 then Some v else None)"

definition int32_of :: "u8 list \<Rightarrow> int option" where
  "int32_of s =
     (if hex_prefix s then
        let v = int (hex_val (takeWhile sqlite3Isxdigit (drop 2 s))) in
        if v < 2147483648 then Some v else None
      else case_prod dec32_of (split_sign s))"

definition int32_result :: "int \<Rightarrow> int option \<Rightarrow> nat \<times> int" where
  "int32_result old r = (case r of None \<Rightarrow> (0, old) | Some v \<Rightarrow> (1, v))"

lemma sig_ge:
  assumes "takeWhile sqlite3Isdigit (dropWhile (\<lambda>c. c = 48) t) = c # cs"
  shows "10 ^ length cs \<le> dec_val (c # cs)"
proof -
  have "c \<noteq> 48" using assms sig_first [of c t]
    by (cases "dropWhile (\<lambda>c. c = 48) t") (auto split: if_splits)
  moreover have "sqlite3Isdigit c" using assms by (metis list.set_intros(1) set_takeWhileD)
  ultimately show ?thesis by (intro dec_val_ge)
qed

lemma getint32_dec_spec:
  assumes "drop p z = t @ 0 # r"
  shows "getint32_dec z p neg pv = Some (int32_result pv (dec32_of neg t))"
proof (cases "takeWhile sqlite3Isdigit t = []")
  case True
  then have "\<not> sqlite3Isdigit (hd (t @ [0]))" by (cases t) (auto split: if_splits)
  moreover have "rd z p = Some (hd (t @ [0]))"
    using drop_step [of p z "hd (t @ [0])" "tl (t @ 0 # r)"] assms by (cases t) auto
  ultimately show ?thesis using True by (simp add: getint32_dec_def dec32_of_def int32_result_def Let_def)
next
  case False
  let ?s = "dropWhile (\<lambda>c. c = 48) t"
  define ds where "ds = takeWhile sqlite3Isdigit ?s"
  have dig: "\<forall>c \<in> set ds. sqlite3Isdigit c" unfolding ds_def by (auto dest: set_takeWhileD)
  have val: "dec_val (takeWhile sqlite3Isdigit t) = dec_val ds"
    unfolding digits_split [of t] ds_def [symmetric] by (rule dec_val_zeros) (auto dest: set_takeWhileD)
  obtain c t' where t: "t = c # t'" "sqlite3Isdigit c" using False by (cases t) (auto split: if_splits)
  have r0: "rd z p = Some c" using drop_step [of p z c] assms t by simp
  let ?p = "p + length (takeWhile (\<lambda>c. c = 48) t)"
  have sk: "skip_zeros z p = Some ?p" using skip_zeros_spec [OF assms] .
  have "drop (?p + 0) z = ?s @ 0 # r" using drop_skip_zeros [OF assms] by simp
  from scan_dec11_spec [OF this, of 0]
  have sc: "scan_dec11 z ?p 0 0 = Some (min (length ds) 11, int (dec_val (take 11 ds)))"
    using fold_dec_int [of "take 11 ds"] dig by (simp add: ds_def [symmetric] min.commute) (meson in_set_takeD)
  show ?thesis
  proof (cases "length ds \<le> 10")
    case True
    then have "dec_val (take 11 ds) = dec_val ds" "min (length ds) 11 \<le> 10" by simp_all
    then show ?thesis using r0 t(2) sk sc False True
      by (simp add: getint32_dec_def dec32_of_def int32_result_def Let_def val)
  next
    case False
    then obtain d ds' where d: "ds = d # ds'" "10 \<le> length ds'" by (cases ds) auto
    have "10 ^ length ds' \<le> dec_val ds" using sig_ge [of t d ds'] d(1) by (simp add: ds_def)
    moreover have "(10 :: nat) ^ 10 \<le> 10 ^ length ds'" using d(2) by (intro power_increasing) auto
    ultimately have "10000000000 \<le> dec_val ds" by simp
    moreover have "min (length ds) 11 = 11" using False by simp
    ultimately show ?thesis using r0 t(2) sk sc \<open>takeWhile sqlite3Isdigit t \<noteq> []\<close>
      by (simp add: getint32_dec_def dec32_of_def int32_result_def Let_def val)
  qed
qed

lemma HexToInt_0: "sqlite3HexToInt 48 = 0"
  by (simp add: sqlite3HexToInt_def)

lemma hex_val_zeros: "\<forall>c \<in> set zs. c = 48 \<Longrightarrow> hex_val (zs @ hs) = hex_val hs"
  by (induction zs) (auto simp: hex_val_Cons HexToInt_0)

lemma hex_split:
  "takeWhile sqlite3Isxdigit t =
     takeWhile (\<lambda>c. c = 48) t @ takeWhile sqlite3Isxdigit (dropWhile (\<lambda>c. c = 48) t)"
  by (induction t) (auto simp: sqlite3Isxdigit_iff)

lemma xdigit_cases:
  assumes "sqlite3Isxdigit c"
  shows "unat c \<in> set ([48..<58] @ [65..<71] @ [97..<103])"
  unfolding set_append set_upt Un_iff atLeastLessThan_iff
  using assms by (auto simp: sqlite3Isxdigit_iff word_le_nat_alt)

definition hex_digit_of :: "nat \<Rightarrow> nat" where
  "hex_digit_of n = (if n < 64 then n - 48 else if n < 96 then n - 55 else n - 87)"

lemma HexToInt_value: "sqlite3Isxdigit c \<Longrightarrow> unat (sqlite3HexToInt c) = hex_digit_of (unat c)"
proof -
  assume "sqlite3Isxdigit c"
  then have m: "unat c \<in> set ([48..<58] @ [65..<71] @ [97..<103])" by (rule xdigit_cases)
  have "\<forall>n \<in> set ([48..<58] @ [65..<71] @ [97..<103]).
      unat (sqlite3HexToInt (of_nat n)) = hex_digit_of n"
    by (simp add: upt_rec hex_digit_of_def sqlite3HexToInt_def)
  from bspec [OF this m] show ?thesis by simp
qed

lemma xdigit_nonzero: "\<lbrakk>sqlite3Isxdigit c; c \<noteq> 48\<rbrakk> \<Longrightarrow> 1 \<le> unat (sqlite3HexToInt c)"
proof -
  assume c: "sqlite3Isxdigit c" "c \<noteq> 48"
  then have "unat c \<noteq> 48" by (simp add: word_unat_eq_iff)
  then show ?thesis using xdigit_cases [OF c(1)] by (auto simp: HexToInt_value [OF c(1)] hex_digit_of_def)
qed

lemma hex_sig_ge:
  assumes "takeWhile sqlite3Isxdigit (dropWhile (\<lambda>c. c = 48) t) = c # cs"
  shows "16 ^ length cs \<le> hex_val (c # cs)"
proof -
  have "c \<noteq> 48" using assms sig_first [of c t]
    by (cases "dropWhile (\<lambda>c. c = 48) t") (auto split: if_splits)
  moreover have "sqlite3Isxdigit c" using assms by (metis list.set_intros(1) set_takeWhileD)
  ultimately have "1 \<le> unat (sqlite3HexToInt c)" by (intro xdigit_nonzero)
  then have "1 * 16 ^ length cs \<le> unat (sqlite3HexToInt c) * 16 ^ length cs" by (rule mult_right_mono) simp
  then show ?thesis unfolding hex_val_Cons by linarith
qed

lemma u32_top: "(u AND 2147483648 = (0 :: u32)) \<longleftrightarrow> unat u < 2147483648"
proof -
  have "u AND 2147483648 = 0 \<longleftrightarrow> \<not> bit u 31" using and_exp_eq_0_iff_not_bit [of u 31] by simp
  also have "\<dots> \<longleftrightarrow> even (unat u div 2147483648)"
    using bit_unsigned_iff [where 'a = nat, of u 31] bit_iff_odd [of "unat u" 31] by auto
  also have "\<dots> \<longleftrightarrow> unat u < 2147483648"
  proof -
    have "unat u div 2147483648 < 2" using unat_bounds(3) [of u] by simp
    then have "unat u div 2147483648 = 0 \<or> unat u div 2147483648 = 1" by linarith
    then show ?thesis by (auto simp: div_eq_0_iff)
  qed
  finally show ?thesis .
qed

lemma getint32_hex_spec:
  assumes "drop 2 z = t @ 0 # r"
  shows "getint32_hex z pv = Some (int32_result pv
    (let v = int (hex_val (takeWhile sqlite3Isxdigit t)) in if v < 2147483648 then Some v else None))"
proof -
  let ?s = "dropWhile (\<lambda>c. c = 48) t"
  define hs where "hs = takeWhile sqlite3Isxdigit ?s"
  have val: "hex_val (takeWhile sqlite3Isxdigit t) = hex_val hs"
    unfolding hex_split [of t] hs_def [symmetric] by (rule hex_val_zeros) (auto dest: set_takeWhileD)
  let ?p = "2 + length (takeWhile (\<lambda>c. c = 48) t)"
  have sk: "skip_zeros z 2 = Some ?p" using skip_zeros_spec [OF assms] .
  have d: "drop ?p z = ?s @ 0 # r" using drop_skip_zeros [OF assms] by simp
  have sc: "scan_hex8 z ?p 0 0 = Some (min (length hs) 8, of_nat (hex_val (take 8 hs)))"
    using scan_hex8_spec [of ?p 0 z ?s r 0] d by (simp add: hs_def [symmetric] fold_hex min.commute)
  have u: "unat (of_nat (hex_val (take 8 hs)) :: u32) = hex_val (take 8 hs)"
  proof -
    have "(16 :: nat) ^ length (take 8 hs) \<le> 16 ^ 8" by (intro power_increasing) auto
    then have "hex_val (take 8 hs) < 4294967296" using hex_val_less [of "take 8 hs"] by simp
    then show ?thesis by (simp add: unat_of_nat)
  qed
  have nextc: "\<exists>c. rd z (?p + min (length hs) 8) = Some c \<and> (sqlite3Isxdigit c \<longleftrightarrow> 8 < length hs)"
  proof (cases "8 < length hs")
    case True
    then have l: "8 < length ?s" unfolding hs_def by (meson length_takeWhile_le less_le_trans)
    have "?s ! 8 = hs ! 8" using True unfolding hs_def by (simp add: takeWhile_nth)
    moreover have "sqlite3Isxdigit (hs ! 8)" using True unfolding hs_def by (meson nth_mem set_takeWhileD)
    ultimately show ?thesis using drop_rd(1) [OF d l] True by simp
  next
    case False
    define w where "w = dropWhile sqlite3Isxdigit ?s"
    have "drop (?p + length hs) z = w @ 0 # r" unfolding hs_def w_def using drop_skip_zeros [OF d] .
    then have "rd z (?p + length hs) = Some (hd (w @ [0]))"
      using drop_step [of "?p + length hs" z "hd (w @ [0])" "tl (w @ 0 # r)"] by (cases w) auto
    moreover have "\<not> sqlite3Isxdigit (hd (w @ [0]))"
      using hd_dropWhile [of sqlite3Isxdigit ?s] by (cases w) (auto simp: w_def [symmetric])
    ultimately show ?thesis using False by (simp add: min_def)
  qed
  have big: "8 < length hs \<Longrightarrow> 2147483648 \<le> hex_val hs"
  proof -
    assume "8 < length hs"
    then obtain h hs' where h: "hs = h # hs'" "8 \<le> length hs'" by (cases hs) auto
    have "16 ^ length hs' \<le> hex_val hs" using hex_sig_ge [of t h hs'] h(1) by (simp add: hs_def)
    moreover have "(16 :: nat) ^ 8 \<le> 16 ^ length hs'" using h(2) by (intro power_increasing) auto
    ultimately show ?thesis by simp
  qed
  have si: "sint (of_nat n :: u32) = int n" if "n < 2147483648" for n
    using that by (simp add: sint_uint uint_nat unat_of_nat signed_take_bit_int_eq_self_iff)
  show ?thesis
    using sk sc nextc big u si [of "hex_val hs"] unfolding val
    by (cases "8 < length hs") (auto simp: getint32_hex_def u32_top int32_result_def Let_def)
qed

lemma getint32_text:
  assumes "0 \<notin> set s"
  shows "sqlite3GetInt32 (s @ 0 # r) pv = Some (int32_result pv (int32_of s))"
proof (cases s)
  case Nil
  then show ?thesis using getint32_dec_spec [of 0 "s @ 0 # r" "[]" r False pv]
    by (simp add: sqlite3GetInt32_def int32_of_def hex_prefix_def split_sign_def rd_def)
next
  case (Cons c t)
  let ?z = "s @ 0 # r"
  have z0: "rd ?z 0 = Some c" using Cons by simp
  consider "c = 45" | "c = 43" | "c \<noteq> 45" "c \<noteq> 43" "\<not> hex_prefix s" | "hex_prefix s"
    by blast
  then show ?thesis
  proof cases
    case 1
    have "\<not> hex_prefix s" using 1 Cons by (simp add: hex_prefix_def)
    moreover have "drop 1 ?z = t @ 0 # r" using Cons by simp
    ultimately show ?thesis using 1 z0 Cons getint32_dec_spec [of 1 ?z t r True pv]
      by (simp add: sqlite3GetInt32_def int32_of_def split_sign_def)
  next
    case 2
    have "\<not> hex_prefix s" using 2 Cons by (simp add: hex_prefix_def)
    moreover have "drop 1 ?z = t @ 0 # r" using Cons by simp
    ultimately show ?thesis using 2 z0 Cons getint32_dec_spec [of 1 ?z t r False pv]
      by (simp add: sqlite3GetInt32_def int32_of_def split_sign_def)
  next
    case 3
    have dec: "getint32_dec ?z 0 False pv = Some (int32_result pv (int32_of s))"
      using getint32_dec_spec [of 0 ?z s r False pv] 3 Cons by (simp add: int32_of_def split_sign_def)
    show ?thesis
    proof (cases t)
      case Nil
      then show ?thesis using 3 z0 dec Cons by (auto simp: sqlite3GetInt32_def)
    next
      case t: (Cons d u)
      have "\<exists>h. rd ?z 2 = Some h \<and> (c = 48 \<and> (d = 120 \<or> d = 88) \<longrightarrow> \<not> sqlite3Isxdigit h)"
        using 3 Cons t by (cases u) (auto simp: hex_prefix_def)
      then show ?thesis using 3 z0 dec Cons t by (auto simp: sqlite3GetInt32_def)
    qed
  next
    case 4
    then obtain d h u where s: "s = 48 # d # h # u" "d = 120 \<or> d = 88" "sqlite3Isxdigit h"
      by (cases s; cases t; cases "tl t") (auto simp: hex_prefix_def Cons)
    have "drop 2 ?z = (h # u) @ 0 # r" using s by simp
    from getint32_hex_spec [OF this, of pv]
    show ?thesis using s 4 by (simp add: sqlite3GetInt32_def int32_of_def)
  qed
qed

text \<open>An unsigned number: only digits, at least one, and at most \<open>2 ^ 32\<close>.\<close>

lemma getuint32_loop_spec:
  "\<lbrakk>drop i z = t @ 0 # r; n \<le> 4294967296\<rbrakk> \<Longrightarrow>
   getuint32_loop z i (of_nat n) =
     Some (let ds = takeWhile sqlite3Isdigit t; m = n * 10 ^ length ds + dec_val ds in
           if m \<le> 4294967296 then Some (i + length ds, of_nat m) else None)"
proof (induction t arbitrary: i n)
  case Nil
  then show ?case using drop_step [of i z] by (subst getuint32_loop.simps) (auto simp: Let_def)
next
  case (Cons c t)
  have c: "rd z i = Some c" "drop (Suc i) z = t @ 0 # r" using Cons.prems drop_step by auto
  show ?case
  proof (cases "sqlite3Isdigit c")
    case True
    let ?n = "n * 10 + (unat c - 48)" and ?ds = "takeWhile sqlite3Isdigit t"
    have dig: "48 \<le> unat c" "unat c \<le> 57" using digit_bound [OF True] by auto
    have "(ucast c :: u64) = of_nat (unat c)" by simp
    moreover have "(of_nat (unat c) :: u64) - 48 = of_nat (unat c - 48)"
      using dig by (simp add: of_nat_diff)
    ultimately have v: "of_nat n * 10 + ucast c - 48 = (of_nat ?n :: u64)" by (simp add: add_diff_eq [symmetric])
    have u: "unat (of_nat ?n :: u64) = ?n" using Cons.prems(2) dig by (intro u64_of_dec) simp
    have step: "getuint32_loop z i (of_nat n) =
        (if (of_nat ?n :: u64) > 4294967296 then Some None else getuint32_loop z (Suc i) (of_nat ?n))"
      unfolding v [symmetric] using c(1) True by (subst getuint32_loop.simps) (simp add: Let_def)
    have m: "?n * 10 ^ length ?ds + dec_val ?ds = n * 10 ^ Suc (length ?ds) + dec_val (c # ?ds)"
      by (simp add: dec_val_Cons algebra_simps)
    show ?thesis
    proof (cases "?n \<le> 4294967296")
      case le: True
      then have "\<not> (of_nat ?n :: u64) > 4294967296" unfolding word_less_nat_alt u by simp
      then have "getuint32_loop z i (of_nat n) = getuint32_loop z (Suc i) (of_nat ?n)"
        unfolding step by simp
      then show ?thesis using Cons.IH [OF c(2) le] True m by (simp add: Let_def)
    next
      case gt: False
      then have "(of_nat ?n :: u64) > 4294967296" unfolding word_less_nat_alt u by simp
      then have "getuint32_loop z i (of_nat n) = Some None"
        unfolding step by simp
      moreover have "?n \<le> ?n * 10 ^ length ?ds + dec_val ?ds" by (simp add: trans_le_add1)
      ultimately show ?thesis using True m gt by (simp add: Let_def)
    qed
  next
    case False
    then show ?thesis using c(1) Cons.prems(2) by (subst getuint32_loop.simps) (simp add: Let_def)
  qed
qed

lemma getuint32_text:
  assumes "0 \<notin> set s"
  shows "sqlite3GetUInt32 (s @ 0 # r) =
    Some (if s \<noteq> [] \<and> list_all sqlite3Isdigit s \<and> dec_val s \<le> 4294967296
          then (1, of_nat (dec_val s)) else (0, 0))"
proof -
  define ds where "ds = takeWhile sqlite3Isdigit s"
  have run: "getuint32_loop (s @ 0 # r) 0 0 =
      Some (if dec_val ds \<le> 4294967296 then Some (length ds, of_nat (dec_val ds)) else None)"
    using getuint32_loop_spec [of 0 "s @ 0 # r" s r 0] by (simp add: Let_def ds_def)
  have conv: "(ucast (of_nat n :: u64) :: u32) = of_nat n" if "n \<le> 4294967296" for n
  proof -
    have "(ucast (of_nat n :: u64) :: u32) = of_nat (unat (of_nat n :: u64))" by simp
    also have "unat (of_nat n :: u64) = n" using that by (intro u64_of_dec) simp
    finally show ?thesis .
  qed
  show ?thesis
  proof (cases "list_all sqlite3Isdigit s")
    case True
    then have "ds = s" by (simp add: ds_def list_all_iff takeWhile_eq_all_conv)
    then show ?thesis using run True
      by (auto simp: sqlite3GetUInt32_def rd_def conv nth_append)
  next
    case False
    then have l: "length ds < length s"
      unfolding ds_def list_all_iff by (metis length_takeWhile_le le_neq_implies_less takeWhile_eq_all_conv takeWhile_eq_take take_all_iff order_refl)
    then have "rd (s @ 0 # r) (length ds) = Some (s ! length ds)" by (simp add: rd_def nth_append)
    moreover have "s ! length ds \<noteq> 0" using l assms by (metis nth_mem)
    ultimately show ?thesis using run False by (auto simp: sqlite3GetUInt32_def)
  qed
qed

subsection \<open>Numbers with digit separators\<close>

text \<open>The loop of \<^verbatim>\<open>sqlite3DequoteNumber\<close> copies the token onto itself without the separators. The results are
  the buffer, whether a float character was seen, and the number of error messages.\<close>

function dequote_num_loop :: "bool \<Rightarrow> u8 list \<Rightarrow> nat \<Rightarrow> nat \<Rightarrow> bool \<Rightarrow> nat \<Rightarrow> (u8 list \<times> bool \<times> nat) option" where
  "dequote_num_loop bHex z pIn pOut isFloat nErr = do {
     c \<leftarrow> rd z pIn;
     (z', pOut', isFloat', nErr') \<leftarrow>
       if c \<noteq> 95 then do {
         z' \<leftarrow> mem_put z pOut [c];
         Some (z', Suc pOut, isFloat \<or> c = 101 \<or> c = 69 \<or> c = 46, nErr)
       } else do {
         a \<leftarrow> if pIn = 0 then None else rd z (pIn - 1);
         b \<leftarrow> rd z (Suc pIn);
         let cls = (if bHex then sqlite3Isxdigit else sqlite3Isdigit);
         Some (z, pOut, isFloat, if \<not> cls a \<or> \<not> cls b then Suc nErr else nErr)
       };
     e \<leftarrow> rd z' pIn;
     if e \<noteq> 0 then dequote_num_loop bHex z' (Suc pIn) pOut' isFloat' nErr' else Some (z', isFloat', nErr')
   }"
  by pat_completeness auto
termination dequote_num_loop
  by (relation "measure (\<lambda>(h, z, i, j, f, n). length z - i)") (auto simp: rd_def mem_put_eq_Some bind_eq_Some_conv Let_def split: if_splits)

declare dequote_num_loop.simps [simp del]

text \<open>The fields of the expression that change: the token text, whether the node became \<open>TK_FLOAT\<close> (else
  \<open>TK_INTEGER\<close>), the integer value of an \<open>EP_IntValue\<close> node, and the messages sent to the parser.\<close>

record QNumber =
  zToken :: "u8 list"
  is_float :: bool
  iValue :: "int option"
  nErr :: nat

definition sqlite3DequoteNumber :: "QNumber \<Rightarrow> QNumber option" where
  "sqlite3DequoteNumber p = do {
     c0 \<leftarrow> rd (zToken p) 0;
     bHex \<leftarrow> if c0 = 48 then do { c1 \<leftarrow> rd (zToken p) 1; Some (c1 = 120 \<or> c1 = 88) } else Some False;
     (z, isFloat, n) \<leftarrow> dequote_num_loop bHex (zToken p) 0 0 False (nErr p);
     let isFloat = (isFloat \<and> \<not> bHex);
     let p = p\<lparr>zToken := z, is_float := isFloat, nErr := n\<rparr>;
     if \<not> isFloat then do {
       (ok, v) \<leftarrow> sqlite3GetInt32 z 0;
       Some (if ok \<noteq> 0 then p\<lparr>iValue := Some v\<rparr> else p)
     } else Some p
   }"

fun separator_errors :: "(u8 \<Rightarrow> bool) \<Rightarrow> u8 \<Rightarrow> u8 list \<Rightarrow> nat" where
  "separator_errors cls prev [] = 0"
| "separator_errors cls prev (c # t) =
     (if c = 95 \<and> (\<not> cls prev \<or> \<not> cls (hd (t @ [0]))) then 1 else 0) + separator_errors cls c t"

lemma mem_put_1: "j < length z \<Longrightarrow> mem_put z j [c] = Some (z[j := c])"
  by (simp add: mem_put_def upd_conv_take_nth_drop)

lemma dequote_num_loop_spec:
  "\<lbrakk>drop i z = t @ 0 # r; j \<le> i; 0 \<notin> set t; i = 0 \<longrightarrow> t \<noteq> [] \<and> hd t \<noteq> 95; 0 < i \<longrightarrow> z ! (i - 1) = prev\<rbrakk> \<Longrightarrow>
   \<exists>w. dequote_num_loop h z i j f n = Some (take j z @ filter (\<lambda>c. c \<noteq> 95) t @ 0 # w,
        f \<or> (\<exists>c \<in> set t. c = 101 \<or> c = 69 \<or> c = 46),
        n + separator_errors (if h then sqlite3Isxdigit else sqlite3Isdigit) prev t)"
proof (induction t arbitrary: i j z f n prev)
  case Nil
  have c: "rd z i = Some 0" using Nil.prems(1) drop_step by auto
  then have i: "i < length z" by (simp add: rd_def split: if_splits)
  then have p: "mem_put z j [0] = Some (z[j := 0])" using Nil.prems(2) by (simp add: mem_put_1)
  have e: "rd (z[j := 0]) i = Some 0" using c i Nil.prems(2) by (simp add: rd_def nth_list_update)
  have "z[j := 0] = take j z @ 0 # drop (Suc j) z"
    using i Nil.prems(2) by (simp add: upd_conv_take_nth_drop)
  then show ?case using c p e by (subst dequote_num_loop.simps) auto
next
  case (Cons c t)
  have c: "rd z i = Some c" "drop (Suc i) z = t @ 0 # r" using Cons.prems(1) drop_step by auto
  have i: "i < length z" "z ! i = c" using c(1) by (simp_all add: rd_def split: if_splits)
  have c0: "c \<noteq> 0" using Cons.prems(3) by auto
  show ?case
  proof (cases "c = 95")
    case False
    have p: "mem_put z j [c] = Some (z[j := c])" using i Cons.prems(2) by (simp add: mem_put_1)
    have e: "rd (z[j := c]) i = Some c" using i Cons.prems(2) by (simp add: rd_def nth_list_update)
    let ?f = "f \<or> c = 101 \<or> c = 69 \<or> c = 46"
    have step: "dequote_num_loop h z i j f n = dequote_num_loop h (z[j := c]) (Suc i) (Suc j) ?f n"
      using c(1) False p e c0 by (subst dequote_num_loop.simps) simp
    have "\<exists>w. dequote_num_loop h (z[j := c]) (Suc i) (Suc j) ?f n
        = Some (take (Suc j) (z[j := c]) @ filter (\<lambda>c. c \<noteq> 95) t @ 0 # w,
        ?f \<or> (\<exists>c \<in> set t. c = 101 \<or> c = 69 \<or> c = 46),
        n + separator_errors (if h then sqlite3Isxdigit else sqlite3Isdigit) c t)"
      using Cons.prems c(2) i by (intro Cons.IH) (auto simp: nth_list_update)
    moreover have "take (Suc j) (z[j := c]) = take j z @ [c]"
      using i Cons.prems(2) by (simp add: take_Suc_conv_app_nth)
    ultimately show ?thesis using step False by auto
  next
    case True
    have i0: "0 < i" using Cons.prems(4) True by (cases i) auto
    have a: "rd z (i - 1) = Some prev" using i0 i Cons.prems(5) by (simp add: rd_def)
    have b: "rd z (Suc i) = Some (hd (t @ [0]))"
      using c(2) drop_step [of "Suc i" z "hd (t @ [0])" "tl (t @ 0 # r)"] by (cases t) auto
    let ?cls = "if h then sqlite3Isxdigit else sqlite3Isdigit"
    let ?n = "if \<not> ?cls prev \<or> \<not> ?cls (hd (t @ [0])) then Suc n else n"
    have step: "dequote_num_loop h z i j f n = dequote_num_loop h z (Suc i) j f ?n"
      using c(1) True a b i0 by (subst dequote_num_loop.simps) (simp add: Let_def)
    have "\<exists>w. dequote_num_loop h z (Suc i) j f ?n
        = Some (take j z @ filter (\<lambda>c. c \<noteq> 95) t @ 0 # w,
        f \<or> (\<exists>c \<in> set t. c = 101 \<or> c = 69 \<or> c = 46),
        ?n + separator_errors ?cls c t)"
      using Cons.prems c(2) i by (intro Cons.IH) auto
    then show ?thesis using step True by auto
  qed
qed

lemma dequote_number:
  assumes "zToken p = s @ 0 # r" "0 \<notin> set s" "s \<noteq> []" "hd s \<noteq> 95"
  defines "hex \<equiv> 2 \<le> length s \<and> s ! 0 = 48 \<and> (s ! 1 = 120 \<or> s ! 1 = 88)"
    and "t \<equiv> filter (\<lambda>c. c \<noteq> 95) s"
    and "flt \<equiv> \<exists>c \<in> set s. c = 101 \<or> c = 69 \<or> c = 46"
  shows "\<exists>w. sqlite3DequoteNumber p = Some (p\<lparr>zToken := t @ 0 # w, is_float := (flt \<and> \<not> hex),
      iValue := (if flt \<and> \<not> hex then iValue p
                 else case int32_of t of Some v \<Rightarrow> Some v | None \<Rightarrow> iValue p),
      nErr := nErr p + separator_errors (if hex then sqlite3Isxdigit else sqlite3Isdigit) 0 s\<rparr>)"
proof -
  have h: "(do { c0 \<leftarrow> rd (zToken p) 0;
     if c0 = 48 then do { c1 \<leftarrow> rd (zToken p) 1; Some (c1 = 120 \<or> c1 = 88) } else Some False }) = Some hex"
    using assms(1-4) by (cases s; cases "tl s") (auto simp: hex_def rd_def)
  obtain w where w: "dequote_num_loop hex (zToken p) 0 0 False (nErr p) = Some (t @ 0 # w, flt,
      nErr p + separator_errors (if hex then sqlite3Isxdigit else sqlite3Isdigit) 0 s)"
    using dequote_num_loop_spec [of 0 "zToken p" s r 0 0 hex False "nErr p"] assms(1-4)
    by (auto simp: t_def flt_def)
  have "0 \<notin> set t" using assms(2) by (auto simp: t_def)
  then have g: "sqlite3GetInt32 (t @ 0 # w) 0 = Some (int32_result 0 (int32_of t))" by (rule getint32_text)
  have "sqlite3DequoteNumber p = do {
     (z, isFloat, n) \<leftarrow> dequote_num_loop hex (zToken p) 0 0 False (nErr p);
     let isFloat = (isFloat \<and> \<not> hex);
     let p = p\<lparr>zToken := z, is_float := isFloat, nErr := n\<rparr>;
     if \<not> isFloat then do {
       (ok, v) \<leftarrow> sqlite3GetInt32 z 0;
       Some (if ok \<noteq> 0 then p\<lparr>iValue := Some v\<rparr> else p)
     } else Some p }"
    using h unfolding sqlite3DequoteNumber_def by (cases "rd (zToken p) 0") (auto split: if_splits)
  then show ?thesis
    unfolding w using g
    by (intro exI [of _ w], cases p) (auto simp: Let_def int32_result_def split: option.splits)
qed

subsection \<open>Hexadecimal text of a blob\<close>

definition hexdigits :: "u8 list" where
  "hexdigits = [48, 49, 50, 51, 52, 53, 54, 55, 56, 57, 65, 66, 67, 68, 69, 70]"

text \<open>The loop of the SQL function \<^verbatim>\<open>hex\<close>, writing into the freshly allocated text.\<close>

fun hex_loop :: "u8 list \<Rightarrow> nat \<Rightarrow> u8 list \<Rightarrow> (nat \<times> u8 list) option" where
  "hex_loop [] z zHex = Some (z, zHex)"
| "hex_loop (c # pBlob) z zHex = do {
     zHex \<leftarrow> mem_put zHex z [hexdigits ! unat (drop_bit 4 c AND 15)];
     zHex \<leftarrow> mem_put zHex (z + 1) [hexdigits ! unat (c AND 15)];
     hex_loop pBlob (z + 2) zHex
   }"

text \<open>A buffer for the result of an SQL function, or the error that becomes the result; \<open>limit\<close> is
  \<^verbatim>\<open>SQLITE_LIMIT_LENGTH\<close>.\<close>

definition contextMalloc :: "bool \<Rightarrow> nat \<Rightarrow> (nat \<Rightarrow> u8) \<Rightarrow> nat \<Rightarrow> rc + u8 list" where
  "contextMalloc mem_ok limit junk nByte =
     (if nByte > limit then Inl SQLITE_TOOBIG
      else if mem_ok then Inr (map junk [0..<nByte])
      else Inl SQLITE_NOMEM)"

text \<open>The result of the function: an error or a text.\<close>

definition hexFunc :: "bool \<Rightarrow> nat \<Rightarrow> (nat \<Rightarrow> u8) \<Rightarrow> u8 list \<Rightarrow> (rc + u8 list) option" where
  "hexFunc mem_ok limit junk pBlob =
     (case contextMalloc mem_ok limit junk (length pBlob * 2 + 1) of
        Inl rc \<Rightarrow> Some (Inl rc)
      | Inr zHex \<Rightarrow> do {
          (z, zHex) \<leftarrow> hex_loop pBlob 0 zHex;
          zHex \<leftarrow> mem_put zHex z [0];
          Some (Inr (take z zHex))
        })"

definition hex_text :: "u8 list \<Rightarrow> u8 list" where
  "hex_text bs = concat (map (\<lambda>c. [hexdigits ! unat (drop_bit 4 c AND 15), hexdigits ! unat (c AND 15)]) bs)"

lemma length_hex_text [simp]: "length (hex_text bs) = 2 * length bs"
  by (simp add: hex_text_def length_pairs)

lemma mem_put_mid:
  "length pre = i \<Longrightarrow> mem_put (pre @ x # post) i [c] = Some (pre @ c # post)"
  by (auto simp: mem_put_def)

lemma hex_loop_spec:
  "\<lbrakk>length pre = i; length post = 2 * length bs + 1\<rbrakk> \<Longrightarrow>
   \<exists>w. hex_loop bs i (pre @ post) = Some (i + 2 * length bs, pre @ hex_text bs @ [w])"
proof (induction bs arbitrary: pre i post)
  case Nil
  then show ?case by (cases post) (auto simp: hex_text_def)
next
  case (Cons c bs)
  obtain x y q where post: "post = x # y # q" "length q = 2 * length bs + 1"
    using Cons.prems(2) by (cases post; cases "tl post") auto
  let ?a = "hexdigits ! unat (drop_bit 4 c AND 15)" and ?b = "hexdigits ! unat (c AND 15)"
  have p1: "mem_put (pre @ x # y # q) i [?a] = Some (pre @ ?a # y # q)"
    using Cons.prems(1) by (rule mem_put_mid)
  have p2: "mem_put (pre @ ?a # y # q) (i + 1) [?b] = Some ((pre @ [?a, ?b]) @ q)"
    using mem_put_mid [of "pre @ [?a]" "i + 1" y q ?b] Cons.prems(1) by simp
  obtain w where "hex_loop bs (i + 2) ((pre @ [?a, ?b]) @ q)
      = Some (i + 2 + 2 * length bs, (pre @ [?a, ?b]) @ hex_text bs @ [w])"
    using Cons.IH [of "pre @ [?a, ?b]" "i + 2" q] Cons.prems(1) post(2) by auto
  then show ?case using p1 p2 by (simp add: post hex_text_def del: append_assoc)
qed

lemma hexFunc_text:
  "hexFunc m limit junk bs = Some (if limit < 2 * length bs + 1 then Inl SQLITE_TOOBIG
     else if m then Inr (hex_text bs) else Inl SQLITE_NOMEM)"
proof -
  obtain w where "hex_loop bs 0 ([] @ map junk [0..<length bs * 2 + 1])
      = Some (0 + 2 * length bs, [] @ hex_text bs @ [w])"
    using hex_loop_spec [of "[]" 0 "map junk [0..<length bs * 2 + 1]" bs] by auto
  then show ?thesis using mem_put_mid [of "hex_text bs" "2 * length bs" w "[]" 0]
    by (simp add: hexFunc_def contextMalloc_def)
qed

lemma nibble: "unat (c AND 15 :: u8) = unat c mod 16" "unat (drop_bit 4 c AND 15 :: u8) = unat c div 16"
proof -
  have m: "unat (w AND 15 :: u8) = unat w mod 16" for w
  proof -
    have "w AND 15 = take_bit 4 w" by (simp add: take_bit_eq_mask mask_eq_exp_minus_1)
    then show ?thesis by (simp add: take_bit_eq_mod unat_mod)
  qed
  show "unat (c AND 15) = unat c mod 16" by (rule m)
  have "unat (drop_bit 4 c) = unat c div 16" by (simp add: drop_bit_eq_div unat_div)
  then show "unat (drop_bit 4 c AND 15) = unat c div 16" using unat_bounds(1) [of c] by (simp add: m)
qed

lemma hexdigit_inverse: "n < 16 \<Longrightarrow> unat (sqlite3HexToInt (hexdigits ! n)) = n \<and> sqlite3Isxdigit (hexdigits ! n)"
proof -
  assume "n < 16"
  moreover have "\<forall>n \<in> set [0..<16]. unat (sqlite3HexToInt (hexdigits ! n)) = n \<and> sqlite3Isxdigit (hexdigits ! n)"
    by (simp add: upt_rec hexdigits_def sqlite3HexToInt_def sqlite3Isxdigit_iff)
  ultimately show ?thesis by (metis atLeastLessThan_iff le0 set_upt)
qed

lemma hex_byte:
  "push_bit 4 (sqlite3HexToInt (hexdigits ! unat (drop_bit 4 c AND 15)))
     OR sqlite3HexToInt (hexdigits ! unat (c AND 15)) = c"
proof -
  let ?h = "sqlite3HexToInt (hexdigits ! unat (drop_bit 4 c AND 15))"
    and ?l = "sqlite3HexToInt (hexdigits ! unat (c AND 15))"
  have "unat c div 16 < 16" using unat_bounds(1) [of c] by simp
  then have h: "unat ?h = unat c div 16" unfolding nibble(2) using hexdigit_inverse by blast
  have l: "unat ?l = unat c mod 16" unfolding nibble(1) using hexdigit_inverse by simp
  have "?h = drop_bit 4 c" using h by (simp add: word_unat_eq_iff drop_bit_eq_div unat_div)
  moreover have "?l = take_bit 4 c" using l by (simp add: word_unat_eq_iff take_bit_eq_mod unat_mod)
  ultimately show ?thesis using bits_ident [of 4 c] by (simp add: disjunctive_add or.commute bit_simps)
qed

lemma hexblob_loop_spec:
  "\<lbrakk>length pre = length done; length post = Suc (length bs); i = 2 * length done;
    z = hex_text done @ hex_text bs @ rest; n = int (2 * (length done + length bs)) - 1\<rbrakk> \<Longrightarrow>
   \<exists>w. hexblob_loop z n i (pre @ post) = Some (2 * (length done + length bs), pre @ bs @ [w])"
proof (induction bs arbitrary: "done" pre post i)
  case Nil
  then obtain w where "post = [w]" by (cases post) auto
  then show ?case using Nil by (subst hexblob_loop.simps) auto
next
  case (Cons c bs)
  let ?a = "hexdigits ! unat (drop_bit 4 c AND 15)" and ?b = "hexdigits ! unat (c AND 15)"
  obtain x q where post: "post = x # q" using Cons.prems(2) by (cases post) auto
  have z: "z = hex_text done @ ?a # ?b # hex_text bs @ rest" using Cons.prems(4) by (simp add: hex_text_def)
  have a: "rd z i = Some ?a" "rd z (i + 1) = Some ?b"
    using Cons.prems(3) unfolding z by (simp_all add: rd_def nth_append)
  have p: "mem_put (pre @ post) (i div 2) [push_bit 4 (sqlite3HexToInt ?a) OR sqlite3HexToInt ?b]
      = Some ((pre @ [c]) @ q)"
    unfolding hex_byte post using mem_put_mid [of pre "i div 2" x q c] Cons.prems(1,3) by simp
  have step: "hexblob_loop z n i (pre @ post) = hexblob_loop z n (i + 2) ((pre @ [c]) @ q)"
    using a p Cons.prems(3,5) by (subst hexblob_loop.simps) simp
  have "\<exists>w. hexblob_loop z n (i + 2) ((pre @ [c]) @ q)
      = Some (2 * (length (done @ [c]) + length bs), (pre @ [c]) @ bs @ [w])"
    using Cons.prems by (intro Cons.IH) (auto simp: post hex_text_def)
  then show ?case unfolding step by simp
qed

lemma hex_to_blob: "sqlite3HexToBlob True junk (hex_text bs @ rest) (2 * length bs) = Some (Some (bs @ [0]))"
proof -
  obtain w where "hexblob_loop (hex_text bs @ rest) (int (2 * length bs) - 1) 0 ([] @ map junk [0..<Suc (length bs)])
      = Some (2 * length bs, [] @ bs @ [w])"
    using hexblob_loop_spec [of "[]" "[]" "map junk [0..<Suc (length bs)]" bs 0 "hex_text bs @ rest" rest
        "int (2 * length bs) - 1"] by (auto simp: hex_text_def)
  then show ?thesis using mem_put_mid [of bs "length bs" w "[]" 0]
    by (simp add: sqlite3HexToBlob_def del: upt_Suc)
qed

subsection \<open>Integer literals\<close>

lemma hex_sig_small: "hex_val hs < 16 ^ 16 \<longleftrightarrow> length hs \<le> 16"
  if "hs = takeWhile sqlite3Isxdigit (dropWhile (\<lambda>c. c = 48) t)" for hs
proof
  assume l: "length hs \<le> 16"
  have "(16 :: nat) ^ length hs \<le> 16 ^ 16" using l by (intro power_increasing) auto
  then show "hex_val hs < 16 ^ 16" using hex_val_less [of hs] by (rule less_le_trans [rotated])
next
  assume v: "hex_val hs < 16 ^ 16"
  show "length hs \<le> 16"
  proof (cases hs)
    case (Cons h hs')
    have "16 ^ length hs' \<le> hex_val hs" using hex_sig_ge [of t h hs'] that Cons by simp
    then have "(16 :: nat) ^ length hs' < 16 ^ 16" using v by (rule le_less_trans)
    then have "length hs' < 16" by (rule power_less_imp_less_exp [rotated]) simp
    then show ?thesis using Cons by simp
  qed simp
qed

lemma hex_literal:
  assumes "x = 120 \<or> x = 88"
  shows "sqlite3DecOrHexToI64 (48 # x # t @ 0 # r) =
    Some (if 18446744073709551616 \<le> hex_val (takeWhile sqlite3Isxdigit t) then 2
          else if dropWhile sqlite3Isxdigit t \<noteq> [] \<and> hd (dropWhile sqlite3Isxdigit t) \<noteq> 0 then 1 else 0,
          sint (of_nat (hex_val (takeWhile sqlite3Isxdigit t)) :: u64))"
proof -
  let ?z = "48 # x # t @ 0 # r" and ?s = "dropWhile (\<lambda>c. c = 48) t"
  define hs where "hs = takeWhile sqlite3Isxdigit ?s"
  define w where "w = dropWhile sqlite3Isxdigit t"
  have val: "hex_val (takeWhile sqlite3Isxdigit t) = hex_val hs"
    unfolding hex_split [of t] hs_def [symmetric] by (rule hex_val_zeros) (auto dest: set_takeWhileD)
  have d0: "drop 2 ?z = t @ 0 # r" by simp
  let ?i = "2 + length (takeWhile (\<lambda>c. c = 48) t)"
  have sk: "skip_zeros ?z 2 = Some ?i" using skip_zeros_spec [OF d0] .
  have d: "drop ?i ?z = ?s @ 0 # r" using drop_skip_zeros [OF d0] by simp
  have sc: "scan_hex ?z ?i 0 = Some (?i + length hs, of_nat (hex_val hs))"
    using scan_hex_spec [OF d, of 0] by (simp add: hs_def fold_hex)
  have "dropWhile sqlite3Isxdigit ?s = w" unfolding w_def
    by (induction t) (auto simp: sqlite3Isxdigit_iff)
  then have "drop (?i + length hs) ?z = w @ 0 # r"
    using drop_skip_zeros [OF d, of sqlite3Isxdigit] by (simp add: hs_def)
  then have zk: "rd ?z (?i + length hs) = Some (hd (w @ [0]))"
    using drop_step [of "?i + length hs" ?z "hd (w @ [0])" "tl (w @ 0 # r)"] by (cases w) auto
  have "16 < length hs \<longleftrightarrow> 18446744073709551616 \<le> hex_val hs" using hex_sig_small [OF hs_def] by auto
  then show ?thesis
    using assms sk sc zk unfolding val w_def [symmetric]
    by (cases w) (auto simp: sqlite3DecOrHexToI64_def)
qed

lemma int_char_digit: "sqlite3Isdigit c \<Longrightarrow> is_int_char c \<and> c \<noteq> 120 \<and> c \<noteq> 88"
  using digit_bound [of c] by (auto simp: is_int_char_def sqlite3Isdigit_iff word_unat_eq_iff)

lemma int_text_chars: "\<forall>c \<in> set (int_text v). is_int_char c \<and> c \<noteq> 0 \<and> c \<noteq> 120 \<and> c \<noteq> 88"
proof -
  have "is_int_char c \<and> c \<noteq> 0 \<and> c \<noteq> 120 \<and> c \<noteq> 88" if "c \<in> set (dec_text n)" for c n
    using that dec_text_digits [of n] int_char_digit [of c] zero_classes by (cases "c = 0") auto
  then show ?thesis by (auto simp: int_text_def is_int_char_def)
qed

lemma decimal_literal:
  assumes "i64_ok v"
  shows "sqlite3DecOrHexToI64 (int_text v @ 0 # r) = Some (0, v)"
proof -
  let ?t = "int_text v" and ?z = "int_text v @ 0 # r"
  obtain c cs where c: "?t = c # cs"
    using dec_text_Cons [of "nat v"] by (cases "v < 0") (auto simp: int_text_def)
  have z1: "\<exists>d. rd ?z 1 = Some d \<and> d \<noteq> 120 \<and> d \<noteq> 88"
    using c int_text_chars [of v] by (cases cs) auto
  have n: "strspn_int ?z 0 = Some (length ?t)"
    using strspn_spec [of 0 ?z ?t r] int_text_chars [of v] by (simp add: takeWhile_eq_all_conv [THEN iffD2])
  have l: "length ?t mod 1073741824 = length ?t" using int_text_length [OF assms] by simp
  have zn: "rd ?z (length ?t) = Some 0" by (simp add: rd_def nth_append)
  have a: "sqlite3Atoi64 ?z (length ?t) 1 = Some (0, v)"
    using atoi64_ascii [of ?t "0 # r"] atoi64_int_text [OF assms] by simp
  show ?thesis using c z1 n l zn a by (auto simp: sqlite3DecOrHexToI64_def)
qed

subsection \<open>Properties\<close>

text \<open>C17: decimal parsing of the first \<open>len\<close> bytes of any buffer, in each of the three encodings, returns the value of
  the digits and code 0 when it fits and only spaces follow, 1 when other text follows, -1 when there is no
  digit, 2 when it does not fit and 3 for the one value \<open>2 ^ 63\<close>, for numbers of any length. In UTF-16 a code unit
  of 256 or more ends the number and counts as other text, even when its low byte is a digit or a space, and an
  odd last byte is ignored.\<close>

theorem atoi64_parse:
  assumes "enc \<in> {1, 2, 3}" and "len \<le> length z"
  shows "sqlite3Atoi64 z len enc
    = Some (atoi64_spec (has_wide enc (take len z)) (low_text enc (take len z)))"
  using assms by (rule atoi64_text)

theorem atoi64_parse_witness:
  "sqlite3Atoi64 [45, 0, 52, 0, 50, 0, 48, 1, 9] 9 2 = Some (1, - 42)
    \<and> sqlite3Atoi64 [0, 32, 0, 55, 0, 32, 0, 56] 6 3 = Some (0, 7)"
proof
  have "atoi64_spec (has_wide 2 [45, 0, 52, 0, 50, 0, 48, 1, 9]) (low_text 2 [45, 0, 52, 0, 50, 0, 48, 1, 9]) = (1, - 42)"
    by (simp add: atoi64_spec_def has_wide_def low_text_def split_sign_def atoi64_result_def dec_val_def
        sqlite3Isspace_iff sqlite3Isdigit_iff)
  then show "sqlite3Atoi64 [45, 0, 52, 0, 50, 0, 48, 1, 9] 9 2 = Some (1, - 42)"
    using atoi64_parse [of 2 9 "[45, 0, 52, 0, 50, 0, 48, 1, 9]"] by simp
  have "atoi64_spec (has_wide 3 [0, 32, 0, 55, 0, 32]) (low_text 3 [0, 32, 0, 55, 0, 32]) = (0, 7)"
    by (simp add: atoi64_spec_def has_wide_def low_text_def split_sign_def atoi64_result_def dec_val_def
        sqlite3Isspace_iff sqlite3Isdigit_iff)
  then show "sqlite3Atoi64 [0, 32, 0, 55, 0, 32, 0, 56] 6 3 = Some (0, 7)"
    using atoi64_parse [of 3 6 "[0, 32, 0, 55, 0, 32, 0, 56]"] by simp
qed

text \<open>C21: every 64-bit integer is printed into at most 20 characters and a terminator, inside the 21 bytes
  the caller provides, and both the decimal parser and the literal parser read the text back as that
  integer.\<close>

theorem int64_text_roundtrip:
  assumes "i64_ok v" "21 \<le> length zOut"
  shows "\<exists>n z. sqlite3Int64ToText v zOut = Some (n, z) \<and> n \<le> 20 \<and> length z = length zOut \<and> rd z n = Some 0
    \<and> sqlite3Atoi64 z n 1 = Some (0, v) \<and> sqlite3DecOrHexToI64 z = Some (0, v)"
proof -
  let ?t = "int_text v"
  let ?z = "?t @ 0 # drop (Suc (length ?t)) zOut"
  have "sqlite3Atoi64 ?z (length ?t) 1 = Some (0, v)"
    using atoi64_ascii [of ?t "0 # drop (Suc (length ?t)) zOut"] atoi64_int_text [OF assms(1)] by simp
  then show ?thesis
    using int64_to_text [OF assms] int_text_length [OF assms(1)] assms(2) decimal_literal [OF assms(1)]
    by (auto simp: rd_def nth_append)
qed

theorem int64_text_roundtrip_witness:
  "\<exists>n z. sqlite3Int64ToText SMALLEST_INT64 (replicate 21 7) = Some (n, z)
    \<and> sqlite3Atoi64 z n 1 = Some (0, SMALLEST_INT64)"
proof -
  have "\<exists>n z. sqlite3Int64ToText SMALLEST_INT64 (replicate 21 7) = Some (n, z) \<and> n \<le> 20
    \<and> length z = length (replicate 21 (7 :: u8)) \<and> rd z n = Some 0
    \<and> sqlite3Atoi64 z n 1 = Some (0, SMALLEST_INT64) \<and> sqlite3DecOrHexToI64 z = Some (0, SMALLEST_INT64)"
    by (rule int64_text_roundtrip) (simp_all add: i64_ok_def)
  then show ?thesis by blast
qed

text \<open>C36: the 32-bit parser accepts exactly the decimal numbers in the range of \<^verbatim>\<open>int\<close> and the hexadecimal ones
  below \<open>2 ^ 31\<close>, with any number of leading zeros, returns their value, and otherwise leaves the
  result alone.\<close>

theorem getint32_parse:
  assumes "0 \<notin> set s"
  shows "sqlite3GetInt32 (s @ 0 # r) pv =
    Some (case int32_of s of None \<Rightarrow> (0, pv) | Some v \<Rightarrow> (1, v))"
  using getint32_text [OF assms] by (simp add: int32_result_def)

theorem getint32_parse_witness:
  "sqlite3GetInt32 ([45, 50, 49, 52, 55, 52, 56, 51, 54, 52, 56] @ 0 # []) 5 = Some (1, - 2147483648)"
proof -
  have "int32_of [45, 50, 49, 52, 55, 52, 56, 51, 54, 52, 56] = Some (- 2147483648)"
    by (simp add: int32_of_def hex_prefix_def split_sign_def dec32_of_def dec_val_def sqlite3Isdigit_iff)
  then show ?thesis using getint32_parse [of "[45, 50, 49, 52, 55, 52, 56, 51, 54, 52, 56]" "[]" 5] by simp
qed

text \<open>C37: the unsigned 32-bit parser accepts the digit strings of value at most \<open>2 ^ 32\<close>, one more than fits:
  on \<^verbatim>\<open>4294967296\<close> it reports success and stores zero.\<close>

theorem getuint32_parse:
  assumes "0 \<notin> set s"
  shows "sqlite3GetUInt32 (s @ 0 # r) =
    Some (if s \<noteq> [] \<and> list_all sqlite3Isdigit s \<and> dec_val s \<le> 4294967296
          then (1, of_nat (dec_val s)) else (0, 0))"
  using assms by (rule getuint32_text)

theorem getuint32_parse_witness:
  "sqlite3GetUInt32 ([52, 50, 57, 52, 57, 54, 55, 50, 57, 54] @ 0 # []) = Some (1, 0)"
proof -
  have "dec_val [52, 50, 57, 52, 57, 54, 55, 50, 57, 54] = 4294967296" by (simp add: dec_val_def)
  moreover have "list_all sqlite3Isdigit [52, 50, 57, 52, 57, 54, 55, 50, 57, 54]"
    by (simp add: sqlite3Isdigit_iff)
  ultimately show ?thesis
    using getuint32_parse [of "[52, 50, 57, 52, 57, 54, 55, 50, 57, 54]" "[]"] by simp
qed

text \<open>C39: the hexadecimal text of any blob is produced inside its buffer, and the blob literal parser reads
  it back as the blob followed by a zero byte; the result is an error exactly if the text with its terminator
  exceeds the length limit or the allocation fails.\<close>

theorem hex_blob_roundtrip:
  "\<exists>t. (\<forall>m. hexFunc m limit junk bs = Some (if limit < 2 * length bs + 1 then Inl SQLITE_TOOBIG
         else if m then Inr t else Inl SQLITE_NOMEM))
     \<and> length t = 2 * length bs
     \<and> sqlite3HexToBlob True junk' (t @ rest) (length t) = Some (Some (bs @ [0]))"
  using hexFunc_text [of _ limit junk bs] hex_to_blob [of junk' bs rest]
  by (intro exI [of _ "hex_text bs"]) simp

end
