(* ===== verification/Hash_Table.thy ===== *)
theory Hash_Table
  imports Str_Util
begin

text \<open>
  \<^verbatim>\<open>hash.c\<close>: hash tables keyed by case-insensitive names. All elements are on one doubly linked list;
  a bucket is a count and a pointer into that list, and small tables have no buckets at all. The heap of
  elements is explicit: \<open>cells\<close> maps addresses to live elements, and \<open>brk\<close> is the next unused address.
  A null pointer is \<open>None\<close>; an access through a null or dangling pointer makes the result \<open>None\<close>.
  Allocation outcomes come from the oracle \<open>mem\<close>; \<open>msize n\<close> is the number of buckets that fit into the
  memory returned for \<open>n\<close> buckets.
\<close>

unbundle bit_operations_syntax

subsection \<open>Data\<close>

record 'd HashElem =
  nextp :: "nat option"
  prevp :: "nat option"
  data :: "'d option"
  pKey :: "u8 list"
  hv :: u32

record 'd Hash =
  htsize :: nat
  count :: nat
  first :: "nat option"
  ht :: "(nat \<times> nat option) list option"
  cells :: "nat \<Rightarrow> 'd HashElem option"
  brk :: nat

definition set_next :: "nat \<Rightarrow> nat option \<Rightarrow> 'd Hash \<Rightarrow> 'd Hash option" where
  "set_next a v H =
     map_option (\<lambda>e. H\<lparr>cells := (cells H)(a \<mapsto> e\<lparr>nextp := v\<rparr>)\<rparr>) (cells H a)"

definition set_prev :: "nat \<Rightarrow> nat option \<Rightarrow> 'd Hash \<Rightarrow> 'd Hash option" where
  "set_prev a v H =
     map_option (\<lambda>e. H\<lparr>cells := (cells H)(a \<mapsto> e\<lparr>prevp := v\<rparr>)\<rparr>) (cells H a)"

subsection \<open>Operations\<close>

definition sqlite3HashInit :: "'d Hash \<Rightarrow> 'd Hash" where
  "sqlite3HashInit pNew = pNew\<lparr>first := None, count := 0, htsize := 0, ht := None\<rparr>"

text \<open>The loop that frees the elements; a list with a cycle would make it access a freed element.\<close>

partial_function (option) hash_free_loop :: "'d Hash \<Rightarrow> nat option \<Rightarrow> 'd Hash option" where
  "hash_free_loop H elem =
     (case elem of
        None \<Rightarrow> Some H
      | Some a \<Rightarrow>
          Option.bind (cells H a) (\<lambda>e. hash_free_loop (H\<lparr>cells := (cells H)(a := None)\<rparr>) (nextp e)))"

definition sqlite3HashClear :: "'d Hash \<Rightarrow> 'd Hash option" where
  "sqlite3HashClear pH =
     map_option (\<lambda>H. H\<lparr>count := 0\<rparr>)
       (hash_free_loop (pH\<lparr>first := None, ht := None, htsize := 0\<rparr>) (first pH))"

fun strHash_loop :: "u8 list \<Rightarrow> u32 \<Rightarrow> u32 option" where
  "strHash_loop [] h = None"
| "strHash_loop (c # z) h =
     (if c \<noteq> 0 then strHash_loop z ((h + (0xdf AND ucast c)) * 0x9e3779b1) else Some h)"

definition strHash :: "u8 list \<Rightarrow> u32 option" where
  "strHash z = strHash_loop z 0"

text \<open>Linking the new element in front of the bucket's first element, or at the head of the list.\<close>

definition link_before :: "'d Hash \<Rightarrow> nat \<Rightarrow> nat \<Rightarrow> 'd Hash option" where
  "link_before pH pHead pNew = do {
     e \<leftarrow> cells pH pHead;
     pH \<leftarrow> set_next pNew (Some pHead) pH;
     pH \<leftarrow> set_prev pNew (prevp e) pH;
     pH \<leftarrow> (case prevp e of Some p \<Rightarrow> set_next p (Some pNew) pH
                          | None \<Rightarrow> Some (pH\<lparr>first := Some pNew\<rparr>));
     set_prev pHead (Some pNew) pH
   }"

definition link_front :: "'d Hash \<Rightarrow> nat \<Rightarrow> 'd Hash option" where
  "link_front pH pNew = do {
     pH \<leftarrow> set_next pNew (first pH) pH;
     pH \<leftarrow> (case first pH of Some f \<Rightarrow> set_prev f (Some pNew) pH | None \<Rightarrow> Some pH);
     pH \<leftarrow> set_prev pNew None pH;
     Some (pH\<lparr>first := Some pNew\<rparr>)
   }"

text \<open>\<open>pEntry\<close> is the index of the bucket, \<open>None\<close> the null pointer.\<close>

definition insertElement :: "'d Hash \<Rightarrow> nat option \<Rightarrow> nat \<Rightarrow> 'd Hash option" where
  "insertElement pH pEntry pNew = do {
     (pH, pHead) \<leftarrow>
       (case pEntry of
          None \<Rightarrow> Some (pH, None)
        | Some b \<Rightarrow> do {
            t \<leftarrow> ht pH;
            if b < length t then
              let (n, chain) = t ! b in
              Some (pH\<lparr>ht := Some (t[b := (n + 1, Some pNew)])\<rparr>, if n \<noteq> 0 then chain else None)
            else None
          });
     (case pHead of Some q \<Rightarrow> link_before pH q pNew | None \<Rightarrow> link_front pH pNew)
   }"

partial_function (option) rehash_loop :: "'d Hash \<Rightarrow> nat \<Rightarrow> nat option \<Rightarrow> 'd Hash option" where
  "rehash_loop pH new_size elem =
     (case elem of
        None \<Rightarrow> Some pH
      | Some a \<Rightarrow>
          Option.bind (cells pH a) (\<lambda>e.
            Option.bind (insertElement pH (Some (unat (hv e) mod new_size)) a) (\<lambda>pH.
              rehash_loop pH new_size (nextp e))))"

definition SQLITE_MALLOC_SOFT_LIMIT :: nat where "SQLITE_MALLOC_SOFT_LIMIT = 1024"

text \<open>A bucket takes 16 bytes. The result is the return value and the table.\<close>

definition rehash :: "(nat \<Rightarrow> bool) \<Rightarrow> nat \<Rightarrow> (nat \<Rightarrow> nat) \<Rightarrow> 'd Hash \<Rightarrow> nat \<Rightarrow> (bool \<times> 'd Hash \<times> nat) option" where
  "rehash mem k msize pH new_size =
     (let new_size = (if new_size * 16 > SQLITE_MALLOC_SOFT_LIMIT then SQLITE_MALLOC_SOFT_LIMIT div 16
                      else new_size) in
      if new_size = htsize pH then Some (False, pH, k)
      else if \<not> mem k then Some (False, pH, Suc k)
      else do {
        let new_size = msize new_size;
        pH' \<leftarrow> rehash_loop (pH\<lparr>ht := Some (replicate new_size (0, None)), htsize := new_size, first := None\<rparr>)
                new_size (first pH);
        Some (True, pH', Suc k)
      })"

text \<open>The search returns the address of the element, or \<open>None\<close> for the static null element.\<close>

fun find_loop :: "'d Hash \<Rightarrow> u8 list \<Rightarrow> u32 \<Rightarrow> nat option \<Rightarrow> nat \<Rightarrow> nat option option" where
  "find_loop pH key h elem 0 = Some None"
| "find_loop pH key h elem (Suc n) = do {
     a \<leftarrow> elem;
     e \<leftarrow> cells pH a;
     eq \<leftarrow> if h = hv e then map_option (\<lambda>c. c = 0) (sqlite3StrICmp (pKey e) key) else Some False;
     if eq then Some (Some a) else find_loop pH key h (nextp e) n
   }"

definition findElementWithHash :: "'d Hash \<Rightarrow> u8 list \<Rightarrow> (nat option \<times> u32) option" where
  "findElementWithHash pH key = do {
     h \<leftarrow> strHash key;
     (elem, n) \<leftarrow>
       (case ht pH of
          Some t \<Rightarrow>
            if unat h mod htsize pH < length t
            then let (n, chain) = t ! (unat h mod htsize pH) in Some (chain, n)
            else None
        | None \<Rightarrow> Some (first pH, count pH));
     r \<leftarrow> find_loop pH key h elem n;
     Some (r, h)
   }"

definition unlink :: "'d Hash \<Rightarrow> 'd HashElem \<Rightarrow> 'd Hash option" where
  "unlink pH e = do {
     pH \<leftarrow> (case prevp e of Some p \<Rightarrow> set_next p (nextp e) pH
                          | None \<Rightarrow> Some (pH\<lparr>first := nextp e\<rparr>));
     (case nextp e of Some n \<Rightarrow> set_prev n (prevp e) pH | None \<Rightarrow> Some pH)
   }"

definition removeElement :: "'d Hash \<Rightarrow> nat \<Rightarrow> 'd Hash option" where
  "removeElement pH elem = do {
     e \<leftarrow> cells pH elem;
     pH \<leftarrow> unlink pH e;
     pH \<leftarrow> (case ht pH of
             Some t \<Rightarrow>
               let b = unat (hv e) mod htsize pH in
               if b < length t then
                 let (n, chain) = t ! b in
                 Some (pH\<lparr>ht := Some (t[b := (n - 1, if chain = Some elem then nextp e else chain)])\<rparr>)
               else None
           | None \<Rightarrow> Some pH);
     let pH = pH\<lparr>cells := (cells pH)(elem := None), count := count pH - 1\<rparr>;
     if count pH = 0 then sqlite3HashClear pH else Some pH
   }"

definition sqlite3HashFind :: "'d Hash \<Rightarrow> u8 list \<Rightarrow> 'd option option" where
  "sqlite3HashFind pH key = do {
     (r, h) \<leftarrow> findElementWithHash pH key;
     (case r of None \<Rightarrow> Some None | Some a \<Rightarrow> map_option data (cells pH a))
   }"

text \<open>The result is the returned pointer, the table and the allocation counter.\<close>

definition sqlite3HashInsert ::
  "(nat \<Rightarrow> bool) \<Rightarrow> nat \<Rightarrow> (nat \<Rightarrow> nat) \<Rightarrow> 'd Hash \<Rightarrow> u8 list \<Rightarrow> 'd option \<Rightarrow> ('d option \<times> 'd Hash \<times> nat) option"
where
  "sqlite3HashInsert mem k msize pH key d = do {
     (r, h) \<leftarrow> findElementWithHash pH key;
     old \<leftarrow> (case r of None \<Rightarrow> Some None | Some a \<Rightarrow> map_option data (cells pH a));
     (case (r, old) of
        (Some a, Some old_data) \<Rightarrow>
          if d = None then map_option (\<lambda>pH. (old, pH, k)) (removeElement pH a)
          else map_option (\<lambda>e. (old, pH\<lparr>cells := (cells pH)(a \<mapsto> e\<lparr>data := d, pKey := key\<rparr>)\<rparr>, k)) (cells pH a)
      | _ \<Rightarrow>
          if d = None then Some (None, pH, k)
          else if \<not> mem k then Some (d, pH, Suc k)
          else do {
            let new_elem = brk pH;
            let pH = pH\<lparr>cells := (cells pH)(new_elem \<mapsto>
                       \<lparr>nextp = None, prevp = None, data = d, pKey = key, hv = h\<rparr>),
                       brk := brk pH + 1, count := count pH + 1\<rparr>;
            (pH, k) \<leftarrow> (if count pH \<ge> 5 \<and> count pH > 2 * htsize pH
                       then map_option snd (rehash mem (Suc k) msize pH (count pH * 3))
                       else Some (pH, Suc k));
            pH \<leftarrow> insertElement pH (if ht pH \<noteq> None then Some (unat h mod htsize pH) else None) new_elem;
            Some (None, pH, k)
          })
   }"

subsection \<open>The hash ignores case\<close>

lemma hash_mask_lower: "(0xdf AND ucast (sqlite3Tolower c) :: u32) = 0xdf AND ucast c"
proof -
  have "\<forall>n \<in> set [0..<256]. (0xdf AND ucast (lower_of n) :: u32) = 0xdf AND of_nat n"
    unfolding upt_256 lower_of_def by simp
  moreover have "unat c \<in> set [0..<256]" using unat_bounds(1) [of c] by simp
  ultimately have "(0xdf AND ucast (lower_of (unat c)) :: u32) = 0xdf AND of_nat (unat c)" by (rule bspec)
  then show ?thesis unfolding sqlite3Tolower_def lower_list nth_table by simp
qed

definition hash_of :: "u8 list \<Rightarrow> u32" where
  "hash_of s = foldl (\<lambda>h c. (h + (0xdf AND ucast c)) * 0x9e3779b1) 0 s"

lemma strHash_loop_spec:
  "0 \<notin> set s \<Longrightarrow> strHash_loop (s @ 0 # r) h = Some (foldl (\<lambda>h c. (h + (0xdf AND ucast c)) * 0x9e3779b1) h s)"
  by (induction s arbitrary: h) auto

lemma strHash_spec: "0 \<notin> set s \<Longrightarrow> strHash (s @ 0 # r) = Some (hash_of s)"
  by (simp add: strHash_def strHash_loop_spec hash_of_def)

lemma hash_of_lower: "hash_of (lower s) = hash_of s"
  unfolding hash_of_def by (induction s rule: rev_induct) (simp_all add: hash_mask_lower)

subsection \<open>Doubly linked segments\<close>

text \<open>\<open>dseg C p f xs l q\<close>: from \<open>f\<close>, behind \<open>p\<close>, the cells \<open>xs\<close> are linked both ways; the last one is \<open>l\<close> and
  points on to \<open>q\<close>.\<close>

fun dseg :: "(nat \<Rightarrow> 'd HashElem option) \<Rightarrow> nat option \<Rightarrow> nat option \<Rightarrow> nat list \<Rightarrow> nat option \<Rightarrow> nat option \<Rightarrow> bool"
where
  "dseg C p f [] l q \<longleftrightarrow> f = q \<and> l = p"
| "dseg C p f (a # xs) l q \<longleftrightarrow>
     f = Some a \<and> (\<exists>e. C a = Some e \<and> prevp e = p \<and> dseg C (Some a) (nextp e) xs l q)"

lemma dseg_append:
  "dseg C p f (xs @ ys) l q \<longleftrightarrow> (\<exists>m n. dseg C p f xs m n \<and> dseg C m n ys l q)"
  by (induction xs arbitrary: p f) auto

text \<open>Only the links of the cells of a segment matter.\<close>

lemma dseg_cong:
  "\<lbrakk>\<And>a. a \<in> set xs \<Longrightarrow> map_option (\<lambda>e. (nextp e, prevp e)) (C' a) = map_option (\<lambda>e. (nextp e, prevp e)) (C a)\<rbrakk>
   \<Longrightarrow> dseg C' p f xs l q = dseg C p f xs l q"
proof (induction xs arbitrary: p f)
  case (Cons a xs)
  have "dseg C' p f xs l q = dseg C p f xs l q" for p f using Cons by simp
  then show ?case using Cons.prems [of a] by (cases "C a"; cases "C' a") auto
qed simp

lemma dseg_frame: "a \<notin> set xs \<Longrightarrow> dseg (C(a := e)) p f xs l q = dseg C p f xs l q"
  by (rule dseg_cong) auto

lemma dseg_dom: "dseg C p f xs l q \<Longrightarrow> a \<in> set xs \<Longrightarrow> \<exists>e. C a = Some e"
  by (induction xs arbitrary: p f) auto

lemma dseg_last: "dseg C p f xs l q \<Longrightarrow> l = (if xs = [] then p else Some (last xs))"
  by (induction xs arbitrary: p f) auto

lemma dseg_first: "dseg C p f xs l q \<Longrightarrow> f = (if xs = [] then q else Some (hd xs))"
  by (cases xs) auto

text \<open>Redirecting the link out of a segment, and the link back from it.\<close>

lemma dseg_set_next:
  assumes "dseg C p f (xs @ [b]) l q" "b \<notin> set xs" "C b = Some e"
  shows "dseg (C(b \<mapsto> e\<lparr>nextp := q'\<rparr>)) p f (xs @ [b]) l q'"
proof -
  obtain m n where mn: "dseg C p f xs m n" "dseg C m n [b] l q" using assms(1) by (auto simp: dseg_append)
  have "dseg (C(b \<mapsto> e\<lparr>nextp := q'\<rparr>)) p f xs m n" using mn(1) assms(2) by (simp add: dseg_frame)
  moreover have "dseg (C(b \<mapsto> e\<lparr>nextp := q'\<rparr>)) m n [b] l q'" using mn(2) assms(3) by auto
  ultimately show ?thesis by (auto simp: dseg_append)
qed

lemma dseg_set_prev:
  assumes "dseg C p f (b # xs) l q" "b \<notin> set xs" "C b = Some e"
  shows "dseg (C(b \<mapsto> e\<lparr>prevp := p'\<rparr>)) p' f (b # xs) l q"
  using assms by (auto simp: dseg_frame)

text \<open>A complete list.\<close>

abbreviation dlist :: "(nat \<Rightarrow> 'd HashElem option) \<Rightarrow> nat option \<Rightarrow> nat list \<Rightarrow> bool" where
  "dlist C f xs \<equiv> \<exists>l. dseg C None f xs l None"

text \<open>The links agree except for the cell \<open>a\<close>, whose other fields stay as they are.\<close>

definition same_payload :: "(nat \<Rightarrow> 'd HashElem option) \<Rightarrow> (nat \<Rightarrow> 'd HashElem option) \<Rightarrow> bool" where
  "same_payload C C' \<longleftrightarrow>
     (\<forall>a. map_option (\<lambda>e. (data e, pKey e, hv e)) (C' a) = map_option (\<lambda>e. (data e, pKey e, hv e)) (C a))"

lemma same_payload_refl [simp]: "same_payload C C"
  by (simp add: same_payload_def)

lemma same_payload_trans: "\<lbrakk>same_payload C D; same_payload D E\<rbrakk> \<Longrightarrow> same_payload C E"
  by (simp add: same_payload_def)

lemma set_next_ok:
  assumes "cells H a = Some e"
  shows "set_next a v H = Some (H\<lparr>cells := (cells H)(a \<mapsto> e\<lparr>nextp := v\<rparr>)\<rparr>)"
    "same_payload (cells H) ((cells H)(a \<mapsto> e\<lparr>nextp := v\<rparr>))"
  using assms by (auto simp: set_next_def same_payload_def)

lemma set_prev_ok:
  assumes "cells H a = Some e"
  shows "set_prev a v H = Some (H\<lparr>cells := (cells H)(a \<mapsto> e\<lparr>prevp := v\<rparr>)\<rparr>)"
    "same_payload (cells H) ((cells H)(a \<mapsto> e\<lparr>prevp := v\<rparr>))"
  using assms by (auto simp: set_prev_def same_payload_def)

lemma link_before_ok:
  assumes d: "dlist (cells H) (first H) (pre @ q # post)" and dist: "distinct (a # pre @ q # post)"
    and a: "cells H a = Some ea"
  shows "\<exists>C f. link_before H q a = Some (H\<lparr>cells := C, first := f\<rparr>)
    \<and> dlist C f (pre @ a # q # post) \<and> same_payload (cells H) C
    \<and> (\<forall>c. c \<notin> set (a # pre @ q # post) \<longrightarrow> C c = cells H c)"
proof -
  let ?C = "cells H"
  obtain l m n where pre: "dseg ?C None (first H) pre m n" and post: "dseg ?C m n (q # post) l None"
    using d by (auto simp: dseg_append)
  obtain e where e: "?C q = Some e" "prevp e = m" "n = Some q" using post by auto
  have qa: "q \<noteq> a" "a \<notin> set pre" "a \<notin> set post" "q \<notin> set pre" "q \<notin> set post" "set pre \<inter> set post = {}"
    using dist by auto
  define ea' where "ea' = ea\<lparr>nextp := Some q, prevp := m\<rparr>"
  define C1 where "C1 = ?C(a \<mapsto> ea')"
  have s1: "set_next a (Some q) H \<bind> set_prev a m = Some (H\<lparr>cells := C1\<rparr>)"
    using a by (simp add: set_next_def set_prev_def C1_def ea'_def)
  have p1: "same_payload ?C C1" using a by (auto simp: C1_def ea'_def same_payload_def)
  have pre1: "dseg C1 None (first H) pre m n" using pre qa by (simp add: C1_def dseg_frame)
  have post1: "dseg C1 m n (q # post) l None" using post qa by (simp add: C1_def dseg_frame)
  have q1: "C1 q = Some e" using e qa by (simp add: C1_def)
  have a1: "C1 a = Some ea'" by (simp add: C1_def)
  text \<open>The element before, or the head pointer, is redirected.\<close>
  obtain C2 f where s2: "(case m of Some p \<Rightarrow> set_next p (Some a) (H\<lparr>cells := C1\<rparr>)
       | None \<Rightarrow> Some (H\<lparr>cells := C1, first := Some a\<rparr>)) = Some (H\<lparr>cells := C2, first := f\<rparr>)"
    and pre2: "dseg C2 None f pre m (Some a)" and post2: "dseg C2 m n (q # post) l None"
    and q2: "C2 q = Some e" and a2: "C2 a = Some ea'" and p2: "same_payload C1 C2"
    and fr2: "\<forall>c. c \<notin> set pre \<longrightarrow> C2 c = C1 c"
  proof (cases pre rule: rev_cases)
    case Nil
    then have m: "m = None" using pre by simp
    show ?thesis
    proof (rule that)
      show "(case m of Some p \<Rightarrow> set_next p (Some a) (H\<lparr>cells := C1\<rparr>)
        | None \<Rightarrow> Some (H\<lparr>cells := C1, first := Some a\<rparr>)) = Some (H\<lparr>cells := C1, first := Some a\<rparr>)"
        using m by simp
      show "dseg C1 None (Some a) pre m (Some a)" using Nil m by simp
    qed (use post1 q1 a1 in simp_all)
  next
    case (snoc ys b)
    have m: "m = Some b" using dseg_last [OF pre] snoc by simp
    obtain eb where eb: "C1 b = Some eb" using dseg_dom [OF pre1, of b] snoc by auto
    have b: "b \<notin> set ys" "b \<noteq> q" "b \<noteq> a" "b \<notin> set post" using dist snoc by auto
    let ?C2 = "C1(b \<mapsto> eb\<lparr>nextp := Some a\<rparr>)"
    show ?thesis
    proof (rule that)
      show "(case m of Some p \<Rightarrow> set_next p (Some a) (H\<lparr>cells := C1\<rparr>)
        | None \<Rightarrow> Some (H\<lparr>cells := C1, first := Some a\<rparr>)) = Some (H\<lparr>cells := ?C2, first := first H\<rparr>)"
        using m eb by (simp add: set_next_def)
      show "dseg ?C2 None (first H) pre m (Some a)"
        using dseg_set_next [of C1 None "first H" ys b m n eb "Some a"] pre1 b eb snoc by simp
      show "dseg ?C2 m n (q # post) l None"
        using post1 b by (auto simp: dseg_frame)
      show "same_payload C1 ?C2" using eb by (auto simp: same_payload_def)
    qed (use q1 a1 b snoc in simp_all)
  qed
  define C3 where "C3 = C2(q \<mapsto> e\<lparr>prevp := Some a\<rparr>)"
  have "set_prev q (Some a) (H\<lparr>cells := C2, first := f\<rparr>) = Some (H\<lparr>cells := C3, first := f\<rparr>)"
    using q2 by (simp add: set_prev_def C3_def)
  then have run: "link_before H q a = Some (H\<lparr>cells := C3, first := f\<rparr>)"
    using s1 s2 e by (simp add: link_before_def bind_assoc) (auto split: option.splits simp: Option.bind_eq_Some_conv)
  have "dseg C3 None f pre m (Some a)" using pre2 qa by (simp add: C3_def dseg_frame)
  moreover have "dseg C3 (Some a) (Some q) (q # post) l None"
    using dseg_set_prev [of C2 m n q post l None e "Some a"] post2 qa q2 e(3) by (simp add: C3_def)
  moreover have "C3 a = Some ea'" using a2 qa by (simp add: C3_def)
  ultimately have "dlist C3 f (pre @ a # q # post)"
    by (auto simp: dseg_append ea'_def)
  moreover have "same_payload ?C C3"
  proof -
    have "same_payload C2 C3" using q2 by (auto simp: C3_def same_payload_def)
    then show ?thesis using p1 p2 same_payload_trans by blast
  qed
  moreover have "\<forall>c. c \<notin> set (a # pre @ q # post) \<longrightarrow> C3 c = ?C c"
    using fr2 by (simp add: C3_def C1_def)
  ultimately show ?thesis using run by blast
qed

lemma link_front_ok:
  assumes d: "dlist (cells H) (first H) xs" and dist: "distinct (a # xs)"
    and a: "cells H a = Some ea"
  shows "\<exists>C. link_front H a = Some (H\<lparr>cells := C, first := Some a\<rparr>)
    \<and> dlist C (Some a) (a # xs) \<and> same_payload (cells H) C
    \<and> (\<forall>c. c \<notin> set (a # xs) \<longrightarrow> C c = cells H c)"
proof -
  let ?C = "cells H"
  obtain l where l: "dseg ?C None (first H) xs l None" using d by blast
  show ?thesis
  proof (cases xs)
    case Nil
    then have f: "first H = None" using l by simp
    let ?D = "?C(a \<mapsto> ea\<lparr>nextp := None, prevp := None\<rparr>)"
    have "link_front H a = Some (H\<lparr>cells := ?D, first := Some a\<rparr>)"
      using f a by (simp add: link_front_def set_next_def set_prev_def)
    moreover have "same_payload ?C ?D" using a by (auto simp: same_payload_def)
    ultimately show ?thesis using Nil by (intro exI [of _ ?D]) simp
  next
    case (Cons q ys)
    obtain e where e: "?C q = Some e" "prevp e = None" "first H = Some q" using l Cons by auto
    have qa: "q \<noteq> a" "a \<notin> set ys" "q \<notin> set ys" using dist Cons by auto
    let ?D = "?C(a \<mapsto> ea\<lparr>nextp := Some q, prevp := None\<rparr>, q \<mapsto> e\<lparr>prevp := Some a\<rparr>)"
    have "link_front H a = Some (H\<lparr>cells := ?D, first := Some a\<rparr>)"
      using e a qa by (simp add: link_front_def set_next_def set_prev_def fun_upd_twist)
    moreover have "dseg ?D (Some a) (Some q) xs l None"
      using l e qa Cons by (auto simp: dseg_frame)
    moreover have "same_payload ?C ?D" using a e qa by (auto simp: same_payload_def)
    moreover have "\<forall>c. c \<notin> set (a # xs) \<longrightarrow> ?D c = ?C c" using Cons by simp
    ultimately show ?thesis using qa by (intro exI [of _ ?D]) auto
  qed
qed

lemma unlink_ok:
  assumes d: "dlist (cells H) (first H) (pre @ a # post)" and dist: "distinct (pre @ a # post)"
    and e: "cells H a = Some e"
  shows "\<exists>C f. unlink H e = Some (H\<lparr>cells := C, first := f\<rparr>)
    \<and> dlist C f (pre @ post) \<and> same_payload (cells H) C"
proof -
  let ?C = "cells H"
  obtain l m n where pre: "dseg ?C None (first H) pre m n" and rest: "dseg ?C m n (a # post) l None"
    using d by (auto simp: dseg_append)
  have e': "prevp e = m" and post: "dseg ?C (Some a) (nextp e) post l None" using rest e by auto
  obtain C1 f where s1: "(case m of Some p \<Rightarrow> set_next p (nextp e) H
       | None \<Rightarrow> Some (H\<lparr>first := nextp e\<rparr>)) = Some (H\<lparr>cells := C1, first := f\<rparr>)"
    and pre1: "dseg C1 None f pre m (nextp e)" and post1: "dseg C1 (Some a) (nextp e) post l None"
    and p1: "same_payload ?C C1"
  proof (cases pre rule: rev_cases)
    case Nil
    then have m: "m = None" using pre by simp
    show ?thesis
    proof (rule that)
      show "(case m of Some p \<Rightarrow> set_next p (nextp e) H
        | None \<Rightarrow> Some (H\<lparr>first := nextp e\<rparr>)) = Some (H\<lparr>cells := ?C, first := nextp e\<rparr>)"
        using m by simp
      show "dseg ?C None (nextp e) pre m (nextp e)" using Nil m by simp
    qed (use post in simp_all)
  next
    case (snoc ys b)
    have m: "m = Some b" using dseg_last [OF pre] snoc by simp
    obtain eb where eb: "?C b = Some eb" using dseg_dom [OF pre, of b] snoc by auto
    have b: "b \<notin> set ys" "b \<notin> set post" using dist snoc by auto
    let ?C1 = "?C(b \<mapsto> eb\<lparr>nextp := nextp e\<rparr>)"
    show ?thesis
    proof (rule that)
      show "(case m of Some p \<Rightarrow> set_next p (nextp e) H
        | None \<Rightarrow> Some (H\<lparr>first := nextp e\<rparr>)) = Some (H\<lparr>cells := ?C1, first := first H\<rparr>)"
        using m eb by (simp add: set_next_def)
      show "dseg ?C1 None (first H) pre m (nextp e)"
        using dseg_set_next [of ?C None "first H" ys b m n eb "nextp e"] pre b eb snoc by simp
      show "same_payload ?C ?C1" using eb by (auto simp: same_payload_def)
    qed (use post b in \<open>simp add: dseg_frame\<close>)
  qed
  show ?thesis
  proof (cases post)
    case Nil
    then have "nextp e = None" "m = l \<or> True" using post by simp_all
    then have "unlink H e = Some (H\<lparr>cells := C1, first := f\<rparr>)" using s1 e' by (simp add: unlink_def)
    moreover have "dlist C1 f (pre @ post)" using pre1 Nil \<open>nextp e = None\<close> by auto
    ultimately show ?thesis using p1 by blast
  next
    case (Cons q ys)
    obtain eq where eq: "C1 q = Some eq" "nextp e = Some q" using post1 Cons by auto
    have q: "q \<notin> set pre" "q \<notin> set ys" using dist Cons by auto
    let ?C2 = "C1(q \<mapsto> eq\<lparr>prevp := m\<rparr>)"
    have "unlink H e = Some (H\<lparr>cells := ?C2, first := f\<rparr>)"
      using s1 e' eq by (simp add: unlink_def set_prev_def)
    moreover have "dseg ?C2 None f pre m (nextp e)" using pre1 q by (simp add: dseg_frame)
    moreover have "dseg ?C2 m (nextp e) post l None"
      using dseg_set_prev [of C1 "Some a" "nextp e" q ys l None eq m] post1 Cons q eq by simp
    moreover have "same_payload C1 ?C2" using eq by (auto simp: same_payload_def)
    ultimately show ?thesis using p1 same_payload_trans by (fastforce simp: dseg_append)
  qed
qed

lemma hash_free_loop_ok:
  "\<lbrakk>dseg (cells H) p f xs l None; distinct xs\<rbrakk> \<Longrightarrow>
   hash_free_loop H f = Some (H\<lparr>cells := (\<lambda>a. if a \<in> set xs then None else cells H a)\<rparr>)"
proof (induction xs arbitrary: H p f)
  case Nil
  then show ?case by (subst hash_free_loop.simps) simp
next
  case (Cons a xs)
  obtain e where e: "cells H a = Some e" "f = Some a" "dseg (cells H) (Some a) (nextp e) xs l None"
    using Cons.prems(1) by auto
  let ?H = "H\<lparr>cells := (cells H)(a := None)\<rparr>"
  have "hash_free_loop ?H (nextp e) = Some (?H\<lparr>cells := (\<lambda>b. if b \<in> set xs then None else cells ?H b)\<rparr>)"
  proof (rule Cons.IH)
    show "dseg (cells ?H) (Some a) (nextp e) xs l None"
      using e(3) Cons.prems(2) dseg_frame [of a xs "cells H" None] by simp
  qed (use Cons.prems(2) in simp)
  then show ?case using e by (subst hash_free_loop.simps) (auto intro!: ext arg_cong [where f = "\<lambda>c. H\<lparr>cells := c\<rparr>"])
qed

subsection \<open>Invariant\<close>

definition cell_ok :: "'d HashElem \<Rightarrow> bool" where
  "cell_ok e \<longleftrightarrow> 0 \<in> set (pKey e) \<and> hv e = hash_of (cstr (pKey e)) \<and> data e \<noteq> None"

definition hkey :: "(nat \<Rightarrow> 'd HashElem option) \<Rightarrow> nat \<Rightarrow> u8 list" where
  "hkey C a = lower (cstr (pKey (the (C a))))"

definition hbucket :: "nat \<Rightarrow> (nat \<Rightarrow> 'd HashElem option) \<Rightarrow> nat \<Rightarrow> nat" where
  "hbucket n C a = unat (hv (the (C a))) mod n"

definition elems_ok :: "(nat \<Rightarrow> 'd HashElem option) \<Rightarrow> nat set \<Rightarrow> bool" where
  "elems_ok C S \<longleftrightarrow> (\<forall>a \<in> S. \<exists>e. C a = Some e \<and> cell_ok e) \<and> inj_on (hkey C) S"

text \<open>The list is a sequence of groups, one for each non-empty bucket.\<close>

definition bucket_ok :: "(nat \<times> nat list) list \<Rightarrow> nat \<Rightarrow> nat \<times> nat option \<Rightarrow> bool" where
  "bucket_ok gs b nc \<longleftrightarrow>
     (case map_of gs b of None \<Rightarrow> fst nc = 0 | Some g \<Rightarrow> nc = (length g, Some (hd g)))"

definition groups_ok :: "(nat \<Rightarrow> 'd HashElem option) \<Rightarrow> (nat \<times> nat option) list \<Rightarrow> (nat \<times> nat list) list \<Rightarrow> bool" where
  "groups_ok C t gs \<longleftrightarrow> distinct (map fst gs)
     \<and> (\<forall>(b, g) \<in> set gs. g \<noteq> [] \<and> (\<forall>a \<in> set g. hbucket (length t) C a = b))
     \<and> (\<forall>b < length t. bucket_ok gs b (t ! b))"

abbreviation elems :: "(nat \<times> nat list) list \<Rightarrow> nat list" where
  "elems gs \<equiv> concat (map snd gs)"

definition table_ok :: "'d Hash \<Rightarrow> nat list \<Rightarrow> bool" where
  "table_ok H xs \<longleftrightarrow>
     (case ht H of
        None \<Rightarrow> htsize H = 0
      | Some t \<Rightarrow> htsize H = length t \<and> t \<noteq> [] \<and> (\<exists>gs. groups_ok (cells H) t gs \<and> xs = elems gs))"

definition hash_ok :: "'d Hash \<Rightarrow> nat list \<Rightarrow> bool" where
  "hash_ok H xs \<longleftrightarrow> dlist (cells H) (first H) xs \<and> distinct xs \<and> elems_ok (cells H) (set xs)
     \<and> count H = length xs \<and> (\<forall>a. cells H a \<noteq> None \<longrightarrow> a < brk H) \<and> table_ok H xs"

text \<open>The payload decides keys, buckets and the element conditions.\<close>

lemma same_payload_cell:
  assumes "same_payload C D"
  shows "C a = Some e \<Longrightarrow> \<exists>e'. D a = Some e' \<and> data e' = data e \<and> pKey e' = pKey e \<and> hv e' = hv e"
    and "C a = None \<Longrightarrow> D a = None"
proof -
  have m: "map_option (\<lambda>e. (data e, pKey e, hv e)) (D a) = map_option (\<lambda>e. (data e, pKey e, hv e)) (C a)"
    using assms unfolding same_payload_def by (rule spec)
  show "\<exists>e'. D a = Some e' \<and> data e' = data e \<and> pKey e' = pKey e \<and> hv e' = hv e" if "C a = Some e"
    using m that by (cases "D a") auto
  show "D a = None" if "C a = None" using m that by simp
qed

lemma same_payload_key:
  assumes "same_payload C D" "C a \<noteq> None"
  shows "hkey D a = hkey C a" "hbucket n D a = hbucket n C a"
  using assms same_payload_cell(1) [OF assms(1), of a] by (auto simp: hkey_def hbucket_def)

lemma elems_ok_payload:
  assumes "elems_ok C S" "same_payload C D"
  shows "elems_ok D S"
proof -
  have "\<exists>e. D a = Some e \<and> cell_ok e" if "a \<in> S" for a
  proof -
    obtain e where e: "C a = Some e" "cell_ok e" using assms(1) \<open>a \<in> S\<close> unfolding elems_ok_def by auto
    then show ?thesis using same_payload_cell(1) [OF assms(2) e(1)] unfolding cell_ok_def by auto
  qed
  moreover have "hkey D a = hkey C a" if "a \<in> S" for a
  proof -
    have "C a \<noteq> None" using assms(1) that unfolding elems_ok_def by auto
    then show ?thesis by (rule same_payload_key(1) [OF assms(2)])
  qed
  ultimately show ?thesis using assms(1) unfolding elems_ok_def inj_on_def by auto
qed

lemma groups_ok_payload:
  assumes "groups_ok C t gs" "same_payload C D" "\<And>a. a \<in> set (elems gs) \<Longrightarrow> C a \<noteq> None"
  shows "groups_ok D t gs"
proof -
  have "hbucket (length t) D a = b" if "(b, g) \<in> set gs" "a \<in> set g" for b g a
  proof -
    have "a \<in> set (elems gs)" using that by force
    then have "hbucket (length t) D a = hbucket (length t) C a"
      using same_payload_key(2) [OF assms(2)] assms(3) by blast
    then show ?thesis using assms(1) that unfolding groups_ok_def by auto
  qed
  then show ?thesis using assms(1) unfolding groups_ok_def by auto
qed

subsection \<open>Finding\<close>

lemma cstr_split: "0 \<in> set k \<Longrightarrow> \<exists>r. k = cstr k @ 0 # r"
proof -
  assume "0 \<in> set k"
  then obtain s r where k: "k = s @ 0 # r" "0 \<notin> set s" using split_list_first by metis
  then show ?thesis by auto
qed

lemma cstr_no_zero: "0 \<notin> set (cstr k)"
  unfolding cstr_def by (auto dest: set_takeWhileD)

lemma key_compare:
  assumes "0 \<in> set k1" "0 \<in> set k2"
  shows "\<exists>r. sqlite3StrICmp k1 k2 = Some r \<and> (r = 0 \<longleftrightarrow> lower (cstr k1) = lower (cstr k2))"
proof -
  obtain r1 where k1: "k1 = cstr k1 @ 0 # r1" using cstr_split [OF assms(1)] by (elim exE)
  obtain r2 where k2: "k2 = cstr k2 @ 0 # r2" using cstr_split [OF assms(2)] by (elim exE)
  have "\<exists>r. sqlite3StrICmp (cstr k1 @ 0 # r1) (cstr k2 @ 0 # r2) = Some r
      \<and> (r = 0 \<longleftrightarrow> lower (cstr k1) = lower (cstr k2))"
    using stricmp_spec [OF cstr_no_zero [of k1] cstr_no_zero [of k2], of r1 r2] by blast
  then show ?thesis unfolding k1 [symmetric] k2 [symmetric] .
qed

lemma key_hash: "0 \<in> set k \<Longrightarrow> strHash k = Some (hash_of (cstr k))"
proof -
  assume "0 \<in> set k"
  then obtain r where k: "k = cstr k @ 0 # r" using cstr_split by blast
  show ?thesis using strHash_spec [OF cstr_no_zero [of k], of r] unfolding k [symmetric] .
qed

lemma lower_hash: "lower s = lower t \<Longrightarrow> hash_of s = hash_of t"
  by (metis hash_of_lower)

lemma find_loop_ok:
  assumes "0 \<in> set key"
  shows "\<lbrakk>dseg (cells H) p f (ys @ zs) l q; \<forall>a \<in> set ys. \<exists>e. cells H a = Some e \<and> cell_ok e\<rbrakk> \<Longrightarrow>
    find_loop H key (hash_of (cstr key)) f (length ys) =
      Some (List.find (\<lambda>a. hkey (cells H) a = lower (cstr key)) ys)"
proof (induction ys arbitrary: p f)
  case (Cons a ys)
  obtain e where e: "cells H a = Some e" "cell_ok e" "f = Some a"
    "dseg (cells H) (Some a) (nextp e) (ys @ zs) l q" using Cons.prems by auto
  have IH: "find_loop H key (hash_of (cstr key)) (nextp e) (length ys) =
      Some (List.find (\<lambda>a. hkey (cells H) a = lower (cstr key)) ys)"
    using Cons.prems(2) by (intro Cons.IH [OF e(4)]) auto
  obtain r where r: "sqlite3StrICmp (pKey e) key = Some r" "r = 0 \<longleftrightarrow> lower (cstr (pKey e)) = lower (cstr key)"
    using key_compare [of "pKey e" key] e(2) assms unfolding cell_ok_def by blast
  have k: "hkey (cells H) a = lower (cstr (pKey e))" by (simp add: hkey_def e(1))
  have h: "lower (cstr (pKey e)) = lower (cstr key) \<Longrightarrow> hash_of (cstr key) = hv e"
    using lower_hash [of "cstr (pKey e)" "cstr key"] e(2) by (simp add: cell_ok_def)
  show ?case using e IH r k h by auto
qed simp

lemma find_unique:
  assumes "inj_on f (set xs)" "x \<in> set xs"
  shows "List.find (\<lambda>a. f a = f x) xs = Some x"
  using assms by (induction xs) (auto simp: inj_on_def)

lemma group_split:
  assumes "map_of gs b = Some g"
  shows "\<exists>gs1 gs2. gs = gs1 @ (b, g) # gs2 \<and> b \<notin> fst ` set gs1"
  using assms
proof (induction gs)
  case (Cons bg gs)
  obtain b' g' where bg: "bg = (b', g')" by (cases bg)
  show ?case
  proof (cases "b' = b")
    case True
    then show ?thesis using Cons.prems bg by (intro exI [of _ "[]"] exI [of _ gs]) auto
  next
    case False
    then obtain gs1 gs2 where "gs = gs1 @ (b, g) # gs2" "b \<notin> fst ` set gs1" using Cons bg by auto
    then show ?thesis using False bg by (intro exI [of _ "bg # gs1"] exI [of _ gs2]) auto
  qed
qed simp

lemma groups_bucket:
  assumes "groups_ok C t gs" "a \<in> set (elems gs)"
  shows "\<exists>g. map_of gs (hbucket (length t) C a) = Some g \<and> a \<in> set g"
proof -
  obtain b g where bg: "(b, g) \<in> set gs" "a \<in> set g" using assms(2) by auto
  then have "hbucket (length t) C a = b" "map_of gs b = Some g"
    using assms(1) unfolding groups_ok_def by (auto simp: map_of_eq_Some_iff)
  then show ?thesis using bg by auto
qed

lemma findElement_ok:
  assumes ok: "hash_ok H xs" and key: "0 \<in> set key"
  shows "\<exists>r. findElementWithHash H key = Some (r, hash_of (cstr key))
    \<and> (case r of None \<Rightarrow> \<forall>a \<in> set xs. hkey (cells H) a \<noteq> lower (cstr key)
       | Some a \<Rightarrow> a \<in> set xs \<and> hkey (cells H) a = lower (cstr key))"
proof -
  let ?C = "cells H" and ?P = "\<lambda>a. hkey (cells H) a = lower (cstr key)"
  obtain l where l: "dseg ?C None (first H) xs l None" using ok unfolding hash_ok_def by blast
  have el: "\<forall>a \<in> set xs. \<exists>e. ?C a = Some e \<and> cell_ok e" using ok unfolding hash_ok_def elems_ok_def by blast
  have fnd: "(case List.find ?P ys of None \<Rightarrow> \<forall>a \<in> set ys. \<not> ?P a | Some a \<Rightarrow> a \<in> set ys \<and> ?P a)" for ys
    by (induction ys) (auto split: option.splits)
  show ?thesis
  proof (cases "ht H")
    case None
    have "find_loop H key (hash_of (cstr key)) (first H) (length xs) = Some (List.find ?P xs)"
      using find_loop_ok [OF key, of H None "first H" xs "[]" l None] l el by simp
    moreover have "count H = length xs" using ok unfolding hash_ok_def by simp
    ultimately show ?thesis using None key_hash [OF key] fnd [of xs] by (simp add: findElementWithHash_def)
  next
    case (Some t)
    then obtain gs where t: "htsize H = length t" "t \<noteq> []" "groups_ok ?C t gs" "xs = elems gs"
      using ok unfolding hash_ok_def table_ok_def by auto
    define b where "b = unat (hash_of (cstr key)) mod length t"
    have b: "b < length t" using t(2) by (simp add: b_def)
    have bk: "bucket_ok gs b (t ! b)" using t(3) b unfolding groups_ok_def by blast
    have inb: "hbucket (length t) ?C a = b" if "a \<in> set xs" "?P a" for a
    proof -
      obtain e where e: "?C a = Some e" "cell_ok e" using el \<open>a \<in> set xs\<close> by blast
      then have "hv e = hash_of (cstr key)"
        using that(2) lower_hash [of "cstr (pKey e)" "cstr key"] by (simp add: hkey_def cell_ok_def)
      then show ?thesis using e by (simp add: hbucket_def b_def)
    qed
    show ?thesis
    proof (cases "map_of gs b")
      case None
      have "\<forall>a \<in> set xs. \<not> ?P a"
      proof
        fix a assume a: "a \<in> set xs"
        show "\<not> ?P a" using groups_bucket [OF t(3), of a] a inb [OF a] None t(4) by auto
      qed
      moreover obtain ch where "t ! b = (0, ch)" using bk None by (cases "t ! b") (auto simp: bucket_ok_def)
      ultimately show ?thesis using Some t(1) b key_hash [OF key]
        by (simp add: findElementWithHash_def b_def [symmetric])
    next
      case g: (Some g)
      obtain gs1 gs2 where gs: "gs = gs1 @ (b, g) # gs2" using group_split [OF g] by blast
      have gn: "g \<noteq> []" using t(3) gs unfolding groups_ok_def by auto
      have xs: "xs = elems gs1 @ g @ elems gs2" using t(4) gs by simp
      obtain m n where mn: "dseg ?C m n (g @ elems gs2) l None" using l unfolding xs dseg_append by blast
      have n: "n = Some (hd g)" using dseg_first [OF mn] gn by simp
      have "find_loop H key (hash_of (cstr key)) (Some (hd g)) (length g) = Some (List.find ?P g)"
        using find_loop_ok [OF key, of H m n g "elems gs2" l None] mn el n xs by simp
      moreover have "t ! b = (length g, Some (hd g))" using bk g by (simp add: bucket_ok_def)
      ultimately have run: "findElementWithHash H key = Some (List.find ?P g, hash_of (cstr key))"
        using Some t(1) b key_hash [OF key] by (simp add: findElementWithHash_def b_def [symmetric])
      have ing: "a \<in> set g" if a: "a \<in> set xs" "?P a" for a
        using groups_bucket [OF t(3), of a] a(1) inb [OF a] g t(4) by auto
      show ?thesis
      proof (cases "List.find ?P g")
        case None
        then show ?thesis using run ing fnd [of g] by auto
      next
        case (Some a)
        then show ?thesis using run fnd [of g] xs by auto
      qed
    qed
  qed
qed

text \<open>Linking an element into its bucket.\<close>

lemma insert_bucket_ok:
  assumes d: "dlist (cells H) (first H) (elems gs)" and gs: "groups_ok (cells H) t gs" and t: "ht H = Some t"
    and dist: "distinct (a # elems gs)" and a: "cells H a = Some ea" and b: "b = hbucket (length t) (cells H) a"
      "b < length t"
  shows "\<exists>C f t' gs'. insertElement H (Some b) a = Some (H\<lparr>cells := C, first := f, ht := Some t'\<rparr>)
    \<and> dlist C f (elems gs') \<and> groups_ok C t' gs' \<and> same_payload (cells H) C \<and> length t' = length t
    \<and> distinct (elems gs') \<and> set (elems gs') = insert a (set (elems gs))
    \<and> (\<forall>c. c \<notin> insert a (set (elems gs)) \<longrightarrow> C c = cells H c)"
proof -
  let ?C = "cells H"
  have cells: "?C x \<noteq> None" if "x \<in> insert a (set (elems gs))" for x
    using that a d dseg_dom by fastforce
  have bk: "bucket_ok gs b (t ! b)" using gs b(2) unfolding groups_ok_def by blast
  obtain n ch where tb: "t ! b = (n, ch)" by fastforce
  let ?t = "t[b := (n + 1, Some a)]"
  let ?H = "H\<lparr>ht := Some ?t\<rparr>"
  show ?thesis
  proof (cases "map_of gs b")
    case None
    then have n: "n = 0" using bk tb by (simp add: bucket_ok_def)
    let ?gs = "(b, [a]) # gs"
    obtain D where D: "link_front ?H a = Some (?H\<lparr>cells := D, first := Some a\<rparr>)" "dlist D (Some a) (a # elems gs)"
      "same_payload ?C D" "\<forall>c. c \<notin> set (a # elems gs) \<longrightarrow> D c = ?C c"
      using link_front_ok [of ?H "elems gs" a ea] d dist a by auto
    have "insertElement H (Some b) a = Some (H\<lparr>cells := D, first := Some a, ht := Some ?t\<rparr>)"
      using t b(2) tb n D(1) by (simp add: insertElement_def)
    moreover have "groups_ok ?C ?t ?gs"
      unfolding groups_ok_def
    proof (intro conjI)
      show "distinct (map fst ?gs)"
        using gs None unfolding groups_ok_def by (simp add: map_of_eq_None_iff)
      show "\<forall>(b, g) \<in> set ?gs. g \<noteq> [] \<and> (\<forall>a \<in> set g. hbucket (length ?t) ?C a = b)"
        using gs b unfolding groups_ok_def by auto
      show "\<forall>c < length ?t. bucket_ok ?gs c (?t ! c)"
      proof (intro allI impI)
        fix c assume c: "c < length ?t"
        then have "bucket_ok gs c (t ! c)" using gs unfolding groups_ok_def by simp
        then show "bucket_ok ?gs c (?t ! c)"
          using c n by (cases "c = b") (simp_all add: bucket_ok_def)
      qed
    qed
    then have "groups_ok D ?t ?gs"
    proof (rule groups_ok_payload [OF _ D(3)])
      fix x assume "x \<in> set (elems ?gs)"
      then have "x \<in> insert a (set (elems gs))" by simp
      then show "?C x \<noteq> None" by (rule cells)
    qed
    ultimately show ?thesis
      using D(2-4) dist by (intro exI [of _ D] exI [of _ "Some a"] exI [of _ ?t] exI [of _ ?gs]) auto
  next
    case (Some g)
    obtain gs1 gs2 where sp: "gs = gs1 @ (b, g) # gs2" "b \<notin> fst ` set gs1" using group_split [OF Some] by blast
    have gn: "g \<noteq> []" and b2: "b \<notin> fst ` set gs2" using gs sp unfolding groups_ok_def by auto
    have tb': "t ! b = (length g, Some (hd g))" using bk Some by (simp add: bucket_ok_def)
    obtain q g' where g: "g = q # g'" using gn by (cases g) auto
    let ?gs = "gs1 @ (b, a # g) # gs2"
    have xs: "elems gs = elems gs1 @ q # (g' @ elems gs2)" using sp g by simp
    obtain D f where D: "link_before ?H q a = Some (?H\<lparr>cells := D, first := f\<rparr>)"
      "dlist D f (elems gs1 @ a # q # (g' @ elems gs2))" "same_payload ?C D"
      "\<forall>c. c \<notin> set (a # elems gs1 @ q # (g' @ elems gs2)) \<longrightarrow> D c = ?C c"
      using link_before_ok [of ?H "elems gs1" q "g' @ elems gs2" a ea] d dist a unfolding xs by auto
    have "insertElement H (Some b) a = Some (H\<lparr>cells := D, first := f, ht := Some ?t\<rparr>)"
      using t b(2) tb tb' g D(1) by (auto simp: insertElement_def)
    moreover have "groups_ok ?C ?t ?gs"
      unfolding groups_ok_def
    proof (intro conjI)
      show "distinct (map fst ?gs)" using gs sp unfolding groups_ok_def by simp
      show "\<forall>(b, g) \<in> set ?gs. g \<noteq> [] \<and> (\<forall>a \<in> set g. hbucket (length ?t) ?C a = b)"
        using gs b sp unfolding groups_ok_def by auto
      have "map_of gs1 b = None" using sp(2) by (simp add: map_of_eq_None_iff)
      then have mo: "map_of ?gs c = (if c = b then Some (a # g) else map_of gs c)" for c
        unfolding sp(1) by (simp add: map_add_def split: option.splits)
      show "\<forall>c < length ?t. bucket_ok ?gs c (?t ! c)"
      proof (intro allI impI)
        fix c assume c: "c < length ?t"
        then have "bucket_ok gs c (t ! c)" using gs unfolding groups_ok_def by simp
        then show "bucket_ok ?gs c (?t ! c)"
          using c tb tb' unfolding bucket_ok_def mo by (cases "c = b") (simp_all split: option.splits)
      qed
    qed
    then have "groups_ok D ?t ?gs"
    proof (rule groups_ok_payload [OF _ D(3)])
      fix x assume "x \<in> set (elems ?gs)"
      then have "x \<in> insert a (set (elems gs))" unfolding sp(1) by auto
      then show "?C x \<noteq> None" by (rule cells)
    qed
    ultimately show ?thesis
      using D(2-4) dist g sp by (intro exI [of _ D] exI [of _ f] exI [of _ ?t] exI [of _ ?gs]) auto
  qed
qed

subsection \<open>Rebuilding the buckets\<close>

text \<open>The elements not yet moved are still linked forward.\<close>

fun fseg :: "(nat \<Rightarrow> 'd HashElem option) \<Rightarrow> nat option \<Rightarrow> nat list \<Rightarrow> bool" where
  "fseg C f [] \<longleftrightarrow> f = None"
| "fseg C f (a # xs) \<longleftrightarrow> f = Some a \<and> (\<exists>e. C a = Some e \<and> fseg C (nextp e) xs)"

lemma dseg_fseg: "dseg C p f xs l None \<Longrightarrow> fseg C f xs"
  by (induction xs arbitrary: p f) auto

lemma fseg_cong: "\<lbrakk>\<And>a. a \<in> set xs \<Longrightarrow> D a = C a\<rbrakk> \<Longrightarrow> fseg D f xs = fseg C f xs"
  by (induction xs arbitrary: f) auto

lemma rehash_loop_ok:
  "\<lbrakk>fseg (cells H) f ys; dlist (cells H) (first H) (elems gs); groups_ok (cells H) t gs; ht H = Some t;
    t \<noteq> []; distinct (elems gs @ ys)\<rbrakk> \<Longrightarrow>
   \<exists>C f' t' gs'. rehash_loop H (length t) f = Some (H\<lparr>cells := C, first := f', ht := Some t'\<rparr>)
     \<and> dlist C f' (elems gs') \<and> groups_ok C t' gs' \<and> same_payload (cells H) C \<and> length t' = length t
     \<and> distinct (elems gs') \<and> set (elems gs') = set (elems gs @ ys)"
proof (induction ys arbitrary: H f gs t)
  case Nil
  then show ?case
    by (intro exI [of _ "cells H"] exI [of _ "first H"] exI [of _ t] exI [of _ gs])
      (simp add: rehash_loop.simps)
next
  case (Cons a ys)
  obtain e where e: "f = Some a" "cells H a = Some e" "fseg (cells H) (nextp e) ys" using Cons.prems(1) by auto
  define b where "b = unat (hv e) mod length t"
  have b: "b = hbucket (length t) (cells H) a" "b < length t"
    using e(2) Cons.prems(5) by (simp_all add: b_def hbucket_def)
  have dist: "distinct (a # elems gs)" using Cons.prems(6) by auto
  obtain C1 f1 t1 gs1 where s1: "insertElement H (Some b) a = Some (H\<lparr>cells := C1, first := f1, ht := Some t1\<rparr>)"
    "dlist C1 f1 (elems gs1)" "groups_ok C1 t1 gs1" "same_payload (cells H) C1" "length t1 = length t"
    "distinct (elems gs1)" "set (elems gs1) = insert a (set (elems gs))"
    "\<forall>c. c \<notin> insert a (set (elems gs)) \<longrightarrow> C1 c = cells H c"
    using insert_bucket_ok [OF Cons.prems(2-4) dist e(2) b] by (elim exE conjE) blast
  let ?H = "H\<lparr>cells := C1, first := f1, ht := Some t1\<rparr>"
  have fs: "fseg (cells ?H) (nextp e) ys"
  proof -
    have disj: "set (elems gs) \<inter> set (a # ys) = {}" "a \<notin> set ys"
      using Cons.prems(6) unfolding distinct_append by (rule conjunct2 [THEN conjunct2], simp)
    have "C1 c = cells H c" if c: "c \<in> set ys" for c
    proof -
      have "c \<noteq> a" using disj(2) c by blast
      moreover have "c \<notin> set (elems gs)" using disj(1) c by (metis IntI empty_iff list.set_intros(2))
      ultimately show ?thesis using s1(8) by blast
    qed
    then show ?thesis using e(3) fseg_cong [of ys C1 "cells H"] by simp
  qed
  have ds: "distinct (elems gs1 @ ys)" using s1(6,7) Cons.prems(6) by auto
  have ne: "t1 \<noteq> []" using s1(5) Cons.prems(5) by auto
  have "\<exists>C f' t' gs'. rehash_loop ?H (length t1) (nextp e) = Some (?H\<lparr>cells := C, first := f', ht := Some t'\<rparr>)
     \<and> dlist C f' (elems gs') \<and> groups_ok C t' gs' \<and> same_payload (cells ?H) C \<and> length t' = length t1
     \<and> distinct (elems gs') \<and> set (elems gs') = set (elems gs1 @ ys)"
    by (rule Cons.IH [OF fs _ _ _ ne ds]) (use s1(2,3) in simp_all)
  then obtain C2 f2 t2 gs2 where s2: "rehash_loop ?H (length t1) (nextp e) = Some (?H\<lparr>cells := C2, first := f2, ht := Some t2\<rparr>)"
    "dlist C2 f2 (elems gs2)" "groups_ok C2 t2 gs2" "same_payload (cells ?H) C2" "length t2 = length t1"
    "distinct (elems gs2)" "set (elems gs2) = set (elems gs1 @ ys)"
    by (elim exE conjE) blast
  have "rehash_loop H (length t) f = Some (H\<lparr>cells := C2, first := f2, ht := Some t2\<rparr>)"
    using e s1(1,5) s2(1) by (subst rehash_loop.simps) (simp add: b_def)
  moreover have "same_payload (cells H) C2" using same_payload_trans [OF s1(4)] s2(4) by simp
  moreover have "set (elems gs2) = set (elems gs @ a # ys)" using s2(7) s1(7) by auto
  ultimately show ?case using s2(2,3,5,6) s1(5)
    by (rule_tac exI [of _ C2], rule_tac exI [of _ f2], rule_tac exI [of _ t2], rule_tac exI [of _ gs2]) simp
qed

lemma hash_resize_ok:
  assumes d: "dlist (cells H) (first H) xs" and dist: "distinct xs" and tab: "table_ok H xs"
    and ms: "\<forall>n > 0. 0 < msize n" and n: "0 < n"
  shows "\<exists>r H' k' xs'. rehash mem k msize H n = Some (r, H', k')
    \<and> dlist (cells H') (first H') xs' \<and> distinct xs' \<and> set xs' = set xs \<and> same_payload (cells H) (cells H')
    \<and> table_ok H' xs' \<and> count H' = count H \<and> brk H' = brk H"
proof -
  define s where "s = (if n * 16 > SQLITE_MALLOC_SOFT_LIMIT then SQLITE_MALLOC_SOFT_LIMIT div 16 else n)"
  have s: "0 < s" using n by (auto simp: s_def SQLITE_MALLOC_SOFT_LIMIT_def)
  show ?thesis
  proof (cases "s = htsize H \<or> \<not> mem k")
    case True
    then have "rehash mem k msize H n = Some (False, H, if s = htsize H then k else Suc k)"
      by (auto simp: rehash_def s_def [symmetric])
    then obtain k' where "rehash mem k msize H n = Some (False, H, k')" by blast
    then show ?thesis using d dist tab
      by (rule_tac exI [of _ False], rule_tac exI [of _ H], rule_tac exI [of _ k'], rule_tac exI [of _ xs]) simp
  next
    case False
    define z where "z = msize s"
    let ?t = "replicate z (0 :: nat, None :: nat option)"
    let ?H = "H\<lparr>ht := Some ?t, htsize := z, first := None\<rparr>"
    have z: "?t \<noteq> []" using ms s by (simp add: z_def)
    have g0: "groups_ok (cells ?H) ?t []" by (simp add: groups_ok_def bucket_ok_def)
    have fs: "fseg (cells ?H) (first H) xs" using d dseg_fseg by fastforce
    have "\<exists>C f' t' gs'. rehash_loop ?H (length ?t) (first H) = Some (?H\<lparr>cells := C, first := f', ht := Some t'\<rparr>)
      \<and> dlist C f' (elems gs') \<and> groups_ok C t' gs' \<and> same_payload (cells ?H) C \<and> length t' = length ?t
      \<and> distinct (elems gs') \<and> set (elems gs') = set (elems [] @ xs)"
      by (rule rehash_loop_ok [OF fs _ g0 _ z]) (use dist in simp_all)
    then obtain C f t gs where r: "rehash_loop ?H (length ?t) (first H) = Some (?H\<lparr>cells := C, first := f, ht := Some t\<rparr>)"
      "dlist C f (elems gs)" "groups_ok C t gs" "same_payload (cells ?H) C" "length t = length ?t"
      "distinct (elems gs)" "set (elems gs) = set (elems [] @ xs)"
      by (elim exE conjE) blast
    have run: "rehash mem k msize H n =
        Some (True, H\<lparr>cells := C, first := f, ht := Some t, htsize := z\<rparr>, Suc k)"
      using False r(1) by (simp add: rehash_def s_def [symmetric] Let_def z_def [symmetric])
    have "table_ok (H\<lparr>cells := C, first := f, ht := Some t, htsize := z\<rparr>) (elems gs)"
      using r(3,5) z by (auto simp: table_ok_def)
    then show ?thesis using run r(2,4,6,7)
      by (rule_tac exI [of _ True], rule_tac exI, rule_tac exI [of _ "Suc k"], rule_tac exI [of _ "elems gs"]) auto
  qed
qed

text \<open>The abstract value: a map from lower-cased names.\<close>

definition hash_rep :: "'d Hash \<Rightarrow> (u8 list \<Rightarrow> 'd option) \<Rightarrow> bool" where
  "hash_rep H m \<longleftrightarrow> (\<exists>xs. hash_ok H xs \<and>
     (\<forall>k v. m k = Some v \<longleftrightarrow>
        (\<exists>a \<in> set xs. \<exists>e. cells H a = Some e \<and> lower (cstr (pKey e)) = k \<and> data e = Some v)))"

lemma hash_repE:
  assumes "hash_rep H m"
  obtains xs where "hash_ok H xs" "\<And>k v. m k = Some v \<longleftrightarrow>
        (\<exists>a \<in> set xs. \<exists>e. cells H a = Some e \<and> lower (cstr (pKey e)) = k \<and> data e = Some v)"
  using assms unfolding hash_rep_def by blast

lemma hash_find_ok:
  assumes "hash_rep H m" "0 \<in> set key"
  shows "sqlite3HashFind H key = Some (m (lower (cstr key)))"
proof -
  obtain xs where xs: "hash_ok H xs" "\<And>k v. m k = Some v \<longleftrightarrow>
        (\<exists>a \<in> set xs. \<exists>e. cells H a = Some e \<and> lower (cstr (pKey e)) = k \<and> data e = Some v)"
    using assms(1) by (rule hash_repE) blast
  obtain r where r: "findElementWithHash H key = Some (r, hash_of (cstr key))"
    "case r of None \<Rightarrow> \<forall>a \<in> set xs. hkey (cells H) a \<noteq> lower (cstr key)
       | Some a \<Rightarrow> a \<in> set xs \<and> hkey (cells H) a = lower (cstr key)"
    using findElement_ok [OF xs(1) assms(2)] by blast
  show ?thesis
  proof (cases r)
    case None
    then have "\<forall>a \<in> set xs. hkey (cells H) a \<noteq> lower (cstr key)" using r(2) by simp
    then have "m (lower (cstr key)) = None"
      using xs(2) [of "lower (cstr key)"] unfolding hkey_def
      by (cases "m (lower (cstr key))") (fastforce, metis option.sel)
    then show ?thesis using r(1) None by (simp add: sqlite3HashFind_def)
  next
    case (Some a)
    then have a: "a \<in> set xs" "hkey (cells H) a = lower (cstr key)" using r(2) by simp_all
    obtain e where e: "cells H a = Some e" "cell_ok e" using a(1) xs(1) unfolding hash_ok_def elems_ok_def by blast
    obtain v where v: "data e = Some v" using e(2) unfolding cell_ok_def by blast
    have "m (lower (cstr key)) = Some v" using xs(2) a e v by (auto simp: hkey_def)
    then show ?thesis using r(1) Some e v by (simp add: sqlite3HashFind_def)
  qed
qed

lemma dlist_cell: "dlist C f xs \<Longrightarrow> a \<in> set xs \<Longrightarrow> C a \<noteq> None"
  using dseg_dom by fastforce

text \<open>The result of the optional rebuild, and of linking the new element.\<close>

lemma insert_link_ok:
  assumes d: "dlist (cells H) (first H) xs" and dist: "distinct (a # xs)" and tab: "table_ok H xs"
    and e: "cells H a = Some e" "hv e = h"
  shows "\<exists>H' xs'. insertElement H (if ht H \<noteq> None then Some (unat h mod htsize H) else None) a = Some H'
    \<and> dlist (cells H') (first H') xs' \<and> distinct xs' \<and> set xs' = insert a (set xs)
    \<and> same_payload (cells H) (cells H') \<and> table_ok H' xs' \<and> count H' = count H \<and> brk H' = brk H"
proof (cases "ht H")
  case None
  obtain C where C: "link_front H a = Some (H\<lparr>cells := C, first := Some a\<rparr>)" "dlist C (Some a) (a # xs)"
    "same_payload (cells H) C" using link_front_ok [OF d dist e(1)] by blast
  have "table_ok (H\<lparr>cells := C, first := Some a\<rparr>) (a # xs)" using None tab by (simp add: table_ok_def)
  then show ?thesis using None C dist
    by (rule_tac exI, rule_tac exI [of _ "a # xs"]) (auto simp: insertElement_def)
next
  case (Some t)
  then obtain gs where t: "htsize H = length t" "t \<noteq> []" "groups_ok (cells H) t gs" "xs = elems gs"
    using tab unfolding table_ok_def by auto
  have b: "unat h mod length t = hbucket (length t) (cells H) a" using e by (simp add: hbucket_def)
  have bl: "unat h mod length t < length t" using t(2) by simp
  obtain C f t' gs' where C: "insertElement H (Some (unat h mod length t)) a
      = Some (H\<lparr>cells := C, first := f, ht := Some t'\<rparr>)"
    "dlist C f (elems gs')" "groups_ok C t' gs'" "same_payload (cells H) C" "length t' = length t"
    "distinct (elems gs')" "set (elems gs') = insert a (set (elems gs))"
    using insert_bucket_ok [OF d [unfolded t(4)] t(3) Some dist [unfolded t(4)] e(1) b bl]
    by (elim exE conjE) blast
  have "table_ok (H\<lparr>cells := C, first := f, ht := Some t'\<rparr>) (elems gs')"
    using C(3,5) t(1,2) by (auto simp: table_ok_def)
  then show ?thesis using Some C t(1,4)
    by (rule_tac exI, rule_tac exI [of _ "elems gs'"]) auto
qed

lemma hash_add_ok:
  fixes v :: 'd
  assumes ok: "hash_ok H xs" and key: "0 \<in> set key" and new: "\<forall>a \<in> set xs. hkey (cells H) a \<noteq> lower (cstr key)"
    and ms: "\<forall>n > 0. 0 < msize n"
  defines "a \<equiv> brk H"
    and "ea \<equiv> \<lparr>nextp = None, prevp = None, data = Some v, pKey = key, hv = hash_of (cstr key)\<rparr>"
  defines "H1 \<equiv> H\<lparr>cells := (cells H)(a \<mapsto> ea), brk := a + 1, count := count H + 1\<rparr>"
  shows "\<exists>H2 k2 H3 xs3.
      (if count H1 \<ge> 5 \<and> count H1 > 2 * htsize H1 then map_option snd (rehash mem k msize H1 (count H1 * 3))
       else Some (H1, k)) = Some (H2, k2)
    \<and> insertElement H2 (if ht H2 \<noteq> None then Some (unat (hash_of (cstr key)) mod htsize H2) else None) a = Some H3
    \<and> hash_ok H3 xs3 \<and> set xs3 = insert a (set xs) \<and> same_payload (cells H1) (cells H3) \<and> a \<notin> set xs"
proof -
  have parts: "dlist (cells H) (first H) xs" "distinct xs" "elems_ok (cells H) (set xs)" "count H = length xs"
    "\<forall>a. cells H a \<noteq> None \<longrightarrow> a < brk H" "table_ok H xs"
    using ok unfolding hash_ok_def by blast+
  have afresh: "cells H a = None" using parts(5) unfolding a_def by blast
  have anew: "a \<notin> set xs" using dlist_cell [OF parts(1)] afresh by blast
  have eq: "cells H1 c = cells H c" if "c \<in> set xs" for c using anew that by (auto simp: H1_def)
  have d1: "dlist (cells H1) (first H1) xs"
    using parts(1) by (simp add: H1_def dseg_frame [OF anew])
  have hk: "hkey (cells H1) c = hkey (cells H) c" "hbucket n (cells H1) c = hbucket n (cells H) c"
    if "c \<in> set xs" for c n using eq [OF that] by (simp_all add: hkey_def hbucket_def)
  have t1: "table_ok H1 xs"
  proof (cases "ht H")
    case None
    then show ?thesis using parts(6) by (simp add: table_ok_def H1_def)
  next
    case (Some t)
    then obtain gs where t: "htsize H = length t" "t \<noteq> []" "groups_ok (cells H) t gs" "xs = elems gs"
      using parts(6) unfolding table_ok_def by auto
    have "groups_ok (cells H1) t gs"
      using t(3) hk(2) unfolding groups_ok_def t(4) by fastforce
    then show ?thesis using t Some by (auto simp: table_ok_def H1_def)
  qed
  have ko: "hkey (cells H1) a = lower (cstr key)" by (simp add: hkey_def H1_def ea_def)
  have e1: "elems_ok (cells H1) (insert a (set xs))"
  proof -
    have "\<exists>e. cells H1 c = Some e \<and> cell_ok e" if "c \<in> insert a (set xs)" for c
    proof (cases "c = a")
      case True
      then show ?thesis using key by (simp add: H1_def ea_def cell_ok_def)
    next
      case False
      then show ?thesis using that eq [of c] parts(3) unfolding elems_ok_def by auto
    qed
    moreover have "inj_on (hkey (cells H1)) (insert a (set xs))"
    proof -
      have "inj_on (hkey (cells H1)) (set xs)"
        using parts(3) hk(1) inj_on_cong [of "set xs" "hkey (cells H1)" "hkey (cells H)"]
        unfolding elems_ok_def by blast
      moreover have "hkey (cells H1) a \<notin> hkey (cells H1) ` (set xs - {a})" using ko new hk(1) by auto
      ultimately show ?thesis by (simp add: inj_on_insert)
    qed
    ultimately show ?thesis unfolding elems_ok_def by blast
  qed
  have "\<exists>H2 k2 xs2. (if count H1 \<ge> 5 \<and> count H1 > 2 * htsize H1
        then map_option snd (rehash mem k msize H1 (count H1 * 3)) else Some (H1, k)) = Some (H2, k2)
    \<and> dlist (cells H2) (first H2) xs2 \<and> distinct xs2 \<and> set xs2 = set xs \<and> same_payload (cells H1) (cells H2)
    \<and> table_ok H2 xs2 \<and> count H2 = count H1 \<and> brk H2 = brk H1"
  proof (cases "count H1 \<ge> 5 \<and> count H1 > 2 * htsize H1")
    case True
    have "0 < count H1 * 3" by (simp add: H1_def)
    then have "\<exists>r H' k' xs'. rehash mem k msize H1 (count H1 * 3) = Some (r, H', k')
      \<and> dlist (cells H') (first H') xs' \<and> distinct xs' \<and> set xs' = set xs \<and> same_payload (cells H1) (cells H')
      \<and> table_ok H' xs' \<and> count H' = count H1 \<and> brk H' = brk H1"
      by (intro hash_resize_ok [OF d1 parts(2) t1] ms)
    then obtain rr H2 k2 xs2 where
      "rehash mem k msize H1 (count H1 * 3) = Some (rr, H2, k2)"
      "dlist (cells H2) (first H2) xs2" "distinct xs2" "set xs2 = set xs" "same_payload (cells H1) (cells H2)"
      "table_ok H2 xs2" "count H2 = count H1" "brk H2 = brk H1" by (elim exE conjE) blast
    then show ?thesis using True by (rule_tac exI [of _ H2], rule_tac exI [of _ k2], rule_tac exI [of _ xs2]) simp
  next
    case False
    then have "(if count H1 \<ge> 5 \<and> count H1 > 2 * htsize H1
        then map_option snd (rehash mem k msize H1 (count H1 * 3)) else Some (H1, k)) = Some (H1, k)"
      by (rule if_not_P)
    then show ?thesis using d1 parts(2) t1
      by (rule_tac exI [of _ H1], rule_tac exI [of _ k], rule_tac exI [of _ xs]) (intro conjI same_payload_refl refl)
  qed
  then obtain H2 k2 xs2 where r: "(if count H1 \<ge> 5 \<and> count H1 > 2 * htsize H1
        then map_option snd (rehash mem k msize H1 (count H1 * 3)) else Some (H1, k)) = Some (H2, k2)"
    "dlist (cells H2) (first H2) xs2" "distinct xs2" "set xs2 = set xs" "same_payload (cells H1) (cells H2)"
    "table_ok H2 xs2" "count H2 = count H1" "brk H2 = brk H1" by (elim exE conjE) blast
  have "cells H1 a = Some ea" by (simp add: H1_def)
  from same_payload_cell(1) [OF r(5) this]
  obtain e2 where e2: "cells H2 a = Some e2" "hv e2 = hash_of (cstr key)" by (auto simp: ea_def)
  have dist: "distinct (a # xs2)" using r(3,4) anew by simp
  obtain H3 xs3 where s: "insertElement H2 (if ht H2 \<noteq> None then Some (unat (hash_of (cstr key)) mod htsize H2) else None) a = Some H3"
    "dlist (cells H3) (first H3) xs3" "distinct xs3" "set xs3 = insert a (set xs2)" "same_payload (cells H2) (cells H3)"
    "table_ok H3 xs3" "count H3 = count H2" "brk H3 = brk H2"
    using insert_link_ok [OF r(2) dist r(6) e2] by (elim exE conjE) blast
  have pay: "same_payload (cells H1) (cells H3)" using same_payload_trans r(5) s(5) by blast
  have "hash_ok H3 xs3"
    unfolding hash_ok_def
  proof (intro conjI)
    show "elems_ok (cells H3) (set xs3)" using elems_ok_payload [OF e1 pay] s(4) r(4) by simp
    show "count H3 = length xs3"
    proof -
      have "length xs3 = card (set xs3)" using s(3) by (simp add: distinct_card)
      also have "\<dots> = Suc (card (set xs))" using s(4) r(4) anew by simp
      also have "\<dots> = Suc (length xs)" using parts(2) by (simp add: distinct_card)
      finally show ?thesis using s(7) r(7) parts(4) by (simp add: H1_def)
    qed
    show "\<forall>c. cells H3 c \<noteq> None \<longrightarrow> c < brk H3"
    proof (intro allI impI)
      fix c assume "cells H3 c \<noteq> None"
      then have "cells H1 c \<noteq> None" using same_payload_cell(2) [OF pay, of c] by metis
      then show "c < brk H3" using parts(5) s(8) r(8) by (cases "c = a") (auto simp: H1_def a_def less_SucI)
    qed
  qed (use s in simp_all)
  then show ?thesis using r(1,4) s(1,4) pay anew
    by (rule_tac exI [of _ H2], rule_tac exI [of _ k2], rule_tac exI [of _ H3], rule_tac exI [of _ xs3]) simp
qed

text \<open>Removing an element.\<close>

lemma hash_clear_ok:
  assumes "dlist (cells H) (first H) xs" "distinct xs" "\<forall>a. cells H a \<noteq> None \<longrightarrow> a < brk H"
  shows "\<exists>H'. sqlite3HashClear H = Some H' \<and> hash_ok H' []"
proof -
  let ?H = "H\<lparr>first := None, ht := None, htsize := 0\<rparr>"
  have "hash_free_loop ?H (first H) = Some (?H\<lparr>cells := (\<lambda>a. if a \<in> set xs then None else cells ?H a)\<rparr>)"
    using assms(1,2) hash_free_loop_ok [of ?H] by fastforce
  then show ?thesis
    using assms(3) by (auto simp: sqlite3HashClear_def hash_ok_def table_ok_def elems_ok_def)
qed

lemma groups_remove:
  assumes gs: "groups_ok C t gs" and a: "a \<in> set (elems gs)" and dist: "distinct (elems gs)"
    and nx: "\<And>pre post. elems gs = pre @ a # post \<Longrightarrow> post \<noteq> [] \<Longrightarrow> nx = Some (hd post)"
    and b: "b = hbucket (length t) C a" "b < length t" and tb: "t ! b = (n, ch)"
  shows "\<exists>gs'. groups_ok C (t[b := (n - 1, if ch = Some a then nx else ch)]) gs' \<and> elems gs' = remove1 a (elems gs)"
proof -
  obtain g where g: "map_of gs b = Some g" "a \<in> set g" using groups_bucket [OF gs a] b(1) by blast
  obtain gs1 gs2 where sp: "gs = gs1 @ (b, g) # gs2" "b \<notin> fst ` set gs1" using group_split [OF g(1)] by blast
  have b2: "b \<notin> fst ` set gs2" using gs sp unfolding groups_ok_def by auto
  obtain g1 g2 where g12: "g = g1 @ a # g2" "a \<notin> set g1" using split_list_first [OF g(2)] by blast
  have tb': "n = length g" "ch = Some (hd g)"
    using gs b(2) tb g(1) unfolding groups_ok_def bucket_ok_def by fastforce+
  have a1: "a \<notin> set (elems gs1)" using dist sp g12 by auto
  have rm: "remove1 a (elems gs) = elems gs1 @ (g1 @ g2) @ elems gs2"
    using a1 g12 unfolding sp(1) by (simp add: remove1_append)
  let ?c = "if ch = Some a then nx else ch"
  let ?t = "t[b := (n - 1, ?c)]"
  have chain: "?c = Some (hd (g1 @ g2))" if ne: "g1 @ g2 \<noteq> []"
  proof (cases g1)
    case Nil
    then have "elems gs = elems gs1 @ a # (g2 @ elems gs2)" using sp g12 by simp
    from nx [OF this] show ?thesis using Nil ne tb' g12 by auto
  next
    case (Cons x g1')
    then show ?thesis using tb' g12 by auto
  qed
  define gs' where "gs' = gs1 @ (if g1 @ g2 = [] then gs2 else (b, g1 @ g2) # gs2)"
  have m1: "map_of gs1 b = None" "map_of gs2 b = None" using sp(2) b2 by (simp_all add: map_of_eq_None_iff)
  have mo: "map_of gs' c = (if c = b then if g1 @ g2 = [] then None else Some (g1 @ g2) else map_of gs c)" for c
    unfolding gs'_def sp(1) using m1 by (simp add: map_add_def split: option.splits)
  have "groups_ok C ?t gs'"
    unfolding groups_ok_def
  proof (intro conjI)
    show "distinct (map fst gs')" using gs sp unfolding groups_ok_def gs'_def by auto
    show "\<forall>(b, g) \<in> set gs'. g \<noteq> [] \<and> (\<forall>a \<in> set g. hbucket (length ?t) C a = b)"
      using gs g12 unfolding groups_ok_def gs'_def sp(1) by (auto split: if_splits)
    show "\<forall>c < length ?t. bucket_ok gs' c (?t ! c)"
    proof (intro allI impI)
      fix c assume c: "c < length ?t"
      then have old: "bucket_ok gs c (t ! c)" using gs unfolding groups_ok_def by simp
      show "bucket_ok gs' c (?t ! c)"
      proof (cases "c = b")
        case True
        then have tc: "?t ! c = (n - 1, ?c)" using b(2) by simp
        have "n - 1 = length (g1 @ g2)" using tb' g12 by simp
        then show ?thesis unfolding tc unfolding bucket_ok_def mo using True chain by simp
      next
        case False
        then have tc: "?t ! c = t ! c" by simp
        show ?thesis using old unfolding tc unfolding bucket_ok_def mo by (simp add: False)
      qed
    qed
  qed
  moreover have "elems gs' = remove1 a (elems gs)" unfolding rm gs'_def by simp
  ultimately show ?thesis by blast
qed

lemma hash_remove_ok:
  assumes ok: "hash_ok H xs" and a: "a \<in> set xs"
  shows "\<exists>H' xs'. removeElement H a = Some H' \<and> hash_ok H' xs' \<and> set xs' = set xs - {a}
    \<and> (\<forall>c \<in> set xs'. \<exists>e e'. cells H c = Some e \<and> cells H' c = Some e' \<and> pKey e' = pKey e \<and> data e' = data e)"
proof -
  have parts: "dlist (cells H) (first H) xs" "distinct xs" "elems_ok (cells H) (set xs)" "count H = length xs"
    "\<forall>a. cells H a \<noteq> None \<longrightarrow> a < brk H" "table_ok H xs"
    using ok unfolding hash_ok_def by blast+
  obtain pre post where xs: "xs = pre @ a # post" "a \<notin> set pre" using split_list_first [OF a] by blast
  have ap: "a \<notin> set (pre @ post)" "distinct (pre @ post)" using parts(2) xs by auto
  have rx: "remove1 a xs = pre @ post" using xs by (simp add: remove1_append)
  obtain e where e: "cells H a = Some e" using dlist_cell [OF parts(1) a] by blast
  obtain C f where u: "unlink H e = Some (H\<lparr>cells := C, first := f\<rparr>)" "dlist C f (pre @ post)" "same_payload (cells H) C"
    using unlink_ok [OF parts(1) [unfolded xs(1)] parts(2) [unfolded xs(1)] e] by blast
  have nx: "nextp e = Some (hd q)" if pq: "xs = p @ a # q" "q \<noteq> []" for p q
  proof -
    obtain l m n where "dseg (cells H) m n (a # q) l None" using parts(1) unfolding pq(1) dseg_append by (elim exE conjE) blast
    then have "dseg (cells H) (Some a) (nextp e) q l None" using e by auto
    then show ?thesis using dseg_first [of "cells H" "Some a" "nextp e" q] pq(2) by auto
  qed
  let ?D = "C(a := None)"
  have dD: "dlist ?D f (pre @ post)" using u(2) by (simp add: dseg_frame [OF ap(1)])
  have eD: "elems_ok ?D (set (pre @ post))"
  proof -
    have "elems_ok C (set (pre @ post))"
      using elems_ok_payload [OF parts(3) u(3)] xs unfolding elems_ok_def by (auto simp: inj_on_def)
    then show ?thesis using ap(1) unfolding elems_ok_def inj_on_def hkey_def by (auto simp del: set_append)
  qed
  define Ht where "Ht = H\<lparr>first := f, cells := ?D, count := length xs - 1\<rparr>"
  have brkD: "\<forall>c. ?D c \<noteq> None \<longrightarrow> c < brk H"
    using parts(5) same_payload_cell(2) [OF u(3)] by (metis fun_upd_apply)
  have pay: "\<exists>e e'. cells H c = Some e \<and> ?D c = Some e' \<and> pKey e' = pKey e \<and> data e' = data e"
    if c: "c \<in> set (pre @ post)" for c
  proof -
    have "c \<noteq> a" using c ap(1) by blast
    obtain e where e: "cells H c = Some e" using dlist_cell [OF parts(1), of c] c xs by auto
    then show ?thesis using same_payload_cell(1) [OF u(3) e] \<open>c \<noteq> a\<close> by auto
  qed
  obtain t' where run: "removeElement H a = (if count Ht = 0 then sqlite3HashClear (Ht\<lparr>ht := t'\<rparr>) else Some (Ht\<lparr>ht := t'\<rparr>))"
    and tab: "table_ok (Ht\<lparr>ht := t'\<rparr>) (pre @ post)"
  proof (cases "ht H")
    case None
    have eq: "Ht\<lparr>ht := None\<rparr> = Ht" using None by (cases H) (simp add: Ht_def)
    have "removeElement H a = (if count Ht = 0 then sqlite3HashClear (Ht\<lparr>ht := None\<rparr>) else Some (Ht\<lparr>ht := None\<rparr>))"
      using e u(1) None parts(4) unfolding eq by (simp add: removeElement_def Ht_def Let_def)
    moreover have "table_ok (Ht\<lparr>ht := None\<rparr>) (pre @ post)" using parts(6) None by (simp add: table_ok_def Ht_def)
    ultimately show ?thesis by (rule that)
  next
    case (Some t)
    then obtain gs where t: "htsize H = length t" "t \<noteq> []" "groups_ok (cells H) t gs" "xs = elems gs"
      using parts(6) unfolding table_ok_def by auto
    define b where "b = unat (hv e) mod length t"
    have b: "b = hbucket (length t) (cells H) a" "b < length t" using e t(2) by (simp_all add: b_def hbucket_def)
    obtain n ch where tb: "t ! b = (n, ch)" by fastforce
    let ?t = "t[b := (n - 1, if ch = Some a then nextp e else ch)]"
    have "\<exists>gs'. groups_ok (cells H) ?t gs' \<and> elems gs' = remove1 a (elems gs)"
      by (rule groups_remove [OF t(3) _ _ nx b tb]) (use a parts(2) t(4) in auto)
    then obtain gs' where gs': "groups_ok (cells H) ?t gs'" "elems gs' = pre @ post"
      using rx unfolding t(4) by auto
    have "groups_ok C ?t gs'"
    proof (rule groups_ok_payload [OF gs'(1) u(3)])
      fix c assume "c \<in> set (elems gs')"
      then show "cells H c \<noteq> None" using dlist_cell [OF parts(1), of c] xs unfolding gs'(2) by auto
    qed
    moreover have "hbucket m ?D c = hbucket m C c" if "c \<in> set (elems gs')" for m c
      using that ap(1) unfolding gs'(2) by (auto simp: hbucket_def simp del: set_append)
    ultimately have gD: "groups_ok ?D ?t gs'" unfolding groups_ok_def by fastforce
    have comm: "G\<lparr>cells := c, count := i, ht := x\<rparr> = G\<lparr>ht := x, cells := c, count := i\<rparr>"
      for G :: "'a Hash" and c i x by simp
    have "removeElement H a = (if count Ht = 0 then sqlite3HashClear (Ht\<lparr>ht := Some ?t\<rparr>) else Some (Ht\<lparr>ht := Some ?t\<rparr>))"
      using e u(1) Some t(1) b(2) tb parts(4) by (simp add: removeElement_def Ht_def Let_def b_def [symmetric] comm)
    moreover have "table_ok (Ht\<lparr>ht := Some ?t\<rparr>) (pre @ post)"
      unfolding table_ok_def using gD gs'(2) t(1,2) by (auto simp: Ht_def)
    ultimately show ?thesis by (rule that)
  qed
  let ?H = "Ht\<lparr>ht := t'\<rparr>"
  have sx: "set (pre @ post) = set xs - {a}" using xs ap(1) by auto
  show ?thesis
  proof (cases "count Ht = 0")
    case True
    then have nil: "pre @ post = []" using xs by (auto simp: Ht_def)
    have "\<exists>H'. sqlite3HashClear ?H = Some H' \<and> hash_ok H' []"
      by (rule hash_clear_ok) (use dD ap(2) brkD in \<open>simp_all add: Ht_def del: distinct_append\<close>)
    then show ?thesis using run True nil sx by (metis empty_iff empty_set)
  next
    case False
    have "hash_ok ?H (pre @ post)"
      unfolding hash_ok_def using dD ap(2) eD brkD tab xs by (simp add: Ht_def)
    moreover have "cells ?H = ?D" by (simp add: Ht_def)
    ultimately show ?thesis using run False sx pay by (metis (no_types, lifting))
  qed
qed

definition stored :: "(nat \<Rightarrow> 'd HashElem option) \<Rightarrow> nat set \<Rightarrow> u8 list \<Rightarrow> 'd \<Rightarrow> bool" where
  "stored C S k v \<longleftrightarrow> (\<exists>a \<in> S. \<exists>e. C a = Some e \<and> lower (cstr (pKey e)) = k \<and> data e = Some v)"

lemma hash_rep_stored:
  "hash_rep H m \<longleftrightarrow> (\<exists>xs. hash_ok H xs \<and> (\<forall>k v. m k = Some v \<longleftrightarrow> stored (cells H) (set xs) k v))"
  unfolding hash_rep_def stored_def ..

lemma stored_insert:
  "stored C (insert a S) k v \<longleftrightarrow>
     stored C S k v \<or> (\<exists>e. C a = Some e \<and> lower (cstr (pKey e)) = k \<and> data e = Some v)"
  unfolding stored_def by blast

lemma stored_mono:
  assumes "\<And>c. c \<in> S \<Longrightarrow> \<exists>e e'. C c = Some e \<and> D c = Some e' \<and> pKey e' = pKey e \<and> data e' = data e"
  shows "stored D S k v = stored C S k v"
proof -
  have "(\<exists>e. D c = Some e \<and> lower (cstr (pKey e)) = k \<and> data e = Some v) =
        (\<exists>e. C c = Some e \<and> lower (cstr (pKey e)) = k \<and> data e = Some v)" if "c \<in> S" for c
    using assms [OF that] by auto
  then show ?thesis unfolding stored_def by blast
qed

lemma stored_other:
  assumes "elems_ok C S" "a \<in> S" "hkey C a = q"
  shows "stored C (S - {a}) k v \<longleftrightarrow> k \<noteq> q \<and> stored C S k v"
proof -
  have "hkey C c \<noteq> q" if "c \<in> S - {a}" for c
    using assms that unfolding elems_ok_def inj_on_def by blast
  moreover have "hkey C c = lower (cstr (pKey e))" if "C c = Some e" for c e using that by (simp add: hkey_def)
  ultimately show ?thesis using assms(2,3) unfolding stored_def by (metis DiffE DiffI singletonD)
qed

lemma found_cell:
  assumes "hash_ok H xs" "a \<in> set xs"
  shows "\<exists>e v. cells H a = Some e \<and> cell_ok e \<and> data e = Some v"
  using assms unfolding hash_ok_def elems_ok_def cell_ok_def by blast

lemma hash_replace_ok:
  fixes v :: 'd
  assumes ok: "hash_ok H xs" and a: "a \<in> set xs" "cells H a = Some e"
    and key: "0 \<in> set key" "hkey (cells H) a = lower (cstr key)"
  defines "H' \<equiv> H\<lparr>cells := (cells H)(a \<mapsto> e\<lparr>data := Some v, pKey := key\<rparr>)\<rparr>"
  shows "hash_ok H' xs"
proof -
  have parts: "dlist (cells H) (first H) xs" "distinct xs" "elems_ok (cells H) (set xs)" "count H = length xs"
    "\<forall>a. cells H a \<noteq> None \<longrightarrow> a < brk H" "table_ok H xs"
    using ok unfolding hash_ok_def by blast+
  have co: "cell_ok e" using parts(3) a unfolding elems_ok_def by fastforce
  have lk: "lower (cstr (pKey e)) = lower (cstr key)" using key(2) a(2) by (simp add: hkey_def)
  have hk: "hkey (cells H') c = hkey (cells H) c" for c using lk a(2) by (simp add: hkey_def H'_def)
  have hb: "hbucket n (cells H') c = hbucket n (cells H) c" for n c using a(2) by (simp add: hbucket_def H'_def)
  have "dlist (cells H') (first H') xs"
  proof -
    have "dseg (cells H') p f xs l q = dseg (cells H) p f xs l q" for p f l q
      by (rule dseg_cong) (use a(2) in \<open>auto simp: H'_def\<close>)
    then show ?thesis using parts(1) by (simp add: H'_def)
  qed
  moreover have "elems_ok (cells H') (set xs)"
  proof -
    have "cell_ok (e\<lparr>data := Some v, pKey := key\<rparr>)"
      using co key(1) lower_hash [OF lk] unfolding cell_ok_def by simp
    then have "\<forall>c \<in> set xs. \<exists>e. cells H' c = Some e \<and> cell_ok e"
      using parts(3) unfolding elems_ok_def H'_def by auto
    then show ?thesis using parts(3) hk unfolding elems_ok_def inj_on_def by simp
  qed
  moreover have "table_ok H' xs"
    using parts(6) hb unfolding table_ok_def groups_ok_def by (simp add: H'_def split: option.splits)
  moreover have "\<forall>c. cells H' c \<noteq> None \<longrightarrow> c < brk H'" using parts(5) a(2) by (auto simp: H'_def)
  ultimately show ?thesis using parts(2,4) unfolding hash_ok_def by (simp add: H'_def)
qed

lemma find_cases:
  assumes "hash_ok H xs" "0 \<in> set key" "\<And>k v. m k = Some v \<longleftrightarrow> stored (cells H) (set xs) k v"
  obtains (absent) "findElementWithHash H key = Some (None, hash_of (cstr key))"
      "\<forall>a \<in> set xs. hkey (cells H) a \<noteq> lower (cstr key)" "m (lower (cstr key)) = None"
    | (present) a e v where "findElementWithHash H key = Some (Some a, hash_of (cstr key))" "a \<in> set xs"
      "hkey (cells H) a = lower (cstr key)" "cells H a = Some e" "data e = Some v" "m (lower (cstr key)) = Some v"
proof -
  obtain r where r: "findElementWithHash H key = Some (r, hash_of (cstr key))"
    "case r of None \<Rightarrow> \<forall>a \<in> set xs. hkey (cells H) a \<noteq> lower (cstr key)
       | Some a \<Rightarrow> a \<in> set xs \<and> hkey (cells H) a = lower (cstr key)"
    using findElement_ok [OF assms(1,2)] by blast
  show thesis
  proof (cases r)
    case None
    then have n: "\<forall>a \<in> set xs. hkey (cells H) a \<noteq> lower (cstr key)" using r(2) by simp
    then have "\<not> stored (cells H) (set xs) (lower (cstr key)) v" for v
      unfolding stored_def hkey_def by (metis option.sel)
    then have "m (lower (cstr key)) = None" using assms(3) by (cases "m (lower (cstr key))") auto
    then show thesis using absent r(1) n None by simp
  next
    case (Some a)
    then have a: "a \<in> set xs" "hkey (cells H) a = lower (cstr key)" using r(2) by simp_all
    obtain e v where e: "cells H a = Some e" "data e = Some v" using found_cell [OF assms(1) a(1)] by blast
    have "stored (cells H) (set xs) (lower (cstr key)) v" using a e unfolding stored_def hkey_def by auto
    then show thesis using present r(1) Some a e assms(3) by simp
  qed
qed

text \<open>Inserting, replacing and deleting.\<close>

lemma hash_insert_ok:
  assumes rep: "hash_rep H m" and key: "0 \<in> set key" and ms: "\<forall>n > 0. 0 < msize n"
  shows "\<exists>r H' k'. sqlite3HashInsert mem k msize H key d = Some (r, H', k')
    \<and> (if d \<noteq> None \<and> m (lower (cstr key)) = None \<and> \<not> mem k then r = d \<and> H' = H
       else r = m (lower (cstr key)) \<and> hash_rep H' (m(lower (cstr key) := d)))"
proof -
  obtain xs where xs: "hash_ok H xs" "\<And>k v. m k = Some v \<longleftrightarrow> stored (cells H) (set xs) k v"
    using rep unfolding hash_rep_stored by blast
  have eo: "elems_ok (cells H) (set xs)" using xs(1) unfolding hash_ok_def by blast
  let ?q = "lower (cstr key)"
  from xs(1) key xs(2) show ?thesis
  proof (cases rule: find_cases)
    case absent
    show ?thesis
    proof (cases d)
      case None
      moreover have "m(?q := None) = m" using absent(3) by (simp add: fun_upd_idem)
      ultimately show ?thesis using absent rep by (simp add: sqlite3HashInsert_def)
    next
      case (Some v)
      show ?thesis
      proof (cases "mem k")
        case False
        then show ?thesis using absent Some by (simp add: sqlite3HashInsert_def)
      next
        case True
        let ?e = "\<lparr>nextp = None, prevp = None, data = Some v, pKey = key, hv = hash_of (cstr key)\<rparr>"
        let ?H1 = "H\<lparr>cells := (cells H)(brk H \<mapsto> ?e), brk := brk H + 1, count := count H + 1\<rparr>"
        obtain H2 k2 H3 xs3 where r:
          "(if count ?H1 \<ge> 5 \<and> count ?H1 > 2 * htsize ?H1
            then map_option snd (rehash mem (Suc k) msize ?H1 (count ?H1 * 3)) else Some (?H1, Suc k)) = Some (H2, k2)"
          "insertElement H2 (if ht H2 \<noteq> None then Some (unat (hash_of (cstr key)) mod htsize H2) else None) (brk H) = Some H3"
          "hash_ok H3 xs3" "set xs3 = insert (brk H) (set xs)" "same_payload (cells ?H1) (cells H3)" "brk H \<notin> set xs"
          using hash_add_ok [where mem = mem and k = "Suc k" and v = v, OF xs(1) key absent(2) ms] by (elim exE conjE) blast
        have run: "sqlite3HashInsert mem k msize H key d = Some (None, H3, k2)"
          by (simp only: sqlite3HashInsert_def absent(1) Some True bind.simps prod.case option.simps Let_def
              simp_thms if_False r(1,2))
        have st: "stored (cells H3) (set xs3) q w \<longleftrightarrow> stored (cells H) (set xs) q w \<or> q = ?q \<and> w = v" for q w
        proof -
          obtain e3 where e3: "cells H3 (brk H) = Some e3" "data e3 = Some v" "pKey e3 = key"
            using same_payload_cell(1) [OF r(5), of "brk H" ?e] by auto
          have "stored (cells H3) (set xs) q w = stored (cells H) (set xs) q w"
          proof (rule stored_mono)
            fix c assume c: "c \<in> set xs"
            then obtain e where e: "cells H c = Some e" using eo unfolding elems_ok_def by blast
            have "c \<noteq> brk H" using c r(6) by blast
            then show "\<exists>e e'. cells H c = Some e \<and> cells H3 c = Some e' \<and> pKey e' = pKey e \<and> data e' = data e"
              using same_payload_cell(1) [OF r(5), of c e] e by auto
          qed
          then show ?thesis unfolding r(4) stored_insert using e3 by auto
        qed
        have "(m(?q := d)) q = Some w \<longleftrightarrow> stored (cells H3) (set xs3) q w" for q w
          unfolding st using xs(2) [of q w] absent(3) Some by (cases "q = ?q") auto
        then have "hash_rep H3 (m(?q := d))" using r(3) unfolding hash_rep_stored by blast
        then show ?thesis using run absent(3) True by simp
      qed
    qed
  next
    case (present a e v)
    show ?thesis
    proof (cases d)
      case None
      obtain H' xs' where r: "removeElement H a = Some H'" "hash_ok H' xs'" "set xs' = set xs - {a}"
        "\<forall>c \<in> set xs'. \<exists>e e'. cells H c = Some e \<and> cells H' c = Some e' \<and> pKey e' = pKey e \<and> data e' = data e"
        using hash_remove_ok [OF xs(1) present(2)] by (elim exE conjE) blast
      have "(m(?q := d)) q = Some w \<longleftrightarrow> stored (cells H') (set xs') q w" for q w
      proof -
        have "stored (cells H') (set xs') q w = stored (cells H) (set xs') q w"
          by (rule stored_mono) (use r(4) in blast)
        then show ?thesis unfolding r(3) stored_other [OF eo present(2,3)] using xs(2) None by simp
      qed
      then have "hash_rep H' (m(?q := d))" using r(2) unfolding hash_rep_stored by blast
      then show ?thesis using present None r(1) by (simp add: sqlite3HashInsert_def)
    next
      case (Some w)
      let ?H = "H\<lparr>cells := (cells H)(a \<mapsto> e\<lparr>data := Some w, pKey := key\<rparr>)\<rparr>"
      have ok: "hash_ok ?H xs" by (rule hash_replace_ok [OF xs(1) present(2,4) key present(3)])
      have eq: "set xs = insert a (set xs - {a})" using present(2) by blast
      have "(m(?q := d)) q = Some u \<longleftrightarrow> stored (cells ?H) (set xs) q u" for q u
      proof -
        have "stored (cells ?H) (set xs - {a}) q u = stored (cells H) (set xs - {a}) q u"
          by (rule stored_mono) (use eo in \<open>auto simp: elems_ok_def\<close>)
        then have "stored (cells ?H) (insert a (set xs - {a})) q u
            \<longleftrightarrow> (q \<noteq> ?q \<and> stored (cells H) (set xs) q u) \<or> q = ?q \<and> u = w"
          unfolding stored_insert stored_other [OF eo present(2,3)] by auto
        then show ?thesis unfolding eq [symmetric] using xs(2) Some by auto
      qed
      then have "hash_rep ?H (m(?q := d))" using ok unfolding hash_rep_stored by blast
      then show ?thesis using present Some by (simp add: sqlite3HashInsert_def)
    qed
  qed
qed

lemma hash_clear_rep:
  assumes "hash_rep H m"
  shows "\<exists>H'. sqlite3HashClear H = Some H' \<and> hash_rep H' Map.empty"
proof -
  obtain xs where xs: "hash_ok H xs" using assms unfolding hash_rep_def by blast
  have "\<exists>H'. sqlite3HashClear H = Some H' \<and> hash_ok H' []"
    by (rule hash_clear_ok) (use xs in \<open>auto simp: hash_ok_def\<close>)
  moreover have "hash_rep H' Map.empty" if "hash_ok H' []" for H' :: "'a Hash"
    using that unfolding hash_rep_def by auto
  ultimately show ?thesis by blast
qed

lemma hash_init_rep: "\<forall>a. cells H a \<noteq> None \<longrightarrow> a < brk H \<Longrightarrow> hash_rep (sqlite3HashInit H) Map.empty"
  unfolding hash_rep_def hash_ok_def table_ok_def sqlite3HashInit_def elems_ok_def by auto

subsection \<open>Histories\<close>

datatype 'd hash_op = HFind "u8 list" | HInsert "u8 list" "'d option" | HClear

fun hash_op_ok :: "'d hash_op \<Rightarrow> bool" where
  "hash_op_ok (HFind key) \<longleftrightarrow> 0 \<in> set key"
| "hash_op_ok (HInsert key d) \<longleftrightarrow> 0 \<in> set key"
| "hash_op_ok HClear \<longleftrightarrow> True"

text \<open>The results of a sequence of operations on a map over names in lower case.\<close>

fun hash_spec :: "'d hash_op list \<Rightarrow> (u8 list \<Rightarrow> 'd option) \<Rightarrow> 'd option list" where
  "hash_spec [] m = []"
| "hash_spec (HFind key # ops) m = m (lower (cstr key)) # hash_spec ops m"
| "hash_spec (HInsert key d # ops) m = m (lower (cstr key)) # hash_spec ops (m(lower (cstr key) := d))"
| "hash_spec (HClear # ops) m = hash_spec ops Map.empty"

fun hash_run :: "('s \<Rightarrow> u8 list \<Rightarrow> 'd option option) \<Rightarrow> ('s \<Rightarrow> u8 list \<Rightarrow> 'd option \<Rightarrow> ('d option \<times> 's) option) \<Rightarrow>
    ('s \<Rightarrow> 's option) \<Rightarrow> 'd hash_op list \<Rightarrow> 's \<Rightarrow> ('d option list \<times> 's) option" where
  "hash_run look ins clr [] s = Some ([], s)"
| "hash_run look ins clr (HFind key # ops) s = do {
     v \<leftarrow> look s key;
     (vs, s) \<leftarrow> hash_run look ins clr ops s;
     Some (v # vs, s)
   }"
| "hash_run look ins clr (HInsert key d # ops) s = do {
     (v, s) \<leftarrow> ins s key d;
     (vs, s) \<leftarrow> hash_run look ins clr ops s;
     Some (v # vs, s)
   }"
| "hash_run look ins clr (HClear # ops) s = do {
     s \<leftarrow> clr s;
     hash_run look ins clr ops s
   }"

locale name_map =
  fixes rep :: "'s \<Rightarrow> (u8 list \<Rightarrow> 'd option) \<Rightarrow> bool"
    and look :: "'s \<Rightarrow> u8 list \<Rightarrow> 'd option option"
    and ins :: "'s \<Rightarrow> u8 list \<Rightarrow> 'd option \<Rightarrow> ('d option \<times> 's) option"
    and clr :: "'s \<Rightarrow> 's option"
  assumes look_law: "\<lbrakk>rep s m; 0 \<in> set key\<rbrakk> \<Longrightarrow> look s key = Some (m (lower (cstr key)))"
    and ins_law: "\<lbrakk>rep s m; 0 \<in> set key\<rbrakk> \<Longrightarrow>
      \<exists>s'. ins s key d = Some (m (lower (cstr key)), s') \<and> rep s' (m(lower (cstr key) := d))"
    and clr_law: "rep s m \<Longrightarrow> \<exists>s'. clr s = Some s' \<and> rep s' Map.empty"
begin

lemma run_refines:
  "\<lbrakk>rep s m; list_all hash_op_ok ops\<rbrakk> \<Longrightarrow> \<exists>s'. hash_run look ins clr ops s = Some (hash_spec ops m, s')"
proof (induction ops m arbitrary: s rule: hash_spec.induct)
  case (2 key ops m)
  then show ?case using look_law [OF 2(2), of key] by fastforce
next
  case (3 key d ops m)
  then obtain s' where s': "ins s key d = Some (m (lower (cstr key)), s')" "rep s' (m(lower (cstr key) := d))"
    using ins_law by fastforce
  then show ?case using 3(1) [OF s'(2)] 3(3) by (auto simp: fun_upd_def)
next
  case (4 ops m)
  then obtain s' where s': "clr s = Some s'" "rep s' Map.empty" using clr_law by blast
  then show ?case using 4(1) [OF s'(2)] 4(3) by auto
qed simp

text \<open>Two names that differ in case only address the same entry.\<close>

lemma look_case:
  assumes "rep s m" "0 \<in> set k1" "0 \<in> set k2" "lower (cstr k1) = lower (cstr k2)"
  shows "look s k1 = look s k2"
  using look_law [OF assms(1,2)] look_law [OF assms(1,3)] assms(4) by simp

end

text \<open>The table together with the counter of allocations.\<close>

definition hash_ins_fn :: "(nat \<Rightarrow> bool) \<Rightarrow> (nat \<Rightarrow> nat) \<Rightarrow> 'd Hash \<times> nat \<Rightarrow> u8 list \<Rightarrow> 'd option \<Rightarrow>
    ('d option \<times> 'd Hash \<times> nat) option" where
  "hash_ins_fn mem msize s key d = sqlite3HashInsert mem (snd s) msize (fst s) key d"

definition hash_clear_fn :: "'d Hash \<times> nat \<Rightarrow> ('d Hash \<times> nat) option" where
  "hash_clear_fn s = map_option (\<lambda>H. (H, snd s)) (sqlite3HashClear (fst s))"

interpretation hash_tab: name_map "\<lambda>s. hash_rep (fst s)" "\<lambda>s. sqlite3HashFind (fst s)"
  "hash_ins_fn (\<lambda>_. True) (\<lambda>n. n + e)" hash_clear_fn for e :: nat
proof
  fix s :: "'a Hash \<times> nat" and m :: "u8 list \<Rightarrow> 'a option" and key :: "u8 list" and d :: "'a option"
  assume rep: "hash_rep (fst s) m"
  show "\<exists>s'. hash_clear_fn s = Some s' \<and> hash_rep (fst s') Map.empty"
    using hash_clear_rep [OF rep] by (auto simp: hash_clear_fn_def)
  assume key: "0 \<in> set key"
  show "sqlite3HashFind (fst s) key = Some (m (lower (cstr key)))" by (rule hash_find_ok [OF rep key])
  show "\<exists>s'. hash_ins_fn (\<lambda>_. True) (\<lambda>n. n + e) s key d = Some (m (lower (cstr key)), s')
      \<and> hash_rep (fst s') (m(lower (cstr key) := d))"
    using hash_insert_ok [OF rep key, of "\<lambda>n. n + e" "\<lambda>_. True" "snd s" d] by (auto simp: hash_ins_fn_def)
qed

subsection \<open>Properties\<close>

lemma hash_names_example: "lower (cstr [0x41, 0]) = [0x61]" "lower (cstr [0x61, 0]) = [0x61]"
  by code_simp+

text \<open>C13: inserting into a hash table that represents a map over case-folded names. With data the entry
  of the name is set and the old data returned, without data the entry is removed and its data returned;
  when the entry is new and its allocation fails, the table is unchanged and the new data is returned.
  A failed allocation of the bucket array has no effect on the result. All pointers followed are valid.\<close>

theorem hash_insert:
  assumes "hash_rep H m" "0 \<in> set key" "\<forall>n > 0. 0 < msize n"
  shows "\<exists>r H' k'. sqlite3HashInsert mem k msize H key d = Some (r, H', k')
    \<and> (if d \<noteq> None \<and> m (lower (cstr key)) = None \<and> \<not> mem k then r = d \<and> H' = H
       else r = m (lower (cstr key)) \<and> hash_rep H' (m(lower (cstr key) := d)))"
  by (rule hash_insert_ok [OF assms])

theorem hash_insert_witness:
  "\<exists>r H' k'. sqlite3HashInsert (\<lambda>_. True) 0 id
      (sqlite3HashInit \<lparr>htsize = 0, count = 0, first = None, ht = None, cells = Map.empty, brk = 0\<rparr>)
      [0x41, 0] (Some True) = Some (r, H', k')
    \<and> r = None \<and> hash_rep H' [[0x61] \<mapsto> True]"
  using hash_insert [of _ Map.empty "[0x41, 0]" id "\<lambda>_. True" 0 "Some True",
      OF hash_init_rep [of "\<lparr>htsize = 0, count = 0, first = None, ht = None, cells = Map.empty, brk = 0\<rparr>"]]
  by (simp add: hash_names_example)

text \<open>C7: a hash table refines a map over names in which case is ignored. Any sequence of finds, inserts,
  deletions and clears on a fresh table, with all allocations succeeding and any excess \<open>e\<close> of memory returned
  for the bucket array, returns what the map returns, whatever the distribution of the names over the
  buckets and wherever the table is resized.\<close>

theorem hash_history:
  assumes "\<forall>a. cells H a \<noteq> None \<longrightarrow> a < brk H" "list_all hash_op_ok ops"
  shows "\<exists>s'. hash_run (\<lambda>s. sqlite3HashFind (fst s)) (hash_ins_fn (\<lambda>_. True) (\<lambda>n. n + e)) hash_clear_fn ops
      (sqlite3HashInit H, 0) = Some (hash_spec ops Map.empty, s')"
  by (rule hash_tab.run_refines) (use assms hash_init_rep [OF assms(1)] in simp_all)

theorem hash_history_witness:
  "\<exists>s'. hash_run (\<lambda>s. sqlite3HashFind (fst s)) (hash_ins_fn (\<lambda>_. True) (\<lambda>n. n + 0)) hash_clear_fn
      [HInsert [0x41, 0] (Some True), HFind [0x61, 0], HInsert [0x61, 0] None, HFind [0x41, 0]]
      (sqlite3HashInit \<lparr>htsize = 0, count = 0, first = None, ht = None, cells = Map.empty, brk = 0\<rparr>, 0)
    = Some ([None, Some True, Some True, None], s')"
  using hash_history [of "\<lparr>htsize = 0, count = 0, first = None, ht = None, cells = Map.empty, brk = 0\<rparr>"
      "[HInsert [0x41, 0] (Some True), HFind [0x61, 0], HInsert [0x61, 0] None, HFind [0x41, 0]]" 0]
  unfolding hash_spec.simps hash_names_example by simp

end
