(* ===== verification/Sql_Complete.thy ===== *)
theory Sql_Complete
  imports Str_Util "HOL-Library.Sublist"
begin

text \<open>
  \<^verbatim>\<open>complete.c\<close>: whether a text ends in a complete SQL statement. The text is a buffer with a
  terminating zero; a read behind its end makes the result \<open>None\<close>. States and tokens are the numbers of
  the source.
\<close>

unbundle bit_operations_syntax

subsection \<open>The state machine\<close>

abbreviation (input) tkSEMI :: nat where "tkSEMI \<equiv> 0"
abbreviation (input) tkWS :: nat where "tkWS \<equiv> 1"
abbreviation (input) tkOTHER :: nat where "tkOTHER \<equiv> 2"
abbreviation (input) tkEXPLAIN :: nat where "tkEXPLAIN \<equiv> 3"
abbreviation (input) tkCREATE :: nat where "tkCREATE \<equiv> 4"
abbreviation (input) tkTEMP :: nat where "tkTEMP \<equiv> 5"
abbreviation (input) tkTRIGGER :: nat where "tkTRIGGER \<equiv> 6"
abbreviation (input) tkEND :: nat where "tkEND \<equiv> 7"

definition trans_tab :: "nat list list" where
  "trans_tab =
    [[1, 0, 2, 3, 4, 2, 2, 2],
     [1, 1, 2, 3, 4, 2, 2, 2],
     [1, 2, 2, 2, 2, 2, 2, 2],
     [1, 3, 3, 2, 4, 2, 2, 2],
     [1, 4, 2, 2, 2, 4, 5, 2],
     [6, 5, 5, 5, 5, 5, 5, 5],
     [6, 6, 5, 5, 5, 5, 5, 7],
     [1, 7, 5, 5, 5, 5, 5, 5]]"

text \<open>The inner loops. Each returns the text at the position where the loop stops.\<close>

fun skip_comment :: "u8 list \<Rightarrow> u8 list option" where
  "skip_comment [] = None"
| "skip_comment (a # z) =
     (if a = 0 then Some (a # z)
      else if a \<noteq> 42 then skip_comment z
      else do { b \<leftarrow> rd z 0; if b \<noteq> 47 then skip_comment z else Some (a # z) })"

fun skip_until :: "u8 \<Rightarrow> u8 list \<Rightarrow> u8 list option" where
  "skip_until c [] = None"
| "skip_until c (a # z) = (if a \<noteq> 0 \<and> a \<noteq> c then skip_until c z else Some (a # z))"

fun id_length :: "u8 list \<Rightarrow> nat option" where
  "id_length [] = None"
| "id_length (a # z) = (if IdChar a then map_option Suc (id_length z) else Some 0)"

definition keyword_is :: "u8 list \<Rightarrow> nat \<Rightarrow> u8 list \<Rightarrow> bool option" where
  "keyword_is z nId w =
     (if nId = length w
      then map_option (\<lambda>c. c = 0) (sqlite3_strnicmp (Some z) (Some (w @ [0])) (int (length w)))
      else Some False)"

definition w_create :: "u8 list" where "w_create = [99, 114, 101, 97, 116, 101]"
definition w_trigger :: "u8 list" where "w_trigger = [116, 114, 105, 103, 103, 101, 114]"
definition w_temp :: "u8 list" where "w_temp = [116, 101, 109, 112]"
definition w_temporary :: "u8 list" where "w_temporary = [116, 101, 109, 112, 111, 114, 97, 114, 121]"
definition w_end :: "u8 list" where "w_end = [101, 110, 100]"
definition w_explain :: "u8 list" where "w_explain = [101, 120, 112, 108, 97, 105, 110]"

definition word_token :: "u8 list \<Rightarrow> nat \<Rightarrow> nat option" where
  "word_token z nId = do {
     c \<leftarrow> rd z 0;
     if c = 99 \<or> c = 67 then do {
       b \<leftarrow> keyword_is z nId w_create;
       Some (if b then tkCREATE else tkOTHER)
     } else if c = 116 \<or> c = 84 then do {
       b \<leftarrow> keyword_is z nId w_trigger;
       if b then Some tkTRIGGER
       else do {
         b \<leftarrow> keyword_is z nId w_temp;
         if b then Some tkTEMP
         else do {
           b \<leftarrow> keyword_is z nId w_temporary;
           Some (if b then tkTEMP else tkOTHER)
         }
       }
     } else if c = 101 \<or> c = 69 then do {
       b \<leftarrow> keyword_is z nId w_end;
       if b then Some tkEND
       else do {
         b \<leftarrow> keyword_is z nId w_explain;
         Some (if b then tkEXPLAIN else tkOTHER)
       }
     } else Some tkOTHER
   }"

text \<open>One pass of the outer loop on a text that does not start with zero: the value returned, or the token
  and the text behind it.\<close>

definition complete_token :: "nat \<Rightarrow> u8 list \<Rightarrow> (bool + nat \<times> u8 list) option" where
  "complete_token state z = do {
     c \<leftarrow> rd z 0;
     if c = 59 then Some (Inr (tkSEMI, drop 1 z))
     else if c = 32 \<or> c = 13 \<or> c = 9 \<or> c = 10 \<or> c = 12 then Some (Inr (tkWS, drop 1 z))
     else if c = 47 then do {
       d \<leftarrow> rd z 1;
       if d \<noteq> 42 then Some (Inr (tkOTHER, drop 1 z))
       else do {
         z \<leftarrow> skip_comment (drop 2 z);
         Some (if hd z = 0 then Inl False else Inr (tkWS, drop 2 z))
       }
     } else if c = 45 then do {
       d \<leftarrow> rd z 1;
       if d \<noteq> 45 then Some (Inr (tkOTHER, drop 1 z))
       else do {
         z \<leftarrow> skip_until 10 z;
         Some (if hd z = 0 then Inl (state = 1) else Inr (tkWS, drop 1 z))
       }
     } else if c = 91 then do {
       z \<leftarrow> skip_until 93 (drop 1 z);
       Some (if hd z = 0 then Inl False else Inr (tkOTHER, drop 1 z))
     } else if c = 96 \<or> c = 34 \<or> c = 39 then do {
       z \<leftarrow> skip_until c (drop 1 z);
       Some (if hd z = 0 then Inl False else Inr (tkOTHER, drop 1 z))
     } else if IdChar c then do {
       n \<leftarrow> id_length (drop 1 z);
       token \<leftarrow> word_token z (Suc n);
       Some (Inr (token, drop (Suc n) z))
     } else Some (Inr (tkOTHER, drop 1 z))
   }"

lemma skip_comment_length: "skip_comment z = Some y \<Longrightarrow> length y \<le> length z"
  by (induction z rule: skip_comment.induct) (auto split: if_splits bind_splits)

lemma skip_until_length: "skip_until c z = Some y \<Longrightarrow> length y \<le> length z"
  by (induction c z rule: skip_until.induct) (auto split: if_splits)

lemma complete_token_shorter:
  assumes "complete_token state z = Some (Inr (t, y))"
  shows "length y < length z"
  using assms
  by (cases z) (auto simp: complete_token_def split: if_splits bind_splits
      dest!: skip_comment_length skip_until_length)

function complete_loop :: "nat \<Rightarrow> u8 list \<Rightarrow> bool option" where
  "complete_loop state z =
     (case rd z 0 of
        None \<Rightarrow> None
      | Some c \<Rightarrow>
          if c = 0 then Some (state = 1)
          else (case complete_token state z of
                  None \<Rightarrow> None
                | Some (Inl r) \<Rightarrow> Some r
                | Some (Inr (token, y)) \<Rightarrow> complete_loop (trans_tab ! state ! token) y))"
  by pat_completeness auto

termination
  by (relation "measure (\<lambda>(state, z). length z)") (auto dest: complete_token_shorter)

declare complete_loop.simps [simp del]

definition sqlite3_complete :: "u8 list \<Rightarrow> bool option" where
  "sqlite3_complete zSql = complete_loop 0 zSql"

subsection \<open>The language of complete texts\<close>

text \<open>What a word is, by its letters without regard to case.\<close>

definition word_class :: "u8 list \<Rightarrow> nat" where
  "word_class w =
     (if lower w = w_create then tkCREATE else if lower w = w_trigger then tkTRIGGER
      else if lower w = w_temp \<or> lower w = w_temporary then tkTEMP else if lower w = w_end then tkEND
      else if lower w = w_explain then tkEXPLAIN else tkOTHER)"

definition quote_pair :: "u8 \<Rightarrow> u8 \<Rightarrow> bool" where
  "quote_pair q e \<longleftrightarrow> q = 91 \<and> e = 93 \<or> q \<in> {96, 34, 39} \<and> e = q"

text \<open>The tokens of a text; space and comments count for nothing.\<close>

inductive lexes :: "u8 list \<Rightarrow> nat list \<Rightarrow> bool" where
  lex_end: "lexes [] []"
| lex_semi: "lexes s ts \<Longrightarrow> lexes (59 # s) (tkSEMI # ts)"
| lex_ws: "\<lbrakk>c \<in> {32, 13, 9, 10, 12}; lexes s ts\<rbrakk> \<Longrightarrow> lexes (c # s) ts"
| lex_comment: "\<lbrakk>\<not> sublist [42, 47] b; lexes s ts\<rbrakk> \<Longrightarrow> lexes (47 # 42 # b @ 42 # 47 # s) ts"
| lex_line: "\<lbrakk>10 \<notin> set b; lexes s ts\<rbrakk> \<Longrightarrow> lexes (45 # 45 # b @ 10 # s) ts"
| lex_line_end: "10 \<notin> set b \<Longrightarrow> lexes (45 # 45 # b) []"
| lex_quote: "\<lbrakk>quote_pair q e; e \<notin> set b; lexes s ts\<rbrakk> \<Longrightarrow> lexes (q # b @ e # s) (tkOTHER # ts)"
| lex_word: "\<lbrakk>IdChar c; lexes (dropWhile IdChar s) ts\<rbrakk> \<Longrightarrow>
    lexes (c # s) (word_class (c # takeWhile IdChar s) # ts)"
| lex_op: "\<lbrakk>\<not> IdChar c; c \<notin> {59, 32, 13, 9, 10, 12, 91, 96, 34, 39}; \<not> (c = 47 \<and> prefix [42] s);
     \<not> (c = 45 \<and> prefix [45] s); lexes s ts\<rbrakk> \<Longrightarrow> lexes (c # s) (tkOTHER # ts)"

text \<open>A trigger definition starts with CREATE TRIGGER, possibly with TEMP and behind EXPLAIN. It ends with the first
  semicolon, END, semicolon; every other statement ends with the first semicolon.\<close>

definition explain_part :: "nat list \<Rightarrow> bool" where
  "explain_part e \<longleftrightarrow> e = [] \<or> (\<exists>os. e = tkEXPLAIN # os \<and> set os \<subseteq> {tkOTHER})"

definition trigger_head :: "nat list \<Rightarrow> bool" where
  "trigger_head h \<longleftrightarrow> (\<exists>e u. h = e @ tkCREATE # u @ [tkTRIGGER] \<and> explain_part e \<and> set u \<subseteq> {tkTEMP})"

inductive stmt :: "nat list \<Rightarrow> bool" where
  stmt_plain: "\<lbrakk>tkSEMI \<notin> set p; \<forall>h. prefix h p \<longrightarrow> \<not> trigger_head h\<rbrakk> \<Longrightarrow> stmt (p @ [tkSEMI])"
| stmt_trigger: "\<lbrakk>trigger_head h; \<not> sublist [tkSEMI, tkEND, tkSEMI] (b @ [tkSEMI, tkEND])\<rbrakk> \<Longrightarrow>
    stmt (h @ b @ [tkSEMI, tkEND, tkSEMI])"

definition complete_tokens :: "nat list \<Rightarrow> bool" where
  "complete_tokens ts \<longleftrightarrow> ts \<noteq> [] \<and> (\<exists>ss. ts = concat ss \<and> (\<forall>s \<in> set ss. stmt s))"

subsection \<open>The state machine accepts exactly these token sequences\<close>

definition trun :: "nat \<Rightarrow> nat list \<Rightarrow> nat" where
  "trun q ts = foldl (\<lambda>q t. trans_tab ! q ! t) q ts"

definition is_tok :: "nat \<Rightarrow> bool" where
  "is_tok t \<longleftrightarrow> t \<in> {0, 2, 3, 4, 5, 6, 7}"

lemma trun_simps [simp]:
  "trun q [] = q" "trun q (t # ts) = trun (trans_tab ! q ! t) ts"
  "trun q (xs @ ys) = trun (trun q xs) ys"
  by (simp_all add: trun_def)

lemma trans_row:
  "trans_tab ! 0 = [1, 0, 2, 3, 4, 2, 2, 2]" "trans_tab ! Suc 0 = [1, 1, 2, 3, 4, 2, 2, 2]"
  "trans_tab ! 2 = [1, 2, 2, 2, 2, 2, 2, 2]" "trans_tab ! 3 = [1, 3, 3, 2, 4, 2, 2, 2]"
  "trans_tab ! 4 = [1, 4, 2, 2, 2, 4, 5, 2]" "trans_tab ! 5 = [6, 5, 5, 5, 5, 5, 5, 5]"
  "trans_tab ! 6 = [6, 6, 5, 5, 5, 5, 5, 7]" "trans_tab ! 7 = [1, 7, 5, 5, 5, 5, 5, 5]"
  by (simp_all add: trans_tab_def)

lemma tok_cases:
  assumes "is_tok t"
  obtains "t = 0" | "t = 2" | "t = 3" | "t = 4" | "t = 5" | "t = 6" | "t = 7"
  using assms unfolding is_tok_def by auto

lemma run_0_1: "\<lbrakk>ts \<noteq> []; list_all is_tok ts\<rbrakk> \<Longrightarrow> trun 0 ts = trun 1 ts"
  by (cases ts) (auto simp: trans_row elim!: tok_cases)

lemma split_same:
  "\<lbrakk>set xs \<subseteq> {a}; set ys \<subseteq> {a}; t \<noteq> a; u \<noteq> a; xs @ t # r = ys @ u # r'\<rbrakk> \<Longrightarrow> xs = ys \<and> t = u \<and> r = r'"
proof (induction xs arbitrary: ys)
  case Nil
  then show ?case by (cases ys) auto
next
  case (Cons x xs)
  then show ?case by (cases ys) auto
qed

text \<open>No continuation of these is a trigger definition.\<close>

definition dead :: "nat list \<Rightarrow> bool" where
  "dead p \<longleftrightarrow> (\<forall>h. prefix h p \<longrightarrow> \<not> trigger_head h) \<and> (\<forall>r. \<not> trigger_head (p @ r))"

lemma dead_append: "dead p \<Longrightarrow> dead (p @ [t])"
  unfolding dead_def by (metis append.assoc append_Nil2 prefix_snoc)

lemma no_head_without: "4 \<notin> set p \<or> 6 \<notin> set p \<Longrightarrow> prefix h p \<Longrightarrow> \<not> trigger_head h"
  unfolding trigger_head_def prefix_def by auto

lemma dead_start: "is_tok t \<Longrightarrow> t \<notin> {3, 4} \<Longrightarrow> dead [t]"
  unfolding dead_def trigger_head_def explain_part_def prefix_def
  by (auto simp: Cons_eq_append_conv append_eq_Cons_conv)

lemma explain_not_create: "explain_part e \<Longrightarrow> 4 \<notin> set e"
  unfolding explain_part_def by auto

lemma split_first: "\<lbrakk>a \<notin> set xs; a \<notin> set ys; xs @ a # r = ys @ a # r'\<rbrakk> \<Longrightarrow> xs = ys \<and> r = r'"
proof (induction xs arbitrary: ys)
  case Nil
  then show ?case by (cases ys) auto
next
  case (Cons x xs)
  then show ?case by (cases ys) auto
qed

lemma dead_explain:
  assumes "set os \<subseteq> {2}" "t \<noteq> 2" "t \<noteq> 4"
  shows "dead (3 # os @ [t])"
proof -
  have "\<not> trigger_head ((3 # os @ [t]) @ r)" for r
  proof
    assume "trigger_head ((3 # os @ [t]) @ r)"
    then obtain os' u where "os @ t # r = os' @ 4 # u" "set os' \<subseteq> {2}"
      unfolding trigger_head_def explain_part_def by auto
    then show False using split_same [of os 2 os' t 4 r u] assms by simp
  qed
  moreover have "4 \<notin> set (3 # os @ [t])" using assms by auto
  ultimately show ?thesis unfolding dead_def using no_head_without by blast
qed

lemma dead_create:
  assumes "explain_part e" "set u \<subseteq> {5}" "t \<noteq> 5" "t \<noteq> 6"
  shows "dead (e @ 4 # u @ [t])"
proof -
  have "\<not> trigger_head ((e @ 4 # u @ [t]) @ r)" for r
  proof
    assume "trigger_head ((e @ 4 # u @ [t]) @ r)"
    then obtain e' u' where h: "e @ 4 # u @ t # r = e' @ 4 # u' @ [6]" "explain_part e'" "set u' \<subseteq> {5}"
      unfolding trigger_head_def by auto
    then have "u @ t # r = u' @ 6 # []"
      using split_first [OF explain_not_create [OF assms(1)] explain_not_create [OF h(2)]] by blast
    then show False using split_same [of u 5 u' t 6 r "[]"] assms h(3) by simp
  qed
  moreover have "6 \<notin> set (e @ 4 # u @ [t])" using assms unfolding explain_part_def by auto
  ultimately show ?thesis unfolding dead_def using no_head_without by blast
qed

text \<open>What the tokens since the last complete statement look like in each state.\<close>

definition pending :: "nat \<Rightarrow> nat list \<Rightarrow> bool" where
  "pending q p \<longleftrightarrow>
     (if q = 1 then p = [] else if q = 2 then 0 \<notin> set p \<and> dead p
      else if q = 3 then \<exists>os. p = 3 # os \<and> set os \<subseteq> {2}
      else if q = 4 then \<exists>e u. p = e @ 4 # u \<and> explain_part e \<and> set u \<subseteq> {5}
      else q \<in> {5, 6, 7} \<and> (\<exists>h b. p = h @ b \<and> trigger_head h \<and> \<not> sublist [0, 7, 0] b
        \<and> (q = 6 \<longleftrightarrow> suffix [0] b) \<and> (q = 7 \<longleftrightarrow> suffix [0, 7] b)))"

lemma sublist_snoc3: "sublist [a, b, c] (xs @ [x]) \<longleftrightarrow> sublist [a, b, c] xs \<or> c = x \<and> suffix [a, b] xs"
proof -
  have "suffix [a, b, c] (xs @ [x]) \<longleftrightarrow> c = x \<and> suffix [a, b] xs"
    using suffix_snoc [of "[a, b, c]" xs x] by (auto simp: suffix_def)
  then show ?thesis using sublist_snoc [of "[a, b, c]" xs x] by blast
qed

lemma suffix_snoc_simps:
  "suffix [a] (xs @ [x]) \<longleftrightarrow> a = x" "suffix [a, b] (xs @ [x]) \<longleftrightarrow> b = x \<and> suffix [a] xs"
  by (auto simp: suffix_def append_eq_append_conv2 Cons_eq_append_conv append_eq_Cons_conv)

lemma suffix_7_6: "suffix [0, 7] b \<Longrightarrow> \<not> suffix [0 :: nat] b"
  by (auto simp: suffix_def)

lemma explain_no_semi: "explain_part e \<Longrightarrow> 0 \<notin> set e \<and> 6 \<notin> set e"
  unfolding explain_part_def by auto

lemma pending_step_low:
  assumes "pending q p" "is_tok t" "q \<in> {1, 2, 3, 4}"
  shows "(stmt (p @ [t]) \<and> trans_tab ! q ! t = 1) \<or> pending (trans_tab ! q ! t) (p @ [t])"
proof (cases "t = 0")
  case True
  have "0 \<notin> set p \<and> (\<forall>h. prefix h p \<longrightarrow> \<not> trigger_head h)"
  proof -
    consider "q = 1" | "q = 2" | "q = 3" | "q = 4" using assms(3) by auto
    then show ?thesis
    proof cases
      case 1
      then show ?thesis using assms(1) by (auto simp: pending_def trigger_head_def)
    next
      case 2
      then show ?thesis using assms(1) by (auto simp: pending_def dead_def)
    next
      case 3
      then have "0 \<notin> set p" "4 \<notin> set p" using assms(1) by (auto simp: pending_def)
      then show ?thesis using no_head_without by blast
    next
      case 4
      then have "0 \<notin> set p" "6 \<notin> set p" using assms(1) explain_no_semi by (auto simp: pending_def)
      then show ?thesis using no_head_without by blast
    qed
  qed
  then have "stmt (p @ [t])" using True stmt_plain by blast
  moreover have "trans_tab ! q ! t = 1" using True assms(3) by (auto simp: trans_row)
  ultimately show ?thesis by blast
next
  case False
  consider "q = 1" | "q = 2" | "q = 3" | "q = 4" using assms(3) by auto
  then have "pending (trans_tab ! q ! t) (p @ [t])"
  proof cases
    case 1
    then have p: "p = []" using assms(1) by (simp add: pending_def)
    have "\<exists>e u. [4] = e @ 4 # u \<and> explain_part e \<and> set u \<subseteq> {5}"
      by (rule exI [of _ "[]"], rule exI [of _ "[]"]) (simp add: explain_part_def)
    then show ?thesis using assms(2) False dead_start [OF assms(2)] 1 p
      by (auto simp: trans_row pending_def elim!: tok_cases)
  next
    case 2
    then have "trans_tab ! q ! t = 2" using assms(2) False by (auto simp: trans_row elim!: tok_cases)
    then show ?thesis using assms(1) 2 False dead_append by (auto simp: pending_def)
  next
    case 3
    then obtain os where p: "p = 3 # os" "set os \<subseteq> {2}" using assms(1) by (auto simp: pending_def)
    consider "t = 2" | "t = 4" | "t \<noteq> 2" "t \<noteq> 4" by blast
    then show ?thesis
    proof cases
      case 1
      then show ?thesis using p 3 by (auto simp: trans_row pending_def)
    next
      case 2
      have "\<exists>e u. p @ [t] = e @ 4 # u \<and> explain_part e \<and> set u \<subseteq> {5}"
        using p 2 by (rule_tac exI [of _ p], rule_tac exI [of _ "[]"]) (auto simp: explain_part_def)
      then show ?thesis using 2 3 by (simp add: trans_row pending_def)
    next
      case t: 3
      have "trans_tab ! q ! t = 2" using assms(2) False t 3 by (auto simp: trans_row elim!: tok_cases)
      then show ?thesis using dead_explain [OF p(2) t] p False by (auto simp: pending_def)
    qed
  next
    case 4
    then obtain e u where p: "p = e @ 4 # u" "explain_part e" "set u \<subseteq> {5}" using assms(1) by (auto simp: pending_def)
    consider "t = 5" | "t = 6" | "t \<noteq> 5" "t \<noteq> 6" by blast
    then show ?thesis
    proof cases
      case 1
      then have "\<exists>e u. p @ [t] = e @ 4 # u \<and> explain_part e \<and> set u \<subseteq> {5}"
        using p by (rule_tac exI [of _ e], rule_tac exI [of _ "u @ [5]"]) auto
      then show ?thesis using 1 4 by (simp add: trans_row pending_def)
    next
      case 2
      then have "trigger_head (p @ [t])" using p unfolding trigger_head_def by auto
      moreover have "\<not> sublist [0, 7, 0] ([] :: nat list)" "\<not> suffix [0 :: nat] []" "\<not> suffix [0 :: nat, 7] []" by simp_all
      moreover have "p @ [t] = (p @ [t]) @ []" by simp
      ultimately have "\<exists>h b. p @ [t] = h @ b \<and> trigger_head h \<and> \<not> sublist [0, 7, 0] b \<and> \<not> suffix [0] b \<and> \<not> suffix [0, 7] b"
        by (rule_tac exI [of _ "p @ [t]"], rule_tac exI [of _ "[]"]) simp
      then show ?thesis using 2 4 by (simp add: trans_row pending_def)
    next
      case t: 3
      have "trans_tab ! q ! t = 2" using assms(2) False t 4 by (auto simp: trans_row elim!: tok_cases)
      then show ?thesis using dead_create [OF p(2,3) t] p(1) explain_no_semi [OF p(2)] p(3) False
        by (auto simp: pending_def)
    qed
  qed
  then show ?thesis ..
qed

lemma pending_step_trigger:
  assumes "pending q p" "is_tok t" "q \<in> {5, 6, 7}"
  shows "(stmt (p @ [t]) \<and> trans_tab ! q ! t = 1) \<or> pending (trans_tab ! q ! t) (p @ [t])"
proof -
  obtain h b where p: "p = h @ b" "trigger_head h" "\<not> sublist [0, 7, 0] b" "q = 6 \<longleftrightarrow> suffix [0] b" "q = 7 \<longleftrightarrow> suffix [0, 7] b"
    using assms(1,3) by (auto simp: pending_def)
  show ?thesis
  proof (cases "q = 7 \<and> t = 0")
    case True
    then obtain b' where b': "b = b' @ [0, 7]" using p(5) by (auto simp: suffix_def)
    then have "stmt (h @ b' @ [0, 7, 0])" using p(2,3) stmt_trigger by blast
    then show ?thesis using True p(1) b' by (simp add: trans_row)
  next
    case False
    let ?q = "trans_tab ! q ! t"
    have q: "?q \<in> {5, 6, 7}" "?q = 6 \<longleftrightarrow> t = 0" "?q = 7 \<longleftrightarrow> q = 6 \<and> t = 7"
      using assms(2,3) False by (auto simp: trans_row elim!: tok_cases)
    have "\<not> sublist [0, 7, 0] (b @ [t])" using p(3,5) False unfolding sublist_snoc3 by auto
    moreover have "?q = 6 \<longleftrightarrow> suffix [0] (b @ [t])" "?q = 7 \<longleftrightarrow> suffix [0, 7] (b @ [t])"
      unfolding suffix_snoc_simps using q p(4) by auto
    moreover have "p @ [t] = h @ (b @ [t])" using p(1) by simp
    ultimately have "\<exists>h b. p @ [t] = h @ b \<and> trigger_head h \<and> \<not> sublist [0, 7, 0] b
        \<and> (?q = 6 \<longleftrightarrow> suffix [0] b) \<and> (?q = 7 \<longleftrightarrow> suffix [0, 7] b)" using p(2) by blast
    then have "pending ?q (p @ [t])" using q(1) unfolding pending_def by auto
    then show ?thesis ..
  qed
qed

lemma pending_state: "pending q p \<Longrightarrow> q \<in> {1, 2, 3, 4} \<or> q \<in> {5, 6, 7}"
  unfolding pending_def by (auto split: if_splits)

lemma pending_head: "pending q p \<Longrightarrow> q \<in> {5, 6, 7} \<Longrightarrow> \<exists>h. prefix h p \<and> trigger_head h"
  unfolding pending_def prefix_def by (auto; blast)

lemma run_pending:
  "list_all is_tok ts \<Longrightarrow> \<exists>ss p. ts = concat ss @ p \<and> (\<forall>s \<in> set ss. stmt s) \<and> pending (trun 1 ts) p"
proof (induction ts rule: rev_induct)
  case Nil
  have "pending 1 []" by (simp add: pending_def)
  then show ?case by (rule_tac exI [of _ "[]"]) simp
next
  case (snoc t ts)
  then obtain ss p where ih: "ts = concat ss @ p" "\<forall>s \<in> set ss. stmt s" "pending (trun 1 ts) p" by auto
  have t: "is_tok t" using snoc.prems by simp
  have "(stmt (p @ [t]) \<and> trans_tab ! trun 1 ts ! t = 1) \<or> pending (trans_tab ! trun 1 ts ! t) (p @ [t])"
    using pending_state [OF ih(3)] pending_step_low [OF ih(3) t] pending_step_trigger [OF ih(3) t] by blast
  then show ?case
  proof
    assume s: "stmt (p @ [t]) \<and> trans_tab ! trun 1 ts ! t = 1"
    then have "ts @ [t] = concat (ss @ [p @ [t]]) @ []" "\<forall>s \<in> set (ss @ [p @ [t]]). stmt s" "pending (trun 1 (ts @ [t])) []"
      using ih by (auto simp: pending_def)
    then show ?thesis by blast
  next
    assume "pending (trans_tab ! trun 1 ts ! t) (p @ [t])"
    then have "ts @ [t] = concat ss @ (p @ [t])" "\<forall>s \<in> set ss. stmt s" "pending (trun 1 (ts @ [t])) (p @ [t])"
      using ih by auto
    then show ?thesis by blast
  qed
qed

lemma stmt_semi: "stmt s \<Longrightarrow> 0 \<in> set s"
  by (induction rule: stmt.induct) auto

lemma run_head: "trigger_head h \<Longrightarrow> trun 1 h = 5"
proof -
  assume "trigger_head h"
  then obtain e u where h: "h = e @ 4 # u @ [6]" "explain_part e" "set u \<subseteq> {5}" unfolding trigger_head_def by blast
  have r3: "set os \<subseteq> {2} \<Longrightarrow> trun 3 os = 3" for os by (induction os) (auto simp: trans_row)
  have r4: "set u \<subseteq> {5} \<Longrightarrow> trun 4 u = 4" for u by (induction u) (auto simp: trans_row)
  show ?thesis using h r4 [OF h(3)] r3 unfolding explain_part_def by (auto simp: trans_row)
qed

lemma run_body:
  "\<lbrakk>list_all is_tok b; \<not> sublist [0, 7, 0] b\<rbrakk> \<Longrightarrow>
   trun 5 b = (if suffix [0] b then 6 else if suffix [0, 7] b then 7 else 5)"
proof (induction b rule: rev_induct)
  case (snoc t b)
  then have ih: "trun 5 b = (if suffix [0] b then 6 else if suffix [0, 7] b then 7 else 5)"
    unfolding sublist_snoc3 by auto
  have "\<not> (t = 0 \<and> suffix [0, 7] b)" using snoc.prems(2) unfolding sublist_snoc3 by auto
  moreover have "is_tok t" using snoc.prems(1) by simp
  ultimately show ?case using ih suffix_7_6 [of b] unfolding suffix_snoc_simps
    by (auto simp: trans_row elim!: tok_cases)
qed simp

lemma run_stmt: "stmt s \<Longrightarrow> list_all is_tok s \<Longrightarrow> trun 1 s = 1"
proof (induction rule: stmt.induct)
  case (stmt_plain p)
  then obtain ss p' where r: "p = concat ss @ p'" "\<forall>s \<in> set ss. stmt s" "pending (trun 1 p) p'"
    using run_pending [of p] by auto
  have "ss = []" using r(1,2) stmt_plain(1) stmt_semi by (cases ss) auto
  then have "pending (trun 1 p) p" using r by simp
  then have "trun 1 p \<in> {1, 2, 3, 4}"
    using pending_state [of "trun 1 p" p] pending_head [of "trun 1 p" p] stmt_plain(2) by blast
  then show ?case by (auto simp: trans_row)
next
  case (stmt_trigger h b)
  have "trun 5 (b @ [0, 7]) = 7"
    using run_body [of "b @ [0, 7]"] stmt_trigger by (auto simp: suffix_def)
  then show ?case using run_head [OF stmt_trigger(1)] by (simp add: trans_row)
qed

lemma run_complete: "list_all is_tok ts \<Longrightarrow> trun 0 ts = 1 \<longleftrightarrow> complete_tokens ts"
proof (cases "ts = []")
  case False
  assume tok: "list_all is_tok ts"
  have "(\<exists>ss. ts = concat ss \<and> (\<forall>s \<in> set ss. stmt s)) \<longleftrightarrow> trun 1 ts = 1"
  proof
    assume "\<exists>ss. ts = concat ss \<and> (\<forall>s \<in> set ss. stmt s)"
    then obtain ss where ss: "ts = concat ss" "\<forall>s \<in> set ss. stmt s" by blast
    have "\<forall>s \<in> set ss. stmt s \<and> list_all is_tok s" using ss tok by (auto simp: list_all_iff)
    then have "trun 1 (concat ss) = 1"
    proof (induction ss)
      case (Cons s ss)
      then have "trun 1 s = 1" using run_stmt by simp
      then show ?case using Cons by simp
    qed simp
    then show "trun 1 ts = 1" using ss(1) by simp
  next
    assume "trun 1 ts = 1"
    then show "\<exists>ss. ts = concat ss \<and> (\<forall>s \<in> set ss. stmt s)"
      using run_pending [OF tok] by (auto simp: pending_def)
  qed
  then show ?thesis using False run_0_1 [OF False tok] unfolding complete_tokens_def by simp
qed (simp add: complete_tokens_def)

subsection \<open>Scanning\<close>

lemma skip_until_hit: "\<lbrakk>0 \<notin> set b; e \<notin> set b\<rbrakk> \<Longrightarrow> skip_until e (b @ e # y) = Some (e # y)"
  by (induction b) auto

lemma skip_until_end: "\<lbrakk>0 \<notin> set s; e \<notin> set s\<rbrakk> \<Longrightarrow> skip_until e (s @ 0 # r) = Some (0 # r)"
  by (induction s) auto

lemma skip_comment_hit:
  "\<lbrakk>0 \<notin> set b; \<not> sublist [42, 47] b\<rbrakk> \<Longrightarrow> skip_comment (b @ 42 # 47 # y) = Some (42 # 47 # y)"
proof (induction b)
  case (Cons a b)
  then have ih: "skip_comment (b @ 42 # 47 # y) = Some (42 # 47 # y)" "a \<noteq> 0"
    using sublist_Cons_right [of "[42, 47]" a b] by auto
  have "rd (b @ 42 # 47 # y) 0 \<noteq> Some 47" if "a = 42"
    using Cons.prems(2) that by (cases b) (auto simp: sublist_Cons_right)
  then show ?case using ih by (cases "rd (b @ 42 # 47 # y) 0") (auto simp: rd_def)
qed simp

lemma skip_comment_end:
  "\<lbrakk>0 \<notin> set s; \<not> sublist [42, 47] s\<rbrakk> \<Longrightarrow> skip_comment (s @ 0 # r) = Some (0 # r)"
proof (induction s)
  case (Cons a s)
  then have ih: "skip_comment (s @ 0 # r) = Some (0 # r)" "a \<noteq> 0"
    using sublist_Cons_right [of "[42, 47]" a s] by auto
  have "rd (s @ 0 # r) 0 \<noteq> Some 47" if "a = 42"
    using Cons.prems(2) that by (cases s) (auto simp: sublist_Cons_right)
  then show ?case using ih by (cases "rd (s @ 0 # r) 0") (auto simp: rd_def)
qed simp

lemma comment_split:
  "sublist [42, 47] s \<Longrightarrow> \<exists>b y. s = b @ 42 # 47 # (y :: u8 list) \<and> \<not> sublist [42, 47] b"
proof (induction s)
  case (Cons a s)
  show ?case
  proof (cases "\<exists>y. a # s = 42 # 47 # y")
    case True
    then obtain y where "a # s = [] @ 42 # 47 # y" by auto
    then show ?thesis by (metis sublist_Nil_right list.distinct(1))
  next
    case False
    then have "sublist [42, 47] s" using Cons.prems by (auto simp: sublist_Cons_right prefix_def)
    then obtain b y where b: "s = b @ 42 # 47 # y" "\<not> sublist [42, 47] b" using Cons.IH by blast
    have "\<not> sublist [42, 47] (a # b)"
      using b False by (cases b) (auto simp: sublist_Cons_right)
    moreover have "a # s = (a # b) @ 42 # 47 # y" using b(1) by simp
    ultimately show ?thesis by blast
  qed
qed simp

lemma IdChar_0: "\<not> IdChar 0"
  by (simp add: IdChar_def sqlite3CtypeMap_def)

lemma id_length_ok: "id_length (s @ 0 # r) = Some (length (takeWhile IdChar s))"
  by (induction s) (auto simp: IdChar_0)

lemma strnicmp_word:
  "\<lbrakk>0 \<notin> set x; length x = length w\<rbrakk> \<Longrightarrow>
   \<exists>d. strnicmp_loop (length w) (x @ y) (w @ v) = Some d \<and> (d = 0 \<longleftrightarrow> lower x = lower w)"
proof (induction x arbitrary: w)
  case (Cons a x)
  then obtain b w' where w: "w = b # w'" by (cases w) auto
  have "\<exists>d. strnicmp_loop (length w') (x @ y) (w' @ v) = Some d \<and> (d = 0 \<longleftrightarrow> lower x = lower w')"
    using Cons w by simp
  then show ?case using Cons.prems w by (auto dest: word_uint_eqI)
qed simp

lemma keyword_is_ok:
  assumes "0 \<notin> set x" "lower w = w"
  shows "keyword_is (x @ y) (length x) w = Some (lower x = w)"
proof (cases "length x = length w")
  case True
  then obtain d where "strnicmp_loop (length w) (x @ y) (w @ [0]) = Some d" "d = 0 \<longleftrightarrow> lower x = lower w"
    using strnicmp_word [OF assms(1) True, of y "[0]"] by auto
  then show ?thesis using True assms(2) by (simp add: keyword_is_def sqlite3_strnicmp_def)
next
  case False
  then have "lower x \<noteq> w" by auto
  then show ?thesis using False by (simp add: keyword_is_def)
qed

lemma lower_words:
  "lower w_create = w_create" "lower w_trigger = w_trigger" "lower w_temp = w_temp"
  "lower w_temporary = w_temporary" "lower w_end = w_end" "lower w_explain = w_explain"
  by code_simp+

lemma lower_letter:
  "sqlite3Tolower c = 99 \<longleftrightarrow> c = 99 \<or> c = 67" "sqlite3Tolower c = 116 \<longleftrightarrow> c = 116 \<or> c = 84"
  "sqlite3Tolower c = 101 \<longleftrightarrow> c = 101 \<or> c = 69"
  unfolding lower_table by (auto simp: word_le_nat_alt word_unat_eq_iff unat_word_ariths)

lemma word_token_ok:
  assumes "0 \<notin> set (c # x)"
  shows "word_token (c # x @ y) (Suc (length x)) = Some (word_class (c # x))"
proof -
  have k: "keyword_is (c # x @ y) (Suc (length x)) w = Some (lower (c # x) = w)" if "lower w = w" for w
    using keyword_is_ok [OF assms that, of y] by simp
  note ks = k [OF lower_words(1)] k [OF lower_words(2)] k [OF lower_words(3)] k [OF lower_words(4)]
    k [OF lower_words(5)] k [OF lower_words(6)]
  note wd = w_create_def w_trigger_def w_temp_def w_temporary_def w_end_def w_explain_def
  have eq: "word_token (c # x @ y) (Suc (length x)) =
     (if sqlite3Tolower c = 99 then Some (if lower (c # x) = w_create then 4 else 2)
      else if sqlite3Tolower c = 116 then
        Some (if lower (c # x) = w_trigger then 6 else if lower (c # x) = w_temp then 5
              else if lower (c # x) = w_temporary then 5 else 2)
      else if sqlite3Tolower c = 101 then
        Some (if lower (c # x) = w_end then 7 else if lower (c # x) = w_explain then 3 else 2)
      else Some 2)"
    unfolding word_token_def rd_Cons_0 bind.simps ks lower_letter by (simp only: if_distrib [of Some] split: if_split)
  consider "sqlite3Tolower c = 99" | "sqlite3Tolower c = 116" | "sqlite3Tolower c = 101"
    | "sqlite3Tolower c \<notin> {99, 116, 101}" by blast
  then show ?thesis unfolding eq word_class_def by cases (simp_all add: wd)
qed

subsection \<open>Inversion of the lexer\<close>

lemma lex_char_classes:
  "\<not> IdChar 59" "\<not> IdChar 32" "\<not> IdChar 13" "\<not> IdChar 9" "\<not> IdChar 10" "\<not> IdChar 12" "\<not> IdChar 47" "\<not> IdChar 45"
  "\<not> IdChar 91" "\<not> IdChar 96" "\<not> IdChar 34" "\<not> IdChar 39"
  by (simp_all add: IdChar_def sqlite3CtypeMap_def)

inductive_cases lexes_ConsE: "lexes (c # s) ts"
inductive_simps lexes_Nil: "lexes [] ts"

lemma lexes_semi: "lexes (59 # s) ts \<longleftrightarrow> (\<exists>ts'. ts = 0 # ts' \<and> lexes s ts')"
  by (auto simp: lex_char_classes quote_pair_def elim!: lexes_ConsE intro: lexes.intros)

lemma lexes_ws: "c \<in> {32, 13, 9, 10, 12} \<Longrightarrow> lexes (c # s) ts \<longleftrightarrow> lexes s ts"
  by (auto simp: lex_char_classes quote_pair_def elim!: lexes_ConsE intro: lexes.intros)

lemma lexes_word:
  "IdChar c \<Longrightarrow> lexes (c # s) ts \<longleftrightarrow>
     (\<exists>ts'. ts = word_class (c # takeWhile IdChar s) # ts' \<and> lexes (dropWhile IdChar s) ts')"
  by (auto simp: lex_char_classes quote_pair_def elim!: lexes_ConsE intro: lexes.intros)

lemma lexes_op:
  "\<lbrakk>\<not> IdChar c; c \<notin> {59, 32, 13, 9, 10, 12, 91, 96, 34, 39}; \<not> (c = 47 \<and> prefix [42] s);
     \<not> (c = 45 \<and> prefix [45] s)\<rbrakk> \<Longrightarrow> lexes (c # s) ts \<longleftrightarrow> (\<exists>ts'. ts = 2 # ts' \<and> lexes s ts')"
  by (auto simp: quote_pair_def elim!: lexes_ConsE intro: lexes.intros)

lemma lexes_quote:
  assumes "quote_pair q e"
  shows "e \<notin> set b \<Longrightarrow> lexes (q # b @ e # s) ts \<longleftrightarrow> (\<exists>ts'. ts = 2 # ts' \<and> lexes s ts')"
    and "e \<notin> set b \<Longrightarrow> \<not> lexes (q # b) ts"
proof -
  have inv: "\<exists>b s ts'. z = b @ e # s \<and> e \<notin> set b \<and> ts = 2 # ts' \<and> lexes s ts'" if "lexes (q # z) ts" for z
    using that assms by (auto simp: lex_char_classes quote_pair_def elim!: lexes_ConsE; blast)
  show "lexes (q # b @ e # s) ts \<longleftrightarrow> (\<exists>ts'. ts = 2 # ts' \<and> lexes s ts')" if b: "e \<notin> set b"
  proof
    assume "lexes (q # b @ e # s) ts"
    then obtain b' s' ts' where r: "b @ e # s = b' @ e # s'" "e \<notin> set b'" "ts = 2 # ts'" "lexes s' ts'"
      using inv by blast
    then show "\<exists>ts'. ts = 2 # ts' \<and> lexes s ts'" using split_first [OF b r(2,1)] by blast
  next
    assume "\<exists>ts'. ts = 2 # ts' \<and> lexes s ts'"
    then show "lexes (q # b @ e # s) ts" using lex_quote [OF assms b] by blast
  qed
  show "\<not> lexes (q # b) ts" if "e \<notin> set b" using inv [of b] that by auto
qed

lemma comment_first:
  "\<lbrakk>\<not> sublist [42, 47] b; \<not> sublist [42, 47] b'; b @ 42 # 47 # s = b' @ 42 # 47 # (s' :: u8 list)\<rbrakk> \<Longrightarrow> s = s'"
proof (induction b arbitrary: b')
  case Nil
  show ?case
  proof (cases b')
    case (Cons x b'')
    then show ?thesis using Nil by (cases b'') (auto simp: sublist_Cons_right)
  qed (use Nil in simp)
next
  case (Cons x b)
  show ?case
  proof (cases b')
    case Nil
    then show ?thesis using Cons by (cases b) (auto simp: sublist_Cons_right)
  next
    case (Cons x' b'')
    then show ?thesis using Cons.IH [of b''] Cons.prems by (auto simp: sublist_Cons_right)
  qed
qed

lemma lexes_comment:
  "\<not> sublist [42, 47] b \<Longrightarrow> lexes (47 # 42 # b @ 42 # 47 # s) ts \<longleftrightarrow> lexes s ts"
  "\<not> sublist [42, 47] b \<Longrightarrow> \<not> lexes (47 # 42 # b) ts"
proof -
  have inv: "\<exists>b s. z = b @ 42 # 47 # s \<and> \<not> sublist [42, 47] b \<and> lexes s ts" if "lexes (47 # 42 # z) ts" for z
    using that by (rule lexes_ConsE) (auto simp: lex_char_classes quote_pair_def)
  show "lexes (47 # 42 # b @ 42 # 47 # s) ts \<longleftrightarrow> lexes s ts" if b: "\<not> sublist [42, 47] b"
  proof
    assume "lexes (47 # 42 # b @ 42 # 47 # s) ts"
    then obtain b' s' where r: "b @ 42 # 47 # s = b' @ 42 # 47 # s'" "\<not> sublist [42, 47] b'" "lexes s' ts"
      using inv by blast
    then show "lexes s ts" using comment_first [OF b r(2,1)] by simp
  qed (use lex_comment b in blast)
  show "\<not> lexes (47 # 42 # b) ts" if b: "\<not> sublist [42, 47] b"
  proof
    assume "lexes (47 # 42 # b) ts"
    then obtain b' s' where "b = b' @ [42, 47] @ s'" using inv by fastforce
    then show False using b unfolding sublist_def by blast
  qed
qed

lemma lexes_line:
  "10 \<notin> set b \<Longrightarrow> lexes (45 # 45 # b @ 10 # s) ts \<longleftrightarrow> lexes s ts"
  "10 \<notin> set b \<Longrightarrow> lexes (45 # 45 # b) ts \<longleftrightarrow> ts = []"
proof -
  have inv: "(\<exists>b s. z = b @ 10 # s \<and> 10 \<notin> set b \<and> lexes s ts) \<or> 10 \<notin> set z \<and> ts = []"
    if "lexes (45 # 45 # z) ts" for z
    using that by (rule lexes_ConsE) (auto simp: lex_char_classes quote_pair_def)
  show "lexes (45 # 45 # b @ 10 # s) ts \<longleftrightarrow> lexes s ts" if b: "10 \<notin> set b"
  proof
    assume "lexes (45 # 45 # b @ 10 # s) ts"
    from inv [OF this] obtain b' s' where r: "b @ 10 # s = b' @ 10 # s'" "10 \<notin> set b'" "lexes s' ts" by auto
    then show "lexes s ts" using split_first [OF b r(2,1)] by blast
  qed (use lex_line b in blast)
  show "lexes (45 # 45 # b) ts \<longleftrightarrow> ts = []" if b: "10 \<notin> set b"
    using inv [of b] lex_line_end [OF b] b by auto
qed

lemma lexes_toks: "lexes s ts \<Longrightarrow> list_all is_tok ts"
  by (induction rule: lexes.induct) (auto simp: is_tok_def word_class_def)

subsection \<open>The loop\<close>

definition accepts :: "nat \<Rightarrow> u8 list \<Rightarrow> bool" where
  "accepts q s \<longleftrightarrow> (\<exists>ts. lexes s ts \<and> trun q ts = 1)"

text \<open>One pass of the loop on a terminated text: either the result is decided, or a token and the rest of the text.\<close>

definition token_good :: "nat \<Rightarrow> u8 \<Rightarrow> u8 list \<Rightarrow> u8 list \<Rightarrow> bool" where
  "token_good q c s r \<longleftrightarrow> (\<exists>b. complete_token q (c # s @ 0 # r) = Some (Inl b) \<and> accepts q (c # s) = b)
    \<or> (\<exists>t y. complete_token q (c # s @ 0 # r) = Some (Inr (t, y @ 0 # r)) \<and> t < 8 \<and> length y < length (c # s)
        \<and> set y \<subseteq> set s \<and> accepts q (c # s) = accepts (trans_tab ! q ! t) y)"

lemma token_stop:
  "\<lbrakk>complete_token q (c # s @ 0 # r) = Some (Inl b); accepts q (c # s) = b\<rbrakk> \<Longrightarrow> token_good q c s r"
  unfolding token_good_def by blast

lemma token_more:
  "\<lbrakk>complete_token q (c # s @ 0 # r) = Some (Inr (t, y @ 0 # r)); t < 8; length y < length (c # s);
     set y \<subseteq> set s; accepts q (c # s) = accepts (trans_tab ! q ! t) y\<rbrakk> \<Longrightarrow> token_good q c s r"
  unfolding token_good_def by blast

lemma trans_ws: "q < 8 \<Longrightarrow> trans_tab ! q ! 1 = q"
  by (auto simp: trans_tab_def less_Suc_eq numeral_eq_Suc)

lemma token_other:
  assumes "complete_token q (c # s @ 0 # r) = Some (Inr (2, s @ 0 # r))"
    "\<And>ts. lexes (c # s) ts \<longleftrightarrow> (\<exists>ts'. ts = 2 # ts' \<and> lexes s ts')"
  shows "token_good q c s r"
  by (rule token_more [OF assms(1)]) (auto simp: accepts_def assms(2))

lemma token_slash:
  assumes "0 \<notin> set (c # s)" "q < 8" and slash: "c = 47"
  shows "token_good q c s r"
proof -
  have ws: "trans_tab ! q ! 1 = q" by (rule trans_ws [OF assms(2)])
  show ?thesis
  proof (cases "prefix [42] s")
    case False
    then have "rd (s @ 0 # r) 0 \<noteq> Some 42" by (cases s) auto
    moreover obtain d where "rd (s @ 0 # r) 0 = Some d" by (cases s) auto
    ultimately have "complete_token q (c # s @ 0 # r) = Some (Inr (2, s @ 0 # r))"
      using slash by (simp add: complete_token_def)
    then show ?thesis using False slash by (intro token_other lexes_op) (auto simp: lex_char_classes)
  next
    case True
    then obtain z where s: "s = 42 # z" by (auto simp: prefix_def)
    have run: "complete_token q (c # s @ 0 # r) =
        Option.bind (skip_comment (z @ 0 # r)) (\<lambda>z. Some (if hd z = 0 then Inl False else Inr (1, drop 2 z)))"
      using slash s by (simp add: complete_token_def)
    show ?thesis
    proof (cases "sublist [42, 47] z")
      case True
      then obtain b y where b: "z = b @ 42 # 47 # y" "\<not> sublist [42, 47] b" using comment_split by blast
      have "complete_token q (c # s @ 0 # r) = Some (Inr (1, y @ 0 # r))"
        using run skip_comment_hit [of b "y @ 0 # r"] b assms(1) s by simp
      then show ?thesis using ws lexes_comment(1) [OF b(2), of y] slash s b(1)
        by (intro token_more [where y = y]) (auto simp: accepts_def)
    next
      case False
      then have "complete_token q (c # s @ 0 # r) = Some (Inl False)"
        using run skip_comment_end [of z r] assms(1) s by simp
      then show ?thesis using lexes_comment(2) [OF False] slash s by (intro token_stop) (auto simp: accepts_def)
    qed
  qed
qed

lemma token_minus:
  assumes "0 \<notin> set (c # s)" "q < 8" and minus: "c = 45"
  shows "token_good q c s r"
proof -
  have ws: "trans_tab ! q ! 1 = q" by (rule trans_ws [OF assms(2)])
  show ?thesis
  proof (cases "prefix [45] s")
    case False
    then have "rd (s @ 0 # r) 0 \<noteq> Some 45" by (cases s) auto
    moreover obtain d where "rd (s @ 0 # r) 0 = Some d" by (cases s) auto
    ultimately have "complete_token q (c # s @ 0 # r) = Some (Inr (2, s @ 0 # r))"
      using minus by (simp add: complete_token_def)
    then show ?thesis using False minus by (intro token_other lexes_op) (auto simp: lex_char_classes)
  next
    case True
    then obtain z where s: "s = 45 # z" by (auto simp: prefix_def)
    have run: "complete_token q (c # s @ 0 # r) =
        Option.bind (skip_until 10 (z @ 0 # r)) (\<lambda>z. Some (if hd z = 0 then Inl (q = 1) else Inr (1, drop 1 z)))"
      using minus s by (simp add: complete_token_def)
    show ?thesis
    proof (cases "10 \<in> set z")
      case True
      then obtain b y where b: "z = b @ 10 # y" "10 \<notin> set b" using split_list_first by metis
      have "complete_token q (c # s @ 0 # r) = Some (Inr (1, y @ 0 # r))"
        using run skip_until_hit [of b 10 "y @ 0 # r"] b assms(1) s by simp
      then show ?thesis using ws lexes_line(1) [OF b(2), of y] minus s b(1)
        by (intro token_more [where y = y]) (auto simp: accepts_def)
    next
      case False
      then have "complete_token q (c # s @ 0 # r) = Some (Inl (q = 1))"
        using run skip_until_end [of z 10 r] assms(1) s by simp
      then show ?thesis using lexes_line(2) [OF False] minus s by (intro token_stop) (auto simp: accepts_def)
    qed
  qed
qed

lemma token_quote:
  assumes "0 \<notin> set (c # s)" "q < 8" and quote: "quote_pair c e"
  shows "token_good q c s r"
proof -
  have e: "e \<noteq> 0" "c = 91 \<and> e = 93 \<or> c \<in> {96, 34, 39} \<and> e = c" using quote unfolding quote_pair_def by auto
  have run: "complete_token q (c # s @ 0 # r) =
      Option.bind (skip_until e (s @ 0 # r)) (\<lambda>z. Some (if hd z = 0 then Inl False else Inr (2, drop 1 z)))"
    using e(2) by (auto simp: complete_token_def)
  show ?thesis
  proof (cases "e \<in> set s")
    case True
    then obtain b y where b: "s = b @ e # y" "e \<notin> set b" using split_list_first by metis
    have "complete_token q (c # s @ 0 # r) = Some (Inr (2, y @ 0 # r))"
      using run skip_until_hit [of b e "y @ 0 # r"] b assms(1) e(1) by simp
    then show ?thesis using lexes_quote(1) [OF quote b(2), of y] b(1)
      by (intro token_more [where y = y]) (auto simp: accepts_def)
  next
    case False
    then have "complete_token q (c # s @ 0 # r) = Some (Inl False)"
      using run skip_until_end [of s e r] assms(1) by simp
    then show ?thesis using lexes_quote(2) [OF quote False] by (intro token_stop) (auto simp: accepts_def)
  qed
qed

lemma token_word:
  assumes "0 \<notin> set (c # s)" "q < 8" and id: "IdChar c"
  shows "token_good q c s r"
proof -
  let ?w = "takeWhile IdChar s" and ?y = "dropWhile IdChar s"
  have s: "s = ?w @ ?y" by simp
  have "c \<notin> {59, 32, 13, 9, 10, 12, 47, 45, 91, 96, 34, 39}" using id lex_char_classes by auto
  moreover have "word_token (c # s @ 0 # r) (Suc (length ?w)) = Some (word_class (c # ?w))"
  proof -
    have "0 \<notin> set (c # ?w)" using assms(1) by (auto dest: set_takeWhileD)
    then have "word_token (c # ?w @ ?y @ 0 # r) (Suc (length ?w)) = Some (word_class (c # ?w))"
      by (rule word_token_ok)
    moreover have "c # ?w @ ?y @ 0 # r = c # s @ 0 # r" using s by (metis append.assoc)
    ultimately show ?thesis by (simp only:)
  qed
  moreover have "drop (length ?w) (s @ 0 # r) = ?y @ 0 # r"
    by (metis append.assoc append_eq_conv_conj s)
  ultimately have "complete_token q (c # s @ 0 # r) = Some (Inr (word_class (c # ?w), ?y @ 0 # r))"
    using id by (simp add: complete_token_def id_length_ok)
  moreover have "word_class (c # ?w) < 8" by (simp add: word_class_def)
  moreover have "length ?y < length (c # s)" using length_dropWhile_le [of IdChar s] by simp
  moreover have "set ?y \<subseteq> set s" by (auto dest: set_dropWhileD)
  moreover have "accepts q (c # s) = accepts (trans_tab ! q ! word_class (c # ?w)) ?y"
    unfolding accepts_def lexes_word [OF id] by auto
  ultimately show ?thesis by (rule token_more)
qed

lemma token_ok:
  assumes "0 \<notin> set (c # s)" "q < 8"
  shows "token_good q c s r"
proof -
  consider (semi) "c = 59" | (space) "c \<in> {32, 13, 9, 10, 12}" | (slash) "c = 47" | (minus) "c = 45"
    | (quote) e where "quote_pair c e" | (id) "IdChar c"
    | (op) "\<not> IdChar c" "c \<notin> {59, 32, 13, 9, 10, 12, 91, 96, 34, 39, 47, 45}"
    unfolding quote_pair_def by blast
  then show ?thesis
  proof cases
    case semi
    then show ?thesis
      by (intro token_more [where t = 0 and y = s]) (auto simp: complete_token_def accepts_def lexes_semi)
  next
    case space
    then have "complete_token q (c # s @ 0 # r) = Some (Inr (1, s @ 0 # r))" by (auto simp: complete_token_def)
    then show ?thesis using trans_ws [OF assms(2)] lexes_ws [OF space]
      by (intro token_more [where y = s]) (auto simp: accepts_def)
  next
    case op
    then have "complete_token q (c # s @ 0 # r) = Some (Inr (2, s @ 0 # r))" by (simp add: complete_token_def)
    then show ?thesis using op by (intro token_other lexes_op) auto
  qed (use assms token_slash token_minus token_quote token_word in blast)+
qed

lemma trans_bound: "\<lbrakk>q < 8; t < 8\<rbrakk> \<Longrightarrow> trans_tab ! q ! t < 8"
  by (auto simp: trans_tab_def less_Suc_eq numeral_eq_Suc)

lemma loop_ok: "\<lbrakk>0 \<notin> set s; q < 8\<rbrakk> \<Longrightarrow> complete_loop q (s @ 0 # r) = Some (accepts q s)"
proof (induction s arbitrary: q rule: length_induct)
  case (1 s)
  show ?case
  proof (cases s)
    case Nil
    then show ?thesis by (simp add: complete_loop.simps accepts_def lexes_Nil)
  next
    case (Cons c z)
    have c: "c \<noteq> 0" using 1(2) Cons by simp
    have "token_good q c z r" using token_ok [of c z q r] 1(2,3) Cons by simp
    then consider
        (stop) b where "complete_token q (c # z @ 0 # r) = Some (Inl b)" "accepts q (c # z) = b"
      | (more) t y where "complete_token q (c # z @ 0 # r) = Some (Inr (t, y @ 0 # r))" "t < 8" "length y < length s"
          "set y \<subseteq> set z" "accepts q (c # z) = accepts (trans_tab ! q ! t) y"
      unfolding token_good_def using Cons by auto
    then show ?thesis
    proof cases
      case stop
      then show ?thesis using c Cons by (simp add: complete_loop.simps)
    next
      case more
      have "0 \<notin> set y" using more(4) 1(2) Cons by auto
      then have "complete_loop (trans_tab ! q ! t) (y @ 0 # r) = Some (accepts (trans_tab ! q ! t) y)"
        using 1(1) more(3) trans_bound [OF 1(3) more(2)] by blast
      then show ?thesis using more c Cons by (simp add: complete_loop.simps [of q])
    qed
  qed
qed

subsection \<open>Property\<close>

text \<open>C8: a terminated text is recognised as complete exactly when it consists of tokens, with no unterminated
  comment, string or quoted name, that form a non-empty sequence of statements, where a trigger definition
  extends to the first semicolon, END, semicolon and any other statement to its first semicolon. The
  scan ends on every text and reads nothing behind the terminator.\<close>

theorem complete_spec:
  assumes "0 \<notin> set s"
  shows "sqlite3_complete (s @ 0 # r) = Some (\<exists>ts. lexes s ts \<and> complete_tokens ts)"
proof -
  have "accepts 0 s = (\<exists>ts. lexes s ts \<and> complete_tokens ts)"
    unfolding accepts_def using run_complete lexes_toks by blast
  then show ?thesis using loop_ok [OF assms, of 0 r] by (simp add: sqlite3_complete_def)
qed

theorem complete_spec_witness:
  "sqlite3_complete ([97, 39, 59, 39] @ 0 # []) = Some (\<exists>ts. lexes [97, 39, 59, 39] ts \<and> complete_tokens ts)
   \<and> sqlite3_complete ([97, 59] @ 0 # []) = Some (\<exists>ts. lexes [97, 59] ts \<and> complete_tokens ts)
   \<and> sqlite3_complete ([97, 39, 59, 39] @ 0 # []) = Some False \<and> sqlite3_complete ([97, 59] @ 0 # []) = Some True"
proof (intro conjI)
  show "sqlite3_complete ([97, 39, 59, 39] @ 0 # []) = Some False" by code_simp
  show "sqlite3_complete ([97, 59] @ 0 # []) = Some True" by code_simp
qed (rule complete_spec; simp)+

end
