(* ===== verification/Utf.thy ===== *)
theory Utf
  imports Sqlite_Prelude
begin

text \<open>
  \<^verbatim>\<open>utf.c\<close>: reading and writing of single characters in UTF-8 and UTF-16 and the loops of the translation
  between the encodings. The bytes from the input pointer to \<open>zTerm\<close> are a list; an output buffer is
  the list of bytes written so far together with the size of the allocation, and a write behind
  that size makes the result \<open>None\<close>.
\<close>

unbundle bit_operations_syntax

subsection \<open>Single characters\<close>

definition sqlite3Utf8Trans1 :: "u8 list" where
  "sqlite3Utf8Trans1 =
    [0x00, 0x01, 0x02, 0x03, 0x04, 0x05, 0x06, 0x07,
     0x08, 0x09, 0x0a, 0x0b, 0x0c, 0x0d, 0x0e, 0x0f,
     0x10, 0x11, 0x12, 0x13, 0x14, 0x15, 0x16, 0x17,
     0x18, 0x19, 0x1a, 0x1b, 0x1c, 0x1d, 0x1e, 0x1f,
     0x00, 0x01, 0x02, 0x03, 0x04, 0x05, 0x06, 0x07,
     0x08, 0x09, 0x0a, 0x0b, 0x0c, 0x0d, 0x0e, 0x0f,
     0x00, 0x01, 0x02, 0x03, 0x04, 0x05, 0x06, 0x07,
     0x00, 0x01, 0x02, 0x03, 0x00, 0x01, 0x00, 0x00]"

definition WRITE_UTF8 :: "u32 \<Rightarrow> u8 list" where
  "WRITE_UTF8 c =
     (if c < 0x00080 then [ucast (c AND 0xFF)]
      else if c < 0x00800 then
        [0xC0 + ucast (drop_bit 6 c AND 0x1F), 0x80 + ucast (c AND 0x3F)]
      else if c < 0x10000 then
        [0xE0 + ucast (drop_bit 12 c AND 0x0F), 0x80 + ucast (drop_bit 6 c AND 0x3F), 0x80 + ucast (c AND 0x3F)]
      else
        [0xF0 + ucast (drop_bit 18 c AND 0x07), 0x80 + ucast (drop_bit 12 c AND 0x3F),
         0x80 + ucast (drop_bit 6 c AND 0x3F), 0x80 + ucast (c AND 0x3F)])"

definition WRITE_UTF16LE :: "u32 \<Rightarrow> u8 list" where
  "WRITE_UTF16LE c =
     (if c \<le> 0xFFFF then [ucast (c AND 0x00FF), ucast (drop_bit 8 c AND 0x00FF)]
      else
        [ucast ((drop_bit 10 c AND 0x003F) + (drop_bit 10 (c - 0x10000) AND 0x00C0)),
         ucast (0x00D8 + (drop_bit 18 (c - 0x10000) AND 0x03)),
         ucast (c AND 0x00FF), ucast (0x00DC + (drop_bit 8 c AND 0x03))])"

definition WRITE_UTF16BE :: "u32 \<Rightarrow> u8 list" where
  "WRITE_UTF16BE c =
     (if c \<le> 0xFFFF then [ucast (drop_bit 8 c AND 0x00FF), ucast (c AND 0x00FF)]
      else
        [ucast (0x00D8 + (drop_bit 18 (c - 0x10000) AND 0x03)),
         ucast ((drop_bit 10 c AND 0x003F) + (drop_bit 10 (c - 0x10000) AND 0x00C0)),
         ucast (0x00DC + (drop_bit 8 c AND 0x03)), ucast (c AND 0x00FF)])"

text \<open>The bytes stored and their number.\<close>

definition sqlite3AppendOneUtf8Character :: "u8 list \<Rightarrow> u32 \<Rightarrow> (nat \<times> u8 list) option" where
  "sqlite3AppendOneUtf8Character zOut v =
     (if v < 0x00080 then
        map_option (\<lambda>z. (1, z)) (mem_put zOut 0 [ucast (v AND 0xff)])
      else if v < 0x00800 then
        map_option (\<lambda>z. (2, z)) (mem_put zOut 0 [0xc0 + ucast (drop_bit 6 v AND 0x1f), 0x80 + ucast (v AND 0x3f)])
      else if v < 0x10000 then
        map_option (\<lambda>z. (3, z)) (mem_put zOut 0 [0xe0 + ucast (drop_bit 12 v AND 0x0f),
          0x80 + ucast (drop_bit 6 v AND 0x3f), 0x80 + ucast (v AND 0x3f)])
      else
        map_option (\<lambda>z. (4, z)) (mem_put zOut 0 [0xf0 + ucast (drop_bit 18 v AND 0x07),
          0x80 + ucast (drop_bit 12 v AND 0x3f), 0x80 + ucast (drop_bit 6 v AND 0x3f), 0x80 + ucast (v AND 0x3f)]))"

text \<open>The end of a multi-byte character: values that must not be encoded in this way become U+FFFD.\<close>

definition utf8_check :: "u32 \<Rightarrow> u32" where
  "utf8_check c = (if c < 0x80 \<or> c AND 0xFFFFF800 = 0xD800 \<or> c AND 0xFFFFFFFE = 0xFFFE then 0xFFFD else c)"

fun utf8_cont :: "u32 \<Rightarrow> u8 list \<Rightarrow> u32 \<times> u8 list" where
  "utf8_cont c [] = (c, [])"
| "utf8_cont c (b # z) =
     (if b AND 0xc0 = 0x80 then utf8_cont (push_bit 6 c + (0x3f AND ucast b)) z else (c, b # z))"

fun READ_UTF8 :: "u8 list \<Rightarrow> (u32 \<times> u8 list) option" where
  "READ_UTF8 [] = None"
| "READ_UTF8 (b # z) =
     Some (if b \<ge> 0xc0
           then let (c, y) = utf8_cont (ucast (sqlite3Utf8Trans1 ! unat (b - 0xc0))) z in (utf8_check c, y)
           else (ucast b, z))"

text \<open>The same on a terminated text; running off its end is an error.\<close>

fun utf8_cont0 :: "u32 \<Rightarrow> u8 list \<Rightarrow> (u32 \<times> u8 list) option" where
  "utf8_cont0 c [] = None"
| "utf8_cont0 c (b # z) =
     (if b AND 0xc0 = 0x80 then utf8_cont0 (push_bit 6 c + (0x3f AND ucast b)) z else Some (c, b # z))"

fun sqlite3Utf8Read :: "u8 list \<Rightarrow> (u32 \<times> u8 list) option" where
  "sqlite3Utf8Read [] = None"
| "sqlite3Utf8Read (b # z) =
     (if b \<ge> 0xc0
      then map_option (\<lambda>(c, y). (utf8_check c, y)) (utf8_cont0 (ucast (sqlite3Utf8Trans1 ! unat (b - 0xc0))) z)
      else Some (ucast b, z))"

fun utf8_lim_loop :: "u8 list \<Rightarrow> nat \<Rightarrow> nat \<Rightarrow> u32 \<Rightarrow> (nat \<times> u32) option" where
  "utf8_lim_loop z i 0 c = Some (i, c)"
| "utf8_lim_loop z i (Suc m) c = do {
     b \<leftarrow> rd z i;
     if b AND 0xc0 = 0x80 then utf8_lim_loop z (Suc i) m (push_bit 6 c + (0x3f AND ucast b)) else Some (i, c)
   }"

definition sqlite3Utf8ReadLimited :: "u8 list \<Rightarrow> nat \<Rightarrow> (nat \<times> u32) option" where
  "sqlite3Utf8ReadLimited z n = do {
     b \<leftarrow> rd z 0;
     if b \<ge> 0xc0
     then utf8_lim_loop z 1 ((if n > 4 then 4 else n) - 1) (ucast (sqlite3Utf8Trans1 ! unat (b - 0xc0)))
     else Some (1, ucast b)
   }"

subsection \<open>Whole texts\<close>

definition put_out :: "nat \<Rightarrow> u8 list \<Rightarrow> u8 list \<Rightarrow> u8 list option" where
  "put_out len z bs = (if length z + length bs \<le> len then Some (z @ bs) else None)"

lemma utf8_cont_length: "length (snd (utf8_cont c z)) \<le> length z"
  by (induction c z rule: utf8_cont.induct) auto

lemma READ_UTF8_shorter: "READ_UTF8 z = Some (c, y) \<Longrightarrow> length y < length z"
proof (cases z)
  case (Cons b x)
  assume "READ_UTF8 z = Some (c, y)"
  then have "y = x \<or> y = snd (utf8_cont (ucast (sqlite3Utf8Trans1 ! unat (b - 0xc0))) x)"
    using Cons by (auto split: if_splits prod.splits)
  then show ?thesis using Cons utf8_cont_length [of _ x] by (auto simp: le_imp_less_Suc)
qed simp

function utf8_to_16_loop :: "(u32 \<Rightarrow> u8 list) \<Rightarrow> nat \<Rightarrow> u8 list \<Rightarrow> u8 list \<Rightarrow> u8 list option" where
  "utf8_to_16_loop write len zIn z =
     (case READ_UTF8 zIn of
        None \<Rightarrow> Some z
      | Some (c, zIn') \<Rightarrow>
          (case put_out len z (write c) of None \<Rightarrow> None | Some z' \<Rightarrow> utf8_to_16_loop write len zIn' z'))"
  by pat_completeness auto

termination
  by (relation "measure (\<lambda>(write, len, zIn, z). length zIn)") (auto dest: READ_UTF8_shorter)

declare utf8_to_16_loop.simps [simp del]

definition utf16_unit :: "bool \<Rightarrow> u8 \<Rightarrow> u8 \<Rightarrow> u32" where
  "utf16_unit le b0 b1 = (if le then ucast b0 + push_bit 8 (ucast b1) else push_bit 8 (ucast b0) + ucast b1)"

definition utf16_pair :: "u32 \<Rightarrow> u32 \<Rightarrow> u32" where
  "utf16_pair c c2 = (c2 AND 0x03FF) + push_bit 10 (c AND 0x003F) + push_bit 10 ((c AND 0x03C0) + 0x0040)"

fun utf16_to_8_loop :: "bool \<Rightarrow> nat \<Rightarrow> u8 list \<Rightarrow> u8 list \<Rightarrow> u8 list option" where
  "utf16_to_8_loop le len [] z = Some z"
| "utf16_to_8_loop le len [b0] z = None"
| "utf16_to_8_loop le len (b0 # b1 # zIn) z =
     (let c = utf16_unit le b0 b1 in
      if 0xd800 \<le> c \<and> c < 0xe000 then
        (case zIn of
           [] \<Rightarrow> put_out len z (WRITE_UTF8 c)
         | [b2] \<Rightarrow> None
         | b2 # b3 # zIn' \<Rightarrow>
             (case put_out len z (WRITE_UTF8 (utf16_pair c (utf16_unit le b2 b3))) of
                None \<Rightarrow> None
              | Some z' \<Rightarrow> utf16_to_8_loop le len zIn' z'))
      else
        (case put_out len z (WRITE_UTF8 c) of None \<Rightarrow> None | Some z' \<Rightarrow> utf16_to_8_loop le len zIn z'))"

text \<open>The exchange of the bytes of each unit, in place.\<close>

fun utf16_swap :: "u8 list \<Rightarrow> u8 list" where
  "utf16_swap (a # b # z) = b # a # utf16_swap z"
| "utf16_swap z = z"

text \<open>Counting characters. The limit is the number of bytes to \<open>zTerm\<close>, \<open>None\<close> when there is no limit.\<close>

fun skip_cont :: "u8 list \<Rightarrow> u8 list option" where
  "skip_cont [] = None"
| "skip_cont (b # z) = (if b AND 0xc0 = 0x80 then skip_cont z else Some (b # z))"

fun SQLITE_SKIP_UTF8 :: "u8 list \<Rightarrow> u8 list option" where
  "SQLITE_SKIP_UTF8 [] = None"
| "SQLITE_SKIP_UTF8 (b # z) = (if b \<ge> 0xc0 then skip_cont z else Some z)"

lemma skip_cont_length: "skip_cont z = Some y \<Longrightarrow> length y \<le> length z"
  by (induction z) (auto split: if_splits)

lemma SKIP_shorter: "SQLITE_SKIP_UTF8 z = Some y \<Longrightarrow> length y < length z"
  by (cases z) (auto split: if_splits dest: skip_cont_length)

function charlen_loop :: "nat option \<Rightarrow> u8 list \<Rightarrow> nat \<Rightarrow> nat option" where
  "charlen_loop lim z r =
     (case rd z 0 of
        None \<Rightarrow> None
      | Some b \<Rightarrow>
          if b \<noteq> 0 \<and> lim \<noteq> Some 0 then
            (case SQLITE_SKIP_UTF8 z of
               None \<Rightarrow> None
             | Some y \<Rightarrow> charlen_loop (map_option (\<lambda>m. m - (length z - length y)) lim) y (r + 1))
          else Some r)"
  by pat_completeness auto

termination
  by (relation "measure (\<lambda>(lim, z, r). length z)") (auto dest: SKIP_shorter)

declare charlen_loop.simps [simp del]

definition sqlite3Utf8CharLen :: "u8 list \<Rightarrow> int \<Rightarrow> nat option" where
  "sqlite3Utf8CharLen zIn nByte = charlen_loop (if nByte \<ge> 0 then Some (nat nByte) else None) zIn 0"

text \<open>The number of bytes of \<open>nChar\<close> characters; \<open>le\<close> is the native byte order.\<close>

function bytelen_loop :: "u8 list \<Rightarrow> int \<Rightarrow> nat \<Rightarrow> nat \<Rightarrow> nat option" where
  "bytelen_loop z zEnd k i =
     (if k = 0 \<or> \<not> int i \<le> zEnd then Some i
      else
        (case rd z i of
           None \<Rightarrow> None
         | Some c \<Rightarrow>
             if 0xd8 \<le> c \<and> c < 0xdc \<and> int (i + 2) \<le> zEnd then
               (case rd z (i + 2) of
                  None \<Rightarrow> None
                | Some d \<Rightarrow> bytelen_loop z zEnd (k - 1) (if 0xdc \<le> d \<and> d < 0xe0 then i + 4 else i + 2))
             else bytelen_loop z zEnd (k - 1) (i + 2)))"
  by pat_completeness auto

termination
  by (relation "measure (\<lambda>(z, zEnd, k, i). k)") auto

declare bytelen_loop.simps [simp del]

definition sqlite3Utf16ByteLen :: "bool \<Rightarrow> u8 list \<Rightarrow> int \<Rightarrow> nat \<Rightarrow> nat option" where
  "sqlite3Utf16ByteLen le zIn nByte nChar =
     (if le then map_option (\<lambda>i. i - 1) (bytelen_loop zIn (nByte - 1) nChar 1)
      else bytelen_loop zIn (nByte - 1) nChar 0)"

subsection \<open>Characters as numbers\<close>

lemma unat_and_mask: "unat (x AND mask k) = unat x mod 2 ^ k" for x :: "'a::len word"
  unfolding take_bit_eq_mask [symmetric] unsigned_take_bit_eq by (simp add: take_bit_eq_mod)

lemma unat_masks:
  "unat (x AND 0x3F) = unat x mod 64" "unat (x AND 0x1F) = unat x mod 32" "unat (x AND 0x0F) = unat x mod 16"
  "unat (x AND 0x07) = unat x mod 8" "unat (x AND 0x03) = unat x mod 4" "unat (x AND 0xFF) = unat x mod 256"
  "unat (x AND 0x3FF) = unat x mod 1024" "unat (0x3F AND x) = unat x mod 64"
  for x :: u32
proof -
  have m: "(0x3F :: u32) = mask 6" "(0x1F :: u32) = mask 5" "(0x0F :: u32) = mask 4" "(0x07 :: u32) = mask 3"
    "(0x03 :: u32) = mask 2" "(0xFF :: u32) = mask 8" "(0x3FF :: u32) = mask 10"
    by (simp_all add: mask_eq_exp_minus_1)
  show "unat (x AND 0x3F) = unat x mod 64" "unat (x AND 0x1F) = unat x mod 32" "unat (x AND 0x0F) = unat x mod 16"
    "unat (x AND 0x07) = unat x mod 8" "unat (x AND 0x03) = unat x mod 4" "unat (x AND 0xFF) = unat x mod 256"
    "unat (x AND 0x3FF) = unat x mod 1024" "unat (0x3F AND x) = unat x mod 64"
    unfolding m by (simp_all add: unat_and_mask and.commute [of "mask 6"])
qed

lemma unat_ucast_u8: "unat (ucast (x :: u32) :: u8) = unat x mod 256"
  by (simp add: unsigned_ucast_eq take_bit_eq_mod)

lemma unat_ucast_u32: "unat (ucast (x :: u8) :: u32) = unat x"
  by (simp add: unsigned_ucast_eq take_bit_nat_eq_self unat_bounds(1) [of x, THEN less_le_trans])

lemma unat_push: "unat (push_bit k (x :: u32)) = unat x * 2 ^ k mod 2 ^ 32"
  unfolding unsigned_push_bit_eq by (simp add: take_bit_eq_mod push_bit_eq_mult)

lemmas u_simps = unat_masks unat_ucast_u8 unat_ucast_u32 unat_drop_bit_div unat_word_ariths

lemma cont_iff: "b AND 0xc0 = 0x80 \<longleftrightarrow> 128 \<le> unat b \<and> unat (b :: u8) < 192"
proof -
  have all: "\<forall>n \<in> set [0..<256]. (of_nat n :: u8) AND 0xc0 = 0x80 \<longleftrightarrow> 128 \<le> n \<and> n < 192" by code_simp
  have "unat b \<in> set [0..<256]" using unat_bounds(1) [of b] by simp
  from bspec [OF all this] show ?thesis by simp
qed

definition trans_of :: "nat \<Rightarrow> nat" where
  "trans_of k = (if k < 32 then k else if k < 48 then k - 32 else if k < 56 then k - 48
     else if k < 60 then k - 56 else if k < 62 then k - 60 else 0)"

lemma trans1: "k < 64 \<Longrightarrow> unat (sqlite3Utf8Trans1 ! k) = trans_of k"
proof -
  have all: "\<forall>k \<in> set [0..<64]. unat (sqlite3Utf8Trans1 ! k) = trans_of k" by code_simp
  assume "k < 64"
  then show ?thesis using bspec [OF all, of k] by simp
qed

lemma lead_index: "0xc0 \<le> b \<Longrightarrow> unat (b - 0xc0) = unat b - 192 \<and> unat b - 192 < 64" for b :: u8
  using unat_bounds(1) [of b] unat_sub [of "0xc0" b] by (simp add: word_le_nat_alt)

text \<open>The standard encodings of a code point.\<close>

definition utf8_std :: "nat \<Rightarrow> nat list" where
  "utf8_std n =
     (if n < 128 then [n] else if n < 2048 then [192 + n div 64, 128 + n mod 64]
      else if n < 65536 then [224 + n div 4096, 128 + n div 64 mod 64, 128 + n mod 64]
      else [240 + n div 262144, 128 + n div 4096 mod 64, 128 + n div 64 mod 64, 128 + n mod 64])"

definition utf16_units :: "nat \<Rightarrow> nat list" where
  "utf16_units n =
     (if n < 65536 then [n] else [55296 + (n - 65536) div 1024, 56320 + (n - 65536) mod 1024])"

lemma WRITE_UTF8_std: "unat c < 0x110000 \<Longrightarrow> map unat (WRITE_UTF8 c) = utf8_std (unat c)"
proof -
  assume c: "unat c < 0x110000"
  have "unat c div 262144 < 8" "unat c div 262144 mod 8 = unat c div 262144" using c by auto
  moreover have "unat c < 65536 \<Longrightarrow> unat c div 4096 mod 16 = unat c div 4096" by auto
  moreover have "unat c < 2048 \<Longrightarrow> unat c div 64 mod 32 = unat c div 64" by auto
  ultimately show ?thesis
    unfolding WRITE_UTF8_def utf8_std_def by (auto simp: u_simps word_less_nat_alt)
qed

subsection \<open>Reading UTF-8\<close>

text \<open>Code points that the translation keeps: no surrogates, not U+FFFE or U+FFFF.\<close>

definition valid_cp :: "u32 \<Rightarrow> bool" where
  "valid_cp c \<longleftrightarrow> unat c < 0x110000 \<and> \<not> (0xD800 \<le> unat c \<and> unat c < 0xE000) \<and> unat c \<noteq> 0xFFFE \<and> unat c \<noteq> 0xFFFF"

definition no_cont :: "u8 list \<Rightarrow> bool" where
  "no_cont z \<longleftrightarrow> z = [] \<or> \<not> (128 \<le> unat (hd z) \<and> unat (hd z) < 192)"

lemma low6 [simp]: "(128 + n mod 64) mod 64 = n mod 64" for n :: nat
  using mod_mult_self1 [of "n mod 64" 2 64] by (simp add: add.commute)

lemma unat_cont_step:
  "unat c < 67108864 \<Longrightarrow> unat (push_bit 6 c + (0x3f AND ucast b) :: u32) = unat c * 64 + unat (b :: u8) mod 64"
proof -
  assume c: "unat c < 67108864"
  then have "unat c * 64 + unat b mod 64 < 4294967296" by auto
  then show ?thesis by (simp add: u_simps unat_push)
qed

lemma and_high_u32:
  "c AND 0xFFFFF800 = 0xD800 \<longleftrightarrow> unat c div 2048 = 27" "c AND 0xFFFFFFFE = 0xFFFE \<longleftrightarrow> unat c div 2 = 0x7FFF"
  for c :: u32
proof -
  have "c AND NOT (mask k) = push_bit k (drop_bit k c)" for k
    by (rule bit_word_eqI) (auto simp: bit_simps)
  then have split: "unat (c AND NOT (mask k)) = (unat c div 2 ^ k) * 2 ^ k mod 2 ^ 32" for k
    by (simp add: unat_push unat_drop_bit_div)
  have m: "(0xFFFFF800 :: u32) = NOT (mask 11)" "(0xFFFFFFFE :: u32) = NOT (mask 1)"
    by (simp_all add: mask_eq_exp_minus_1)
  have b: "unat c div 2048 * 2048 mod 4294967296 = unat c div 2048 * 2048" "unat c div 2 * 2 mod 4294967296 = unat c div 2 * 2"
    using unat_bounds(3) [of c] by (auto intro!: mod_less le_less_trans [OF div_times_less_eq_dividend])
  show "c AND 0xFFFFF800 = 0xD800 \<longleftrightarrow> unat c div 2048 = 27" "c AND 0xFFFFFFFE = 0xFFFE \<longleftrightarrow> unat c div 2 = 0x7FFF"
    unfolding m word_unat_eq_iff split by (auto simp: b)
qed

lemma utf8_check_valid: "\<lbrakk>valid_cp c; 128 \<le> unat c\<rbrakk> \<Longrightarrow> utf8_check c = c"
  unfolding utf8_check_def and_high_u32 valid_cp_def by (auto simp: word_less_nat_alt)

lemma utf8_cont_stop: "no_cont z \<Longrightarrow> utf8_cont c z = (c, z)"
  unfolding no_cont_def by (cases z) (auto simp: cont_iff)

lemma utf8_cont_byte:
  "128 \<le> unat b \<Longrightarrow> unat b < 192 \<Longrightarrow> utf8_cont c (b # z) = utf8_cont (push_bit 6 c + (0x3f AND ucast b)) z"
  by (simp add: cont_iff)

lemma READ_lead:
  assumes "192 \<le> unat b" "utf8_cont (ucast (sqlite3Utf8Trans1 ! unat (b - 0xc0))) z = (c, y)"
  shows "READ_UTF8 (b # z) = Some (utf8_check c, y)"
  using assms by (simp add: word_le_nat_alt)

lemma lead_value:
  "192 \<le> unat b \<Longrightarrow> unat (ucast (sqlite3Utf8Trans1 ! unat (b - 0xc0)) :: u32) = trans_of (unat b - 192)" for b :: u8
  using lead_index [of b] trans1 [of "unat b - 192"] by (simp add: word_le_nat_alt unat_ucast_u32)

lemma div_mod_64:
  "n div 4096 * 64 + n div 64 mod 64 = n div 64" "n div 262144 * 64 + n div 4096 mod 64 = n div 4096" for n :: nat
  using div_mult_mod_eq [of "n div 64" 64] div_mult_mod_eq [of "n div 4096" 64] by (simp_all add: div_mult2_eq [symmetric])

lemma READ_WRITE_UTF8:
  assumes v: "valid_cp c" and z: "no_cont z"
  shows "READ_UTF8 (WRITE_UTF8 c @ z) = Some (c, z)"
proof -
  let ?n = "unat c"
  have n: "?n < 0x110000" using v by (simp add: valid_cp_def)
  have std: "map unat (WRITE_UTF8 c) = utf8_std ?n" by (rule WRITE_UTF8_std [OF n])
  consider "?n < 128" | "128 \<le> ?n" "?n < 2048" | "2048 \<le> ?n" "?n < 65536" | "65536 \<le> ?n" by linarith
  then show ?thesis
  proof cases
    case 1
    then obtain b where b: "WRITE_UTF8 c = [b]" "unat b = ?n" using std by (auto simp: utf8_std_def)
    then have "(ucast b :: u32) = c" by (simp add: word_unat_eq_iff unat_ucast_u32)
    then show ?thesis using b 1 by (simp add: word_le_nat_alt)
  next
    case 2
    then obtain b0 b1 where b: "WRITE_UTF8 c = [b0, b1]" "unat b0 = 192 + ?n div 64" "unat b1 = 128 + ?n mod 64"
      using std by (auto simp: utf8_std_def)
    define c0 where "c0 = (ucast (sqlite3Utf8Trans1 ! unat (b0 - 0xc0)) :: u32)"
    define c1 where "c1 = push_bit 6 c0 + (0x3f AND ucast b1)"
    have q: "?n div 64 < 32" using 2 by simp
    have c0: "unat c0 = ?n div 64" using lead_value [of b0] b(2) q by (simp add: c0_def trans_of_def)
    have "unat c1 = ?n" using unat_cont_step [of c0 b1] b(3) 2 by (simp add: c1_def c0)
    then have c1: "c1 = c" by (simp add: word_unat_eq_iff)
    have "utf8_cont c0 ([b1] @ z) = (c1, z)"
      using utf8_cont_byte [of b1 c0] utf8_cont_stop [OF z] b(3) by (simp add: c1_def)
    then have "READ_UTF8 (b0 # [b1] @ z) = Some (utf8_check c1, z)"
      using READ_lead [of b0] b(2) by (simp add: c0_def)
    then show ?thesis using utf8_check_valid [OF v 2(1)] c1 b(1) by simp
  next
    case 3
    then obtain b0 b1 b2 where b: "WRITE_UTF8 c = [b0, b1, b2]" "unat b0 = 224 + ?n div 4096"
      "unat b1 = 128 + ?n div 64 mod 64" "unat b2 = 128 + ?n mod 64"
      using std by (auto simp: utf8_std_def)
    define c0 where "c0 = (ucast (sqlite3Utf8Trans1 ! unat (b0 - 0xc0)) :: u32)"
    define c1 where "c1 = push_bit 6 c0 + (0x3f AND ucast b1)"
    define c2 where "c2 = push_bit 6 c1 + (0x3f AND ucast b2)"
    have q: "?n div 4096 < 16" using 3 by simp
    have c0: "unat c0 = ?n div 4096" using lead_value [of b0] b(2) q by (simp add: c0_def trans_of_def)
    have "unat c1 = ?n div 4096 * 64 + ?n div 64 mod 64" using unat_cont_step [of c0 b1] b(3) 3 by (simp add: c1_def c0)
    also have "\<dots> = ?n div 64" by (simp add: div_mod_64)
    finally have u1: "unat c1 = ?n div 64" .
    have "unat c2 = ?n" using unat_cont_step [of c1 b2] b(4) 3 by (simp add: c2_def u1)
    then have c2: "c2 = c" by (simp add: word_unat_eq_iff)
    have "utf8_cont c0 ([b1, b2] @ z) = (c2, z)"
      using utf8_cont_byte [of b1 c0] utf8_cont_byte [of b2 c1] utf8_cont_stop [OF z] b(3,4) by (simp add: c1_def c2_def)
    then have "READ_UTF8 (b0 # [b1, b2] @ z) = Some (utf8_check c2, z)"
      using READ_lead [of b0] b(2) by (simp add: c0_def)
    then show ?thesis using utf8_check_valid [OF v] 3(1) c2 b(1) by simp
  next
    case 4
    then obtain b0 b1 b2 b3 where b: "WRITE_UTF8 c = [b0, b1, b2, b3]" "unat b0 = 240 + ?n div 262144"
      "unat b1 = 128 + ?n div 4096 mod 64" "unat b2 = 128 + ?n div 64 mod 64" "unat b3 = 128 + ?n mod 64"
      using std by (auto simp: utf8_std_def)
    define c0 where "c0 = (ucast (sqlite3Utf8Trans1 ! unat (b0 - 0xc0)) :: u32)"
    define c1 where "c1 = push_bit 6 c0 + (0x3f AND ucast b1)"
    define c2 where "c2 = push_bit 6 c1 + (0x3f AND ucast b2)"
    define c3 where "c3 = push_bit 6 c2 + (0x3f AND ucast b3)"
    have q: "?n div 262144 < 5" using n by simp
    have c0: "unat c0 = ?n div 262144" using lead_value [of b0] b(2) q by (simp add: c0_def trans_of_def)
    have "unat c1 = ?n div 262144 * 64 + ?n div 4096 mod 64" using unat_cont_step [of c0 b1] b(3) q by (simp add: c1_def c0)
    also have "\<dots> = ?n div 4096" by (simp add: div_mod_64)
    finally have u1: "unat c1 = ?n div 4096" .
    have "unat c2 = ?n div 4096 * 64 + ?n div 64 mod 64" using unat_cont_step [of c1 b2] b(4) n by (simp add: c2_def u1)
    also have "\<dots> = ?n div 64" by (simp add: div_mod_64)
    finally have u2: "unat c2 = ?n div 64" .
    have "unat c3 = ?n" using unat_cont_step [of c2 b3] b(5) n by (simp add: c3_def u2)
    then have c3: "c3 = c" by (simp add: word_unat_eq_iff)
    have "utf8_cont c0 ([b1, b2, b3] @ z) = (c3, z)"
      using utf8_cont_byte [of b1 c0] utf8_cont_byte [of b2 c1] utf8_cont_byte [of b3 c2] utf8_cont_stop [OF z] b(3,4,5)
      by (simp add: c1_def c2_def c3_def)
    then have "READ_UTF8 (b0 # [b1, b2, b3] @ z) = Some (utf8_check c3, z)"
      using READ_lead [of b0] b(2) by (simp add: c0_def)
    then show ?thesis using utf8_check_valid [OF v] 4 c3 b(1) by simp
  qed
qed

subsection \<open>UTF-16\<close>

definition WRITE_UTF16 :: "bool \<Rightarrow> u32 \<Rightarrow> u8 list" where
  "WRITE_UTF16 le c = (if le then WRITE_UTF16LE c else WRITE_UTF16BE c)"

lemma unat_and_c0: "unat (x AND 0xC0) = unat x div 64 mod 4 * 64" "unat (x AND 0x3C0) = unat x div 64 mod 16 * 64"
  for x :: u32
proof -
  have eq: "x AND 0xC0 = push_bit 6 (drop_bit 6 x AND mask 2)" "x AND 0x3C0 = push_bit 6 (drop_bit 6 x AND mask 4)"
    unfolding word_eq_bits by (simp_all add: word_bits)
  have "unat x div 64 mod 4 * 64 < 4294967296" "unat x div 64 mod 16 * 64 < 4294967296"
    using mod_less_divisor [of 4 "unat x div 64"] mod_less_divisor [of 16 "unat x div 64"] by linarith+
  then show "unat (x AND 0xC0) = unat x div 64 mod 4 * 64" "unat (x AND 0x3C0) = unat x div 64 mod 16 * 64"
    unfolding eq unat_push unat_and_mask unat_drop_bit_div by simp_all
qed

lemma unit_value:
  "unat (utf16_unit True b0 b1) = unat b0 + unat b1 * 256" "unat (utf16_unit False b0 b1) = unat b0 * 256 + unat b1"
proof -
  have b: "unat b0 < 256" "unat b1 < 256" using unat_bounds(1) by blast+
  then have "unat b0 + unat b1 * 256 < 4294967296" "unat b0 * 256 + unat b1 < 4294967296" by simp_all
  then show "unat (utf16_unit True b0 b1) = unat b0 + unat b1 * 256" "unat (utf16_unit False b0 b1) = unat b0 * 256 + unat b1"
    using b by (simp_all add: utf16_unit_def u_simps unat_push)
qed

text \<open>The two bytes of a unit in the given order.\<close>

definition unit_bytes :: "bool \<Rightarrow> nat \<Rightarrow> nat list" where
  "unit_bytes le u = (if le then [u mod 256, u div 256] else [u div 256, u mod 256])"

lemma surrogate_arith:
  fixes n m k :: nat
  assumes "65536 \<le> n" "n < 0x110000" "m = n - 65536" "k = m div 1024"
  shows "k < 1024" "n div 1024 mod 64 = k mod 64" "m div 262144 = k div 256" "k mod 64 + k div 64 mod 4 * 64 = k mod 256"
    "(55296 + k) mod 256 = k mod 256" "(55296 + k) div 256 = 216 + k div 256" "n mod 256 = m mod 256"
    "(56320 + m mod 1024) mod 256 = m mod 256" "(56320 + m mod 1024) div 256 = 220 + n div 256 mod 4" "k div 256 < 4"
proof -
  have n: "n = m + 65536" using assms by simp
  show k: "k < 1024" using assms by auto
  then show "k div 256 < 4" by simp
  have "n div 1024 = k + 64" unfolding n assms(4) by simp
  then show "n div 1024 mod 64 = k mod 64" by simp
  show "m div 262144 = k div 256" unfolding assms(4) by (simp add: div_mult2_eq [symmetric])
  show "k mod 64 + k div 64 mod 4 * 64 = k mod 256" using mod_mult2_eq [of k 64 4] by simp
  show "(55296 + k) mod 256 = k mod 256" using mod_mult_self1 [of k 216 256] by (simp add: add.commute)
  show "(55296 + k) div 256 = 216 + k div 256" using div_mult_self1 [of 256 k 216] by (simp add: add.commute)
  show "n mod 256 = m mod 256" unfolding n using mod_mult_self1 [of m 256 256] by simp
  show "(56320 + m mod 1024) mod 256 = m mod 256"
    using mod_mult_self1 [of "m mod 1024" 220 256] mod_mod_cancel [of 256 1024 m] by (simp add: add.commute)
  have "n div 256 mod 4 = m div 256 mod 4" unfolding n
    using div_mult_self1 [of 256 m 256] mod_mult_self1 [of "m div 256" 64 4] by (simp add: add.commute)
  moreover have "m mod 1024 div 256 = m div 256 mod 4" using mod_mult2_eq [of m 256 4] by simp
  ultimately show "(56320 + m mod 1024) div 256 = 220 + n div 256 mod 4"
    using div_mult_self1 [of 256 "m mod 1024" 220] by (simp add: add.commute)
qed

lemma WRITE_UTF16_std:
  assumes "unat c < 0x110000"
  shows "map unat (WRITE_UTF16 le c) = concat (map (unit_bytes le) (utf16_units (unat c)))"
proof (cases "unat c < 65536")
  case True
  then have "unat c div 256 mod 256 = unat c div 256" "c \<le> 0xFFFF" by (auto simp: word_le_nat_alt)
  then show ?thesis using True
    by (auto simp: WRITE_UTF16_def WRITE_UTF16LE_def WRITE_UTF16BE_def utf16_units_def unit_bytes_def u_simps)
next
  case False
  define m where "m = unat c - 65536"
  define k where "k = m div 1024"
  note ar = surrogate_arith [OF _ assms m_def k_def]
  have n: "65536 \<le> unat c" "\<not> c \<le> 0xFFFF" using False by (auto simp: word_le_nat_alt)
  have sub: "unat (c - 0x10000) = m" using n(1) by (simp add: m_def unat_sub word_le_nat_alt)
  have 1: "unat (ucast ((drop_bit 10 c AND 0x003F) + (drop_bit 10 (c - 0x10000) AND 0x00C0)) :: u8) = (55296 + k) mod 256"
  proof -
    have "unat c div 1024 mod 64 + m div 1024 div 64 mod 4 * 64 = k mod 256"
      using ar(2,4) [OF n(1)] by (simp add: k_def)
    then show ?thesis using ar(5) [OF n(1)] by (simp add: u_simps unat_and_c0 sub)
  qed
  have 2: "unat (ucast (0x00D8 + (drop_bit 18 (c - 0x10000) AND 0x03)) :: u8) = (55296 + k) div 256"
    using ar(3,6,10) [OF n(1)] by (simp add: u_simps sub)
  have 3: "unat (ucast (c AND 0x00FF) :: u8) = (56320 + m mod 1024) mod 256" using ar(7,8) [OF n(1)] by (simp add: u_simps)
  have 4: "unat (ucast (0x00DC + (drop_bit 8 c AND 0x03)) :: u8) = (56320 + m mod 1024) div 256"
  proof -
    have "220 + unat c div 256 mod 4 < 256" using mod_less_divisor [of 4 "unat c div 256"] by linarith
    then show ?thesis using ar(9) [OF n(1)] by (simp add: u_simps)
  qed
  have "utf16_units (unat c) = [55296 + k, 56320 + m mod 1024]" using False by (simp add: utf16_units_def m_def k_def)
  then show ?thesis using n(2) 1 2 3 4
    by (simp add: WRITE_UTF16_def WRITE_UTF16LE_def WRITE_UTF16BE_def unit_bytes_def)
qed

lemma unit_of_bytes: "[unat b0, unat b1] = unit_bytes le u \<Longrightarrow> unat (utf16_unit le b0 b1) = u"
  by (cases le) (auto simp: unit_bytes_def unit_value)

lemma unit_bound: "unat (utf16_unit le b0 b1) < 65536"
  using unat_bounds(1) [of b0] unat_bounds(1) [of b1] by (cases le) (simp_all add: unit_value)

lemma pair_value: "unat (utf16_pair c c2) =
    unat c2 mod 1024 + unat c mod 64 * 1024 + (unat c div 64 mod 16 * 64 + 64) * 1024"
proof -
  define x y w where "x = unat c2 mod 1024" and "y = unat c mod 64" and "w = unat c div 64 mod 16"
  have "x < 1024" "y < 64" "w < 16" by (simp_all add: x_def y_def w_def)
  then have b: "x + y * 1024 + (w * 64 + 64) * 1024 < 4294967296" "(w * 64 + 64) * 1024 < 4294967296"
    "w * 64 + 64 < 4294967296" "y * 1024 < 4294967296" "x + y * 1024 < 4294967296" by simp_all
  have "unat (utf16_pair c c2) = x + y * 1024 + (w * 64 + 64) * 1024"
    unfolding utf16_pair_def unat_word_ariths unat_push unat_masks unat_and_c0
    unfolding x_def [symmetric] y_def [symmetric] w_def [symmetric] using b by simp
  then show ?thesis by (simp only: x_def y_def w_def)
qed

lemma pair_surrogates:
  assumes "65536 \<le> unat v" "unat v < 0x110000" "m = unat v - 65536"
    "unat c = 55296 + m div 1024" "unat c2 = 56320 + m mod 1024"
  shows "utf16_pair c c2 = v"
proof -
  define k where "k = m div 1024"
  have k: "k < 1024" using surrogate_arith(1) [OF assms(1,2,3) k_def] .
  have "unat c2 mod 1024 = m mod 1024" using assms(5) mod_mult_self1 [of "m mod 1024" 55 1024] by (simp add: add.commute)
  moreover have "unat c mod 64 = k mod 64"
    using assms(4) mod_mult_self1 [of k 864 64] by (simp add: k_def [symmetric] add.commute)
  moreover have "unat c div 64 mod 16 = k div 64"
  proof -
    have "unat c div 64 = 864 + k div 64" using assms(4) div_mult_self1 [of 64 k 864] by (simp add: k_def [symmetric] add.commute)
    moreover have "k div 64 < 16" using k by simp
    ultimately show ?thesis using mod_mult_self1 [of "k div 64" 54 16] by (simp add: add.commute)
  qed
  ultimately have "unat (utf16_pair c c2) = m mod 1024 + k mod 64 * 1024 + (k div 64 * 64 + 64) * 1024"
    unfolding pair_value by simp
  also have "\<dots> = m mod 1024 + (k div 64 * 64 + k mod 64) * 1024 + 65536" by (simp only: algebra_simps)
  also have "\<dots> = m mod 1024 + m div 1024 * 1024 + 65536" by (simp only: div_mult_mod_eq k_def)
  also have "\<dots> = unat v" using assms(1,3) by simp
  finally show ?thesis by (simp add: word_unat_eq_iff)
qed

lemma to_8_step:
  assumes "valid_cp c"
  shows "utf16_to_8_loop le len (WRITE_UTF16 le c @ y) z =
    (case put_out len z (WRITE_UTF8 c) of None \<Rightarrow> None | Some z' \<Rightarrow> utf16_to_8_loop le len y z')"
proof (cases "unat c < 65536")
  case True
  have v: "unat c < 0x110000" "\<not> (0xD800 \<le> unat c \<and> unat c < 0xE000)" using assms by (auto simp: valid_cp_def)
  have "map unat (WRITE_UTF16 le c) = unit_bytes le (unat c)"
    using WRITE_UTF16_std [OF v(1)] True by (simp add: utf16_units_def)
  then obtain b0 b1 where b: "WRITE_UTF16 le c = [b0, b1]" "[unat b0, unat b1] = unit_bytes le (unat c)"
    by (cases le) (auto simp: unit_bytes_def)
  have "utf16_unit le b0 b1 = c" using unit_of_bytes [OF b(2)] by (simp add: word_unat_eq_iff)
  then show ?thesis using b(1) v(2) by (auto simp: word_le_nat_alt word_less_nat_alt)
next
  case False
  have v: "unat c < 0x110000" using assms by (simp add: valid_cp_def)
  define m where "m = unat c - 65536"
  have k: "m div 1024 < 1024" using surrogate_arith(1) [OF _ v m_def refl] False by simp
  have "map unat (WRITE_UTF16 le c) = unit_bytes le (55296 + m div 1024) @ unit_bytes le (56320 + m mod 1024)"
    using WRITE_UTF16_std [OF v] False by (simp add: utf16_units_def m_def)
  then obtain b0 b1 b2 b3 where b: "WRITE_UTF16 le c = [b0, b1, b2, b3]"
    "[unat b0, unat b1] = unit_bytes le (55296 + m div 1024)" "[unat b2, unat b3] = unit_bytes le (56320 + m mod 1024)"
    by (cases le) (auto simp: unit_bytes_def)
  have u: "unat (utf16_unit le b0 b1) = 55296 + m div 1024" by (rule unit_of_bytes [OF b(2)])
  have "utf16_pair (utf16_unit le b0 b1) (utf16_unit le b2 b3) = c"
    using False by (intro pair_surrogates [OF _ v m_def u unit_of_bytes [OF b(3)]]) simp
  moreover have "0xd800 \<le> utf16_unit le b0 b1" "utf16_unit le b0 b1 < 0xe000"
    using u k by (simp_all add: word_le_nat_alt word_less_nat_alt)
  ultimately show ?thesis using b(1) by simp
qed

text \<open>Encodings of lists of code points.\<close>

definition text8 :: "u32 list \<Rightarrow> u8 list" where
  "text8 cs = concat (map WRITE_UTF8 cs)"

definition text16 :: "bool \<Rightarrow> u32 list \<Rightarrow> u8 list" where
  "text16 le cs = concat (map (WRITE_UTF16 le) cs)"

lemma text_Cons [simp]:
  "text8 [] = []" "text8 (c # cs) = WRITE_UTF8 c @ text8 cs"
  "text16 le [] = []" "text16 le (c # cs) = WRITE_UTF16 le c @ text16 le cs"
  by (simp_all add: text8_def text16_def)

lemma text8_no_cont: "list_all valid_cp cs \<Longrightarrow> no_cont (text8 cs)"
proof (cases cs)
  case (Cons c ds)
  assume "list_all valid_cp cs"
  then have "unat c < 0x110000" using Cons by (simp add: valid_cp_def)
  then have "map unat (WRITE_UTF8 c) = utf8_std (unat c)" by (rule WRITE_UTF8_std)
  moreover have "utf8_std (unat c) \<noteq> []" "hd (utf8_std (unat c)) < 128 \<or> 192 \<le> hd (utf8_std (unat c))"
    by (auto simp: utf8_std_def)
  ultimately have "WRITE_UTF8 c \<noteq> []" "unat (hd (WRITE_UTF8 c)) < 128 \<or> 192 \<le> unat (hd (WRITE_UTF8 c))"
    by (metis list.map_disc_iff, metis list.map_sel(1) list.map_disc_iff)
  then show ?thesis using Cons by (auto simp: no_cont_def)
qed (simp add: no_cont_def)

lemma to_16_text:
  "\<lbrakk>list_all valid_cp cs; length z + length (text16 le cs) \<le> len\<rbrakk> \<Longrightarrow>
   utf8_to_16_loop (WRITE_UTF16 le) len (text8 cs) z = Some (z @ text16 le cs)"
proof (induction cs arbitrary: z)
  case Nil
  then show ?case by (simp add: utf8_to_16_loop.simps)
next
  case (Cons c cs)
  then have "READ_UTF8 (text8 (c # cs)) = Some (c, text8 cs)"
    using READ_WRITE_UTF8 [of c "text8 cs"] text8_no_cont [of cs] by simp
  then show ?case using Cons by (simp add: utf8_to_16_loop.simps [of _ _ "_ @ _"] put_out_def)
qed

lemma to_8_text:
  "\<lbrakk>list_all valid_cp cs; length z + length (text8 cs) \<le> len\<rbrakk> \<Longrightarrow>
   utf16_to_8_loop le len (text16 le cs) z = Some (z @ text8 cs)"
proof (induction cs arbitrary: z)
  case (Cons c cs)
  then show ?case using to_8_step [of c le len "text16 le cs" z] by (simp add: put_out_def)
qed simp

lemma swap_append: "even (length x) \<Longrightarrow> utf16_swap (x @ y) = utf16_swap x @ utf16_swap y"
  by (induction x rule: utf16_swap.induct) auto

lemma length_WRITE_UTF16: "length (WRITE_UTF16 le c) \<in> {2, 4}" "even (length (WRITE_UTF16 le c))"
  by (auto simp: WRITE_UTF16_def WRITE_UTF16LE_def WRITE_UTF16BE_def)

lemma swap_WRITE: "utf16_swap (WRITE_UTF16 le c) = WRITE_UTF16 (\<not> le) c"
  by (cases le) (auto simp: WRITE_UTF16_def WRITE_UTF16LE_def WRITE_UTF16BE_def)

lemma swap_text: "utf16_swap (text16 le cs) = text16 (\<not> le) cs"
  by (induction cs) (simp_all add: swap_append length_WRITE_UTF16 swap_WRITE)

lemma even_text16: "even (length (text16 le cs))"
  by (induction cs) (simp_all add: length_WRITE_UTF16)

subsection \<open>Sizes, for any input\<close>

lemma utf8_cont_progress: "utf8_cont c x = (c', y) \<Longrightarrow> c' = c \<or> length y < length x"
proof (cases x)
  case (Cons b x')
  assume "utf8_cont c x = (c', y)"
  then show ?thesis using Cons utf8_cont_length [of "push_bit 6 c + (0x3f AND ucast b)" x'] by (auto split: if_splits)
qed simp

lemma read_wide:
  assumes "READ_UTF8 z = Some (c, y)" "\<not> c \<le> 0xFFFF"
  shows "length y + 2 \<le> length z"
proof (cases z)
  case (Cons b x)
  have b: "b \<ge> 0xc0"
  proof (rule ccontr)
    assume "\<not> b \<ge> 0xc0"
    then have "c = ucast b" using assms(1) Cons by simp
    then show False using assms(2) unat_bounds(1) [of b] by (simp add: word_le_nat_alt unat_ucast_u32)
  qed
  let ?c0 = "ucast (sqlite3Utf8Trans1 ! unat (b - 0xc0)) :: u32"
  obtain c' where c': "utf8_cont ?c0 x = (c', y)" "c = utf8_check c'"
    using assms(1) Cons b by (cases "utf8_cont ?c0 x") (auto simp: Let_def)
  have "unat ?c0 < 128" using lead_value [of b] b unat_bounds(1) [of b] by (auto simp: word_le_nat_alt trans_of_def)
  then have "utf8_check ?c0 = 0xFFFD" by (simp add: utf8_check_def word_less_nat_alt)
  then have "c' \<noteq> ?c0" using c'(2) assms(2) by auto
  then show ?thesis using utf8_cont_progress [OF c'(1)] Cons by auto
qed (use assms in simp)

lemma length_WRITE_UTF8: "length (WRITE_UTF8 c) \<le> 4" "unat c < 65536 \<Longrightarrow> length (WRITE_UTF8 c) \<le> 3" "0 < length (WRITE_UTF8 c)"
  by (auto simp: WRITE_UTF8_def word_less_nat_alt)

lemma length_WRITE_UTF16_wide: "c \<le> 0xFFFF \<Longrightarrow> length (WRITE_UTF16 le c) = 2" "length (WRITE_UTF16 le c) \<le> 4"
  by (auto simp: WRITE_UTF16_def WRITE_UTF16LE_def WRITE_UTF16BE_def)

lemma read_none: "READ_UTF8 z = None \<longleftrightarrow> z = []"
  by (cases z) auto

lemma to_16_total:
  "length z + 2 * length x \<le> len \<Longrightarrow>
   \<exists>r. utf8_to_16_loop (WRITE_UTF16 le) len x z = Some r \<and> length r \<le> length z + 2 * length x"
proof (induction x arbitrary: z rule: length_induct)
  case (1 x)
  show ?case
  proof (cases "READ_UTF8 x")
    case None
    then show ?thesis by (simp add: utf8_to_16_loop.simps)
  next
    case (Some cy)
    then obtain c y where cy: "READ_UTF8 x = Some (c, y)" by (cases cy) auto
    have s: "length y < length x" by (rule READ_UTF8_shorter [OF cy])
    have w: "length (WRITE_UTF16 le c) + 2 * length y \<le> 2 * length x"
      using read_wide [OF cy] s length_WRITE_UTF16_wide [where le = le and c = c] by (cases "c \<le> 0xFFFF") auto
    let ?z = "z @ WRITE_UTF16 le c"
    have "length ?z + 2 * length y \<le> len" using w 1(2) by simp
    then obtain r where "utf8_to_16_loop (WRITE_UTF16 le) len y ?z = Some r" "length r \<le> length ?z + 2 * length y"
      using 1(1) s by blast
    then show ?thesis using cy w 1(2) by (simp add: utf8_to_16_loop.simps [of _ _ x] put_out_def)
  qed
qed

lemma to_8_total:
  "\<lbrakk>even (length x); length z + 2 * length x \<le> len\<rbrakk> \<Longrightarrow>
   \<exists>r. utf16_to_8_loop le len x z = Some r \<and> length r \<le> length z + 2 * length x"
proof (induction x arbitrary: z rule: length_induct)
  case (1 x)
  show ?case
  proof (cases x rule: remdups_adj.cases)
    case (3 b0 b1 y)
    let ?c = "utf16_unit le b0 b1"
    have l3: "length (WRITE_UTF8 ?c) \<le> 3" using length_WRITE_UTF8(2) [OF unit_bound] .
    have step: "\<exists>r. utf16_to_8_loop le len u (z @ WRITE_UTF8 c) = Some r \<and> length r \<le> length z + 2 * length x"
      if u: "even (length u)" "length (WRITE_UTF8 c) + 2 * length u \<le> 2 * length x" "length u < length x" for u c
    proof -
      have "length (z @ WRITE_UTF8 c) + 2 * length u \<le> len" using u(2) 1(3) by simp
      then obtain r where "utf16_to_8_loop le len u (z @ WRITE_UTF8 c) = Some r"
        "length r \<le> length (z @ WRITE_UTF8 c) + 2 * length u" using 1(1) u(1,3) by blast
      then show ?thesis using u(2) by auto
    qed
    have ev: "even (length y)" using 1(2) 3 by simp
    show ?thesis
    proof (cases "0xd800 \<le> ?c \<and> ?c < 0xe000")
      case False
      then show ?thesis using step [of y ?c] ev l3 3 1(3) by (auto simp: put_out_def)
    next
      case True
      show ?thesis
      proof (cases y rule: remdups_adj.cases)
        case 1
        then show ?thesis using True l3 3 \<open>length z + 2 * length x \<le> len\<close> by (auto simp: put_out_def)
      next
        case (2 b)
        then show ?thesis using ev by simp
      next
        case y: (3 b2 b3 y')
        let ?p = "utf16_pair ?c (utf16_unit le b2 b3)"
        have "length (WRITE_UTF8 ?p) \<le> 4" by (rule length_WRITE_UTF8(1))
        then show ?thesis using step [of y' ?p] ev True 3 y 1(3) by (auto simp: put_out_def)
      qed
    qed
  qed (use 1 in auto)
qed

subsection \<open>Other readers and counters\<close>

lemma utf8_cont0_eq:
  "utf8_cont0 c (s @ 0 # r) = Some (fst (utf8_cont c s), snd (utf8_cont c s) @ 0 # r)"
  by (induction c s rule: utf8_cont.induct) auto

lemma Utf8Read_eq:
  "s \<noteq> [] \<Longrightarrow> sqlite3Utf8Read (s @ 0 # r) = map_option (\<lambda>(c, y). (c, y @ 0 # r)) (READ_UTF8 s)"
  by (cases s) (auto simp: utf8_cont0_eq split: prod.splits)

lemma lim_loop_bound:
  "i + m \<le> length z \<Longrightarrow> \<exists>j c'. utf8_lim_loop z i m c = Some (j, c') \<and> i \<le> j \<and> j \<le> i + m"
proof (induction z i m c rule: utf8_lim_loop.induct)
  case (2 z i m c)
  then obtain b where "rd z i = Some b" by (auto simp: rd_def)
  then show ?case using 2 by fastforce
qed simp

lemma skip_cont_eq: "skip_cont (s @ 0 # r) = Some (snd (utf8_cont c s) @ 0 # r)"
  by (induction c s rule: utf8_cont.induct) auto

lemma SKIP_text:
  assumes "valid_cp c" "no_cont y"
  shows "SQLITE_SKIP_UTF8 (WRITE_UTF8 c @ y @ 0 # r) = Some (y @ 0 # r)"
proof -
  have rw: "READ_UTF8 (WRITE_UTF8 c @ y) = Some (c, y)" by (rule READ_WRITE_UTF8 [OF assms])
  obtain b x where b: "WRITE_UTF8 c @ y = b # x" using length_WRITE_UTF8(3) [of c] by (cases "WRITE_UTF8 c") auto
  have "SQLITE_SKIP_UTF8 (b # x @ 0 # r) = Some (y @ 0 # r)"
    using rw skip_cont_eq [of x r "ucast (sqlite3Utf8Trans1 ! unat (b - 0xc0))"] unfolding b
    by (auto simp: Let_def split: if_splits prod.splits)
  then show ?thesis using b by (metis append_Cons append_assoc)
qed

lemma WRITE_UTF8_head: "valid_cp c \<Longrightarrow> c \<noteq> 0 \<Longrightarrow> \<exists>b x. WRITE_UTF8 c = b # x \<and> b \<noteq> 0"
proof -
  assume v: "valid_cp c" "c \<noteq> 0"
  then have "map unat (WRITE_UTF8 c) = utf8_std (unat c)" by (intro WRITE_UTF8_std) (simp add: valid_cp_def)
  moreover have "utf8_std (unat c) \<noteq> []" "hd (utf8_std (unat c)) \<noteq> 0" using v(2) unat_gt_0 [of c] by (auto simp: utf8_std_def)
  ultimately show ?thesis by (cases "WRITE_UTF8 c") (auto, metis list.sel(1) less_irrefl)
qed

lemma charlen_text:
  "\<lbrakk>list_all valid_cp cs; 0 \<notin> set cs\<rbrakk> \<Longrightarrow> charlen_loop None (text8 cs @ 0 # r) k = Some (k + length cs)"
proof (induction cs arbitrary: k)
  case Nil
  then show ?case by (simp add: charlen_loop.simps)
next
  case (Cons c cs)
  obtain b x where b: "WRITE_UTF8 c = b # x" "b \<noteq> 0" using WRITE_UTF8_head [of c] Cons.prems by auto
  have "SQLITE_SKIP_UTF8 (text8 (c # cs) @ 0 # r) = Some (text8 cs @ 0 # r)"
    using SKIP_text [of c "text8 cs" r] text8_no_cont [of cs] Cons.prems by simp
  then show ?case using Cons b by (simp add: charlen_loop.simps [of _ "_ # _"])
qed

lemma WRITE_UTF16_bytes:
  assumes "valid_cp c"
  obtains (one) b0 b1 where "WRITE_UTF16 le c = [b0, b1]" "unat (if le then b1 else b0) = unat c div 256"
      "\<not> (216 \<le> unat c div 256 \<and> unat c div 256 < 224)"
    | (two) b0 b1 b2 b3 where "WRITE_UTF16 le c = [b0, b1, b2, b3]"
      "216 \<le> unat (if le then b1 else b0)" "unat (if le then b1 else b0) < 220"
      "220 \<le> unat (if le then b3 else b2)" "unat (if le then b3 else b2) < 224"
proof (cases "unat c < 65536")
  case True
  have v: "unat c < 0x110000" "\<not> (0xD800 \<le> unat c \<and> unat c < 0xE000)" using assms by (auto simp: valid_cp_def)
  have "map unat (WRITE_UTF16 le c) = unit_bytes le (unat c)"
    using WRITE_UTF16_std [OF v(1)] True by (simp add: utf16_units_def)
  moreover have "\<not> (216 \<le> unat c div 256 \<and> unat c div 256 < 224)" using v(2) by auto
  moreover obtain b0 b1 where b: "WRITE_UTF16 le c = [b0, b1]"
    using calculation(1) by (cases le) (auto simp: unit_bytes_def)
  ultimately show thesis by (intro one [OF b]) (cases le; simp add: unit_bytes_def)+
next
  case False
  have v: "unat c < 0x110000" using assms by (simp add: valid_cp_def)
  define m where "m = unat c - 65536"
  note ar = surrogate_arith [OF _ v m_def refl]
  have u: "(55296 + m div 1024) div 256 = 216 + m div 1024 div 256" "m div 1024 div 256 < 4"
    "(56320 + m mod 1024) div 256 = 220 + unat c div 256 mod 4" "unat c div 256 mod 4 < 4"
    using ar(6,9,10) False by simp_all
  have "map unat (WRITE_UTF16 le c) = unit_bytes le (55296 + m div 1024) @ unit_bytes le (56320 + m mod 1024)"
    using WRITE_UTF16_std [OF v] False by (simp add: utf16_units_def m_def)
  then obtain b0 b1 b2 b3 where b: "WRITE_UTF16 le c = [b0, b1, b2, b3]"
    "[unat b0, unat b1] = unit_bytes le (55296 + m div 1024)" "[unat b2, unat b3] = unit_bytes le (56320 + m mod 1024)"
    by (cases le) (auto simp: unit_bytes_def)
  have "unat (if le then b1 else b0) = 216 + m div 1024 div 256" "unat (if le then b3 else b2) = 220 + unat c div 256 mod 4"
    using b(2,3) u(1,3) by (cases le; auto simp: unit_bytes_def)+
  then show thesis using b(1) u(2,4) by (intro two) auto
qed

lemma bytelen_text:
  assumes "list_all valid_cp cs"
  shows "bytelen_loop (p @ text16 le cs) (int (length (p @ text16 le cs)) - 1) k (length p + (if le then 1 else 0)) =
    Some (length p + length (text16 le (take k cs)) + (if le then 1 else 0))"
  using assms
proof (induction cs arbitrary: p k)
  case Nil
  then show ?case by (simp add: bytelen_loop.simps)
next
  case (Cons c cs)
  define d :: nat where "d = (if le then 1 else 0)"
  define z where "z = p @ text16 le (c # cs)"
  have v: "valid_cp c" using Cons.prems by simp
  show ?case
  proof (cases k)
    case 0
    then show ?thesis by (simp add: bytelen_loop.simps)
  next
    case (Suc j)
    have ih: "bytelen_loop z (int (length z) - 1) j (length p + length (WRITE_UTF16 le c) + d) =
        Some (length p + length (text16 le (take k (c # cs))) + d)"
      using Cons.IH [of "p @ WRITE_UTF16 le c" j] Cons.prems Suc by (simp add: z_def d_def)
    from v have "bytelen_loop z (int (length z) - 1) k (length p + d) =
        bytelen_loop z (int (length z) - 1) j (length p + length (WRITE_UTF16 le c) + d)"
    proof (cases rule: WRITE_UTF16_bytes [where le = le])
      case (one b0 b1)
      define h where "h = (if le then b1 else b0)"
      have "rd z (length p + d) = Some h" by (simp add: z_def d_def h_def one(1) rd_def nth_append)
      moreover have "int (length p + d) \<le> int (length z) - 1" by (simp add: z_def d_def one(1))
      moreover have "\<not> (0xd8 \<le> h \<and> h < 0xdc)"
        using one(2,3) unfolding h_def [symmetric] by (auto simp: word_le_nat_alt word_less_nat_alt)
      ultimately show ?thesis using Suc one(1) by (subst bytelen_loop.simps) auto
    next
      case (two b0 b1 b2 b3)
      define h g where "h = (if le then b1 else b0)" and "g = (if le then b3 else b2)"
      have "rd z (length p + d) = Some h" "rd z (length p + d + 2) = Some g"
        by (simp_all add: z_def d_def h_def g_def two(1) rd_def nth_append)
      moreover have "int (length p + d + 2) \<le> int (length z) - 1" by (simp add: z_def d_def two(1))
      moreover have "0xd8 \<le> h" "h < 0xdc" "0xdc \<le> g" "g < 0xe0"
        using two(2-5) unfolding h_def [symmetric] g_def [symmetric] by (simp_all add: word_le_nat_alt word_less_nat_alt)
      ultimately show ?thesis using Suc two(1) by (subst bytelen_loop.simps) (auto simp: add.commute add.left_commute numeral_eq_Suc)
    qed
    then show ?thesis using ih by (simp add: z_def d_def)
  qed
qed

lemma AppendOne_eq:
  assumes "4 \<le> length zOut"
  shows "sqlite3AppendOneUtf8Character zOut c =
    Some (length (WRITE_UTF8 c), WRITE_UTF8 c @ drop (length (WRITE_UTF8 c)) zOut)"
  using assms by (auto simp: sqlite3AppendOneUtf8Character_def WRITE_UTF8_def mem_put_def)

lemma read_limited_bound:
  assumes "0 < n" "n \<le> length z"
  shows "\<exists>i c. sqlite3Utf8ReadLimited z n = Some (i, c) \<and> 1 \<le> i \<and> i \<le> 4 \<and> i \<le> n"
proof -
  obtain b where b: "rd z 0 = Some b" using assms by (cases z) auto
  let ?m = "(if n > 4 then 4 else n) - 1"
  obtain j c where "utf8_lim_loop z 1 ?m (ucast (sqlite3Utf8Trans1 ! unat (b - 0xc0))) = Some (j, c)" "1 \<le> j" "j \<le> 1 + ?m"
    using lim_loop_bound [of 1 ?m z] assms by fastforce
  then show ?thesis using b assms by (auto simp: sqlite3Utf8ReadLimited_def split: if_splits)
qed

subsection \<open>Properties\<close>

text \<open>C9: the bytes written for a code point are its standard UTF-8 and UTF-16 encodings, and the reading macro and
  \<open>sqlite3Utf8Read\<close> return the code point from the UTF-8 bytes and stop behind them, whatever character follows. This holds for all code points but surrogates and
  U+FFFE, U+FFFF, which are read as U+FFFD.\<close>

theorem utf_char_roundtrip:
  assumes "valid_cp c" "no_cont z"
  shows "map unat (WRITE_UTF8 c) = utf8_std (unat c)
    \<and> map unat (WRITE_UTF16LE c) = concat (map (unit_bytes True) (utf16_units (unat c)))
    \<and> map unat (WRITE_UTF16BE c) = concat (map (unit_bytes False) (utf16_units (unat c)))
    \<and> READ_UTF8 (WRITE_UTF8 c @ z) = Some (c, z)
    \<and> sqlite3Utf8Read (WRITE_UTF8 c @ z @ 0 # r) = Some (c, z @ 0 # r)
    \<and> (4 \<le> length zOut \<longrightarrow> sqlite3AppendOneUtf8Character zOut c =
          Some (length (WRITE_UTF8 c), WRITE_UTF8 c @ drop (length (WRITE_UTF8 c)) zOut))"
proof -
  have "unat c < 0x110000" using assms(1) by (simp add: valid_cp_def)
  moreover have "sqlite3Utf8Read (WRITE_UTF8 c @ z @ 0 # r) = Some (c, z @ 0 # r)"
    using Utf8Read_eq [of "WRITE_UTF8 c @ z" r] READ_WRITE_UTF8 [OF assms] length_WRITE_UTF8(3) [of c] by auto
  ultimately show ?thesis
    using WRITE_UTF8_std [of c] WRITE_UTF16_std [of c True] WRITE_UTF16_std [of c False] READ_WRITE_UTF8 [OF assms]
      AppendOne_eq [of zOut c]
    by (simp add: WRITE_UTF16_def)
qed

theorem utf_char_roundtrip_witness:
  "READ_UTF8 (WRITE_UTF8 0x1F600 @ [0x41]) = Some (0x1F600, [0x41])"
  using utf_char_roundtrip [of "0x1F600" "[0x41]" "[]" "[]"] by (simp add: valid_cp_def no_cont_def)

text \<open>C10: the output buffers of the translation are large enough. Whatever bytes are translated, valid or not, twice
  the number of input bytes suffices for the output in either direction, so no write leaves the allocation.
  The bounded reader uses between one and four bytes and stays inside its bound.\<close>

theorem utf_output_bounds:
  "(\<exists>r. utf8_to_16_loop WRITE_UTF16LE (2 * length x) x [] = Some r)
   \<and> (\<exists>r. utf8_to_16_loop WRITE_UTF16BE (2 * length x) x [] = Some r)
   \<and> (even (length x) \<longrightarrow> (\<exists>r. utf16_to_8_loop le (2 * length x) x [] = Some r))
   \<and> (0 < n \<and> n \<le> length x \<longrightarrow>
        (\<exists>i c. sqlite3Utf8ReadLimited x n = Some (i, c) \<and> 1 \<le> i \<and> i \<le> 4 \<and> i \<le> n))"
proof (intro conjI impI)
  have w: "WRITE_UTF16 True = WRITE_UTF16LE" "WRITE_UTF16 False = WRITE_UTF16BE" by (simp_all add: WRITE_UTF16_def fun_eq_iff)
  show "\<exists>r. utf8_to_16_loop WRITE_UTF16LE (2 * length x) x [] = Some r"
    using to_16_total [of "[]" x "2 * length x" True] by (auto simp: w)
  show "\<exists>r. utf8_to_16_loop WRITE_UTF16BE (2 * length x) x [] = Some r"
    using to_16_total [of "[]" x "2 * length x" False] by (auto simp: w)
  show "even (length x) \<Longrightarrow> \<exists>r. utf16_to_8_loop le (2 * length x) x [] = Some r"
    using to_8_total [of x "[]" "2 * length x" le] by auto
  show "0 < n \<and> n \<le> length x \<Longrightarrow> \<exists>i c. sqlite3Utf8ReadLimited x n = Some (i, c) \<and> 1 \<le> i \<and> i \<le> 4 \<and> i \<le> n"
    by (intro read_limited_bound) simp_all
qed

theorem utf_output_bounds_witness: "\<exists>r. utf16_to_8_loop True (2 * length [0x00, 0xD8 :: u8]) [0x00, 0xD8] [] = Some r"
  using utf_output_bounds [of "[0x00, 0xD8]" True 1] by simp

text \<open>C38: counting. The number of characters of a terminated UTF-8 text is counted correctly, and the number of bytes of the
  first characters of a UTF-16 text in native byte order includes both halves of each surrogate pair.\<close>

theorem utf_lengths:
  assumes "list_all valid_cp cs" "0 \<notin> set cs"
  shows "sqlite3Utf8CharLen (text8 cs @ 0 # r) (-1) = Some (length cs)
    \<and> sqlite3Utf16ByteLen le (text16 le cs) (int (length (text16 le cs))) k = Some (length (text16 le (take k cs)))"
  using charlen_text [OF assms, of r 0] bytelen_text [OF assms(1), of "[]" le k]
  by (cases le) (auto simp: sqlite3Utf8CharLen_def sqlite3Utf16ByteLen_def)

theorem utf_lengths_witness:
  "sqlite3Utf8CharLen (text8 [0x41, 0x1F600] @ 0 # []) (-1) = Some 2
   \<and> sqlite3Utf16ByteLen True (text16 True [0x41, 0x1F600]) (int (length (text16 True [0x41, 0x1F600]))) 2 =
     Some (length (text16 True [0x41, 0x1F600]))"
  using utf_lengths [of "[0x41, 0x1F600]" "[]" True 2] by (simp add: valid_cp_def)

end
