(* ===== verification/Mem_Cell.thy ===== *)
theory Mem_Cell
  imports Utf
begin

text \<open>
  \<^verbatim>\<open>vdbemem.c\<close>: memory cells, the values of the bytecode engine. The
  pointer \<open>z\<close> of a cell is null, the buffer \<open>zMalloc\<close> of the cell, or an external buffer, given by the bytes that
  can be read through it; \<open>zMalloc\<close> is the list of bytes of the allocation, empty after it is freed. The list
  \<open>dels\<close> records the destructors called for the cell. An access out of bounds or through a null pointer makes
  the result \<open>None\<close>, as does an aggregate context, whose finalizer is not modelled.
\<close>

unbundle bit_operations_syntax

subsection \<open>Data\<close>

abbreviation (input) MEM_Undefined :: u16 where "MEM_Undefined \<equiv> 0x0000"
abbreviation (input) MEM_Null :: u16 where "MEM_Null \<equiv> 0x0001"
abbreviation (input) MEM_Str :: u16 where "MEM_Str \<equiv> 0x0002"
abbreviation (input) MEM_Int :: u16 where "MEM_Int \<equiv> 0x0004"
abbreviation (input) MEM_Real :: u16 where "MEM_Real \<equiv> 0x0008"
abbreviation (input) MEM_Blob :: u16 where "MEM_Blob \<equiv> 0x0010"
abbreviation (input) MEM_Term :: u16 where "MEM_Term \<equiv> 0x0200"
abbreviation (input) MEM_Zero :: u16 where "MEM_Zero \<equiv> 0x0400"
abbreviation (input) MEM_Dyn :: u16 where "MEM_Dyn \<equiv> 0x1000"
abbreviation (input) MEM_Static :: u16 where "MEM_Static \<equiv> 0x2000"
abbreviation (input) MEM_Ephem :: u16 where "MEM_Ephem \<equiv> 0x4000"
abbreviation (input) MEM_Agg :: u16 where "MEM_Agg \<equiv> 0x8000"

abbreviation (input) SQLITE_UTF8 :: u8 where "SQLITE_UTF8 \<equiv> 1"
abbreviation (input) SQLITE_UTF16LE :: u8 where "SQLITE_UTF16LE \<equiv> 2"
abbreviation (input) SQLITE_UTF16BE :: u8 where "SQLITE_UTF16BE \<equiv> 3"

text \<open>Destructors: the special values of the interface, the two functions the code compares with, and any other.\<close>

datatype xdel = XStatic | XTransient | XDynamic | XFree | XRCStrUnref | XNoop | XOther nat

datatype MemValue = U_r u64 | U_i u64 | U_nZero int | U_zPType "u8 list" | U_pDef

datatype memz = ZNull | ZMalloc | ZExt "u8 list"

record Mem =
  mu :: MemValue
  mz :: memz
  mn :: nat
  flags :: u16
  enc :: u8
  eSubtype :: u8
  szMalloc :: nat
  zMalloc :: "u8 list"
  xDel :: xdel
  dels :: "xdel list"

definition u_zero :: "MemValue \<Rightarrow> int option" where
  "u_zero v = (case v of U_nZero i \<Rightarrow> Some i | _ \<Rightarrow> None)"

definition zbytes :: "Mem \<Rightarrow> u8 list" where
  "zbytes p = (case mz p of ZNull \<Rightarrow> [] | ZMalloc \<Rightarrow> zMalloc p | ZExt b \<Rightarrow> b)"

definition put_z :: "Mem \<Rightarrow> nat \<Rightarrow> u8 list \<Rightarrow> Mem option" where
  "put_z p i bs =
     (case mz p of
        ZNull \<Rightarrow> None
      | ZMalloc \<Rightarrow> map_option (\<lambda>b. p\<lparr>zMalloc := b\<rparr>) (mem_put (zMalloc p) i bs)
      | ZExt b \<Rightarrow> map_option (\<lambda>b. p\<lparr>mz := ZExt b\<rparr>) (mem_put b i bs))"

definition VdbeMemDynamic :: "Mem \<Rightarrow> bool" where
  "VdbeMemDynamic p \<longleftrightarrow> flags p AND (MEM_Agg OR MEM_Dyn) \<noteq> 0"

text \<open>The allocator: which calls succeed, how many bytes an allocation has, and what new bytes contain.\<close>

record alloc =
  a_ok :: "nat \<Rightarrow> bool"
  a_size :: "nat \<Rightarrow> nat"
  a_junk :: "nat \<Rightarrow> u8"

definition db_malloc :: "alloc \<Rightarrow> nat \<Rightarrow> nat \<Rightarrow> u8 list option" where
  "db_malloc A k m = (if a_ok A k then Some (map (a_junk A) [0..<a_size A m]) else None)"

definition db_realloc :: "alloc \<Rightarrow> nat \<Rightarrow> u8 list \<Rightarrow> nat \<Rightarrow> u8 list option" where
  "db_realloc A k b m =
     (if a_ok A k then Some (take (a_size A m) b @ map (a_junk A) [length b..<a_size A m]) else None)"

subsection \<open>Invariants\<close>

definition ISPOWEROF2 :: "u16 \<Rightarrow> bool" where
  "ISPOWEROF2 x \<longleftrightarrow> x AND (x - 1) = 0"

definition one_if :: "bool \<Rightarrow> nat" where
  "one_if b = (if b then 1 else 0)"

definition sqlite3VdbeCheckMemInvariants :: "Mem \<Rightarrow> bool" where
  "sqlite3VdbeCheckMemInvariants p \<longleftrightarrow>
     (flags p AND MEM_Dyn = 0 \<or> xDel p \<noteq> XStatic)
     \<and> (flags p AND MEM_Dyn = 0 \<or> szMalloc p = 0)
     \<and> ISPOWEROF2 (flags p AND 0x002c)
     \<and> (if flags p AND MEM_Null \<noteq> 0 then
          flags p AND 0x801e = 0
          \<and> (flags p AND 0x0a00 = 0x0a00 \<longrightarrow>
               one_if (flags p AND MEM_Dyn \<noteq> 0) + one_if (flags p AND MEM_Ephem \<noteq> 0)
                 + one_if (flags p AND MEM_Static \<noteq> 0) \<le> 1
               \<and> flags p AND NOT 0x7a41 = 0)
        else flags p AND 0x0100 = 0)
     \<and> (szMalloc p = 0 \<or> flags p = MEM_Undefined \<and> szMalloc p \<le> length (zMalloc p) \<or> szMalloc p = length (zMalloc p))
     \<and> (flags p AND (MEM_Str OR MEM_Blob) \<noteq> 0 \<and> 0 < mn p \<longrightarrow>
          one_if (szMalloc p > 0 \<and> mz p = ZMalloc) + one_if (flags p AND MEM_Dyn \<noteq> 0)
            + one_if (flags p AND MEM_Ephem \<noteq> 0) + one_if (flags p AND MEM_Static \<noteq> 0) = 1)"

subsection \<open>Releasing\<close>

definition vdbeMemClearExternAndSetNull :: "Mem \<Rightarrow> Mem option" where
  "vdbeMemClearExternAndSetNull p =
     (if flags p AND MEM_Agg \<noteq> 0 then None
      else
        let p = (if flags p AND MEM_Dyn \<noteq> 0 then p\<lparr>dels := xDel p # dels p\<rparr> else p) in
        Some (p\<lparr>flags := MEM_Null\<rparr>))"

definition vdbeMemClear :: "Mem \<Rightarrow> Mem option" where
  "vdbeMemClear p = do {
     p \<leftarrow> (if VdbeMemDynamic p then vdbeMemClearExternAndSetNull p else Some p);
     let p = (if szMalloc p \<noteq> 0 then p\<lparr>szMalloc := 0, zMalloc := []\<rparr> else p);
     Some (p\<lparr>mz := ZNull\<rparr>)
   }"

definition sqlite3VdbeMemRelease :: "Mem \<Rightarrow> Mem option" where
  "sqlite3VdbeMemRelease p = (if VdbeMemDynamic p \<or> szMalloc p \<noteq> 0 then vdbeMemClear p else Some p)"

definition sqlite3VdbeMemReleaseMalloc :: "Mem \<Rightarrow> Mem option" where
  "sqlite3VdbeMemReleaseMalloc p = (if szMalloc p \<noteq> 0 then vdbeMemClear p else Some p)"

definition sqlite3VdbeMemSetNull :: "Mem \<Rightarrow> Mem option" where
  "sqlite3VdbeMemSetNull p =
     (if VdbeMemDynamic p then vdbeMemClearExternAndSetNull p else Some (p\<lparr>flags := MEM_Null\<rparr>))"

subsection \<open>Buffers\<close>

text \<open>A result is the return code, the cell and the counter of allocations.\<close>

definition sqlite3VdbeMemGrow :: "alloc \<Rightarrow> nat \<Rightarrow> Mem \<Rightarrow> nat \<Rightarrow> bool \<Rightarrow> (rc \<times> Mem \<times> nat) option" where
  "sqlite3VdbeMemGrow A k p m bPreserve =
     (let own = (szMalloc p > 0 \<and> bPreserve \<and> mz p = ZMalloc) in
      case (if own then db_realloc A k (zMalloc p) m else db_malloc A k m) of
        None \<Rightarrow> do {
          p \<leftarrow> sqlite3VdbeMemSetNull p;
          Some (SQLITE_NOMEM, p\<lparr>mz := ZNull, szMalloc := 0, zMalloc := []\<rparr>, Suc k)
        }
      | Some buf \<Rightarrow> do {
          buf \<leftarrow> (if \<not> own \<and> bPreserve \<and> mz p \<noteq> ZNull
                  then do { src \<leftarrow> mem_get (zbytes p) 0 (mn p); mem_put buf 0 src }
                  else Some buf);
          let p = (if flags p AND MEM_Dyn \<noteq> 0 then p\<lparr>dels := xDel p # dels p\<rparr> else p);
          Some (SQLITE_OK,
            p\<lparr>zMalloc := buf, szMalloc := length buf, mz := ZMalloc,
              flags := flags p AND NOT (MEM_Dyn OR MEM_Ephem OR MEM_Static)\<rparr>, Suc k)
        })"

definition sqlite3VdbeMemClearAndResize :: "alloc \<Rightarrow> nat \<Rightarrow> Mem \<Rightarrow> nat \<Rightarrow> (rc \<times> Mem \<times> nat) option" where
  "sqlite3VdbeMemClearAndResize A k p szNew =
     (if szMalloc p < szNew then sqlite3VdbeMemGrow A k p szNew False
      else Some (SQLITE_OK, p\<lparr>mz := ZMalloc, flags := flags p AND 0x002d\<rparr>, k))"

definition sqlite3VdbeMemZeroTerminateIfAble :: "Mem \<Rightarrow> Mem option" where
  "sqlite3VdbeMemZeroTerminateIfAble p =
     (if flags p AND (MEM_Str OR MEM_Term OR MEM_Ephem OR MEM_Static) \<noteq> MEM_Str then Some p
      else if enc p \<noteq> SQLITE_UTF8 then Some p
      else if flags p AND MEM_Dyn \<noteq> 0 then
        (if xDel p = XFree \<and> length (zbytes p) \<ge> mn p + 1
         then map_option (\<lambda>p. p\<lparr>flags := flags p OR MEM_Term\<rparr>) (put_z p (mn p) [0])
         else if xDel p = XRCStrUnref then Some (p\<lparr>flags := flags p OR MEM_Term\<rparr>)
         else Some p)
      else if szMalloc p \<ge> mn p + 1
        then map_option (\<lambda>p. p\<lparr>flags := flags p OR MEM_Term\<rparr>) (put_z p (mn p) [0])
      else Some p)"

definition vdbeMemAddTerminator :: "alloc \<Rightarrow> nat \<Rightarrow> Mem \<Rightarrow> (rc \<times> Mem \<times> nat) option" where
  "vdbeMemAddTerminator A k p = do {
     (rc, p, k) \<leftarrow> sqlite3VdbeMemGrow A k p (mn p + 3) True;
     if rc \<noteq> SQLITE_OK then Some (SQLITE_NOMEM, p, k)
     else do {
       p \<leftarrow> put_z p (mn p) [0, 0, 0];
       Some (SQLITE_OK, p\<lparr>flags := flags p OR MEM_Term\<rparr>, k)
     }
   }"

definition sqlite3VdbeMemExpandBlob :: "alloc \<Rightarrow> nat \<Rightarrow> Mem \<Rightarrow> (rc \<times> Mem \<times> nat) option" where
  "sqlite3VdbeMemExpandBlob A k p = do {
     nZero \<leftarrow> u_zero (mu p);
     if nZero < 0 then None
     else
       let nByte = mn p + nat nZero in
       if nByte = 0 \<and> flags p AND MEM_Blob = 0 then Some (SQLITE_OK, p, k)
       else do {
         (rc, p, k) \<leftarrow> sqlite3VdbeMemGrow A k p (if nByte = 0 then 1 else nByte) True;
         if rc \<noteq> SQLITE_OK then Some (SQLITE_NOMEM, p, k)
         else do {
           p \<leftarrow> put_z p (mn p) (replicate (nat nZero) 0);
           Some (SQLITE_OK, p\<lparr>mn := mn p + nat nZero, flags := flags p AND NOT (MEM_Zero OR MEM_Term)\<rparr>, k)
         }
       }
   }"

definition ExpandBlob :: "alloc \<Rightarrow> nat \<Rightarrow> Mem \<Rightarrow> (rc \<times> Mem \<times> nat) option" where
  "ExpandBlob A k p = (if flags p AND MEM_Zero \<noteq> 0 then sqlite3VdbeMemExpandBlob A k p else Some (0, p, k))"

definition sqlite3VdbeMemMakeWriteable :: "alloc \<Rightarrow> nat \<Rightarrow> Mem \<Rightarrow> (rc \<times> Mem \<times> nat) option" where
  "sqlite3VdbeMemMakeWriteable A k p = do {
     (rc, p, k) \<leftarrow>
       (if flags p AND (MEM_Str OR MEM_Blob) \<noteq> 0 then do {
          (rc, p, k) \<leftarrow> ExpandBlob A k p;
          if rc \<noteq> 0 then Some (SQLITE_NOMEM, p, k)
          else if szMalloc p = 0 \<or> mz p \<noteq> ZMalloc then vdbeMemAddTerminator A k p
          else Some (SQLITE_OK, p, k)
        } else Some (SQLITE_OK, p, k));
     if rc \<noteq> SQLITE_OK then Some (rc, p, k)
     else Some (SQLITE_OK, p\<lparr>flags := flags p AND NOT MEM_Ephem\<rparr>, k)
   }"

definition sqlite3VdbeMemNulTerminate :: "alloc \<Rightarrow> nat \<Rightarrow> Mem \<Rightarrow> (rc \<times> Mem \<times> nat) option" where
  "sqlite3VdbeMemNulTerminate A k p =
     (if flags p AND (MEM_Term OR MEM_Str) \<noteq> MEM_Str then Some (SQLITE_OK, p, k)
      else vdbeMemAddTerminator A k p)"

subsection \<open>Setting and copying\<close>

definition sqlite3VdbeMemInit :: "Mem \<Rightarrow> u16 \<Rightarrow> Mem" where
  "sqlite3VdbeMemInit p f = p\<lparr>flags := f, szMalloc := 0\<rparr>"

definition sqlite3VdbeMemSetZeroBlob :: "Mem \<Rightarrow> int \<Rightarrow> Mem option" where
  "sqlite3VdbeMemSetZeroBlob p m =
     map_option (\<lambda>p. p\<lparr>flags := MEM_Blob OR MEM_Zero, mn := 0, mu := U_nZero (if m < 0 then 0 else m),
        enc := SQLITE_UTF8, mz := ZNull\<rparr>) (sqlite3VdbeMemRelease p)"

definition vdbeReleaseAndSetInt64 :: "Mem \<Rightarrow> u64 \<Rightarrow> Mem option" where
  "vdbeReleaseAndSetInt64 p val =
     map_option (\<lambda>p. p\<lparr>mu := U_i val, flags := MEM_Int\<rparr>) (sqlite3VdbeMemSetNull p)"

definition sqlite3VdbeMemSetInt64 :: "Mem \<Rightarrow> u64 \<Rightarrow> Mem option" where
  "sqlite3VdbeMemSetInt64 p val =
     (if VdbeMemDynamic p then vdbeReleaseAndSetInt64 p val else Some (p\<lparr>mu := U_i val, flags := MEM_Int\<rparr>))"

definition sqlite3VdbeMemSetPointer :: "Mem \<Rightarrow> u8 list \<Rightarrow> u8 list option \<Rightarrow> xdel option \<Rightarrow> Mem option" where
  "sqlite3VdbeMemSetPointer p pPtr zPType xDestructor =
     map_option (\<lambda>p. p\<lparr>mu := U_zPType (case zPType of Some t \<Rightarrow> t | None \<Rightarrow> [0]), mz := ZExt pPtr, flags := 0x1a01,
        eSubtype := 112, xDel := (case xDestructor of Some x \<Rightarrow> x | None \<Rightarrow> XNoop)\<rparr>) (vdbeMemClear p)"

definition sqlite3VdbeMemTooBig :: "int \<Rightarrow> Mem \<Rightarrow> bool option" where
  "sqlite3VdbeMemTooBig limit p =
     (if flags p AND (MEM_Str OR MEM_Blob) \<noteq> 0 then do {
        m \<leftarrow> (if flags p AND MEM_Zero \<noteq> 0 then map_option (\<lambda>i. int (mn p) + i) (u_zero (mu p)) else Some (int (mn p)));
        Some (m > limit)
      } else Some False)"

text \<open>The fields copied by a shallow copy; a pointer to the buffer of the source is external to the target.\<close>

definition cell_copy :: "Mem \<Rightarrow> Mem \<Rightarrow> Mem" where
  "cell_copy pTo pFrom =
     pTo\<lparr>mu := mu pFrom, mz := (if mz pFrom = ZMalloc then ZExt (zMalloc pFrom) else mz pFrom), mn := mn pFrom,
        flags := flags pFrom, enc := enc pFrom, eSubtype := eSubtype pFrom\<rparr>"

definition sqlite3VdbeMemShallowCopy :: "Mem \<Rightarrow> Mem \<Rightarrow> u16 \<Rightarrow> Mem option" where
  "sqlite3VdbeMemShallowCopy pTo pFrom srcType = do {
     pTo \<leftarrow> (if VdbeMemDynamic pTo then vdbeMemClearExternAndSetNull pTo else Some pTo);
     let pTo = cell_copy pTo pFrom;
     Some (if flags pFrom AND MEM_Static = 0
           then pTo\<lparr>flags := (flags pTo AND NOT (MEM_Dyn OR MEM_Static OR MEM_Ephem)) OR srcType\<rparr> else pTo)
   }"

definition sqlite3VdbeMemCopy :: "alloc \<Rightarrow> nat \<Rightarrow> Mem \<Rightarrow> Mem \<Rightarrow> (rc \<times> Mem \<times> nat) option" where
  "sqlite3VdbeMemCopy A k pTo pFrom = do {
     pTo \<leftarrow> (if VdbeMemDynamic pTo then vdbeMemClearExternAndSetNull pTo else Some pTo);
     let pTo = cell_copy pTo pFrom;
     let pTo = pTo\<lparr>flags := flags pTo AND NOT MEM_Dyn\<rparr>;
     if flags pTo AND (MEM_Str OR MEM_Blob) \<noteq> 0 \<and> flags pFrom AND MEM_Static = 0
     then sqlite3VdbeMemMakeWriteable A k (pTo\<lparr>flags := flags pTo OR MEM_Ephem\<rparr>)
     else Some (SQLITE_OK, pTo, k)
   }"

definition sqlite3VdbeMemMove :: "Mem \<Rightarrow> Mem \<Rightarrow> (Mem \<times> Mem) option" where
  "sqlite3VdbeMemMove pTo pFrom =
     map_option (\<lambda>q. (pFrom\<lparr>dels := dels q\<rparr>, pFrom\<lparr>flags := MEM_Null, szMalloc := 0\<rparr>)) (sqlite3VdbeMemRelease pTo)"

subsection \<open>Flags\<close>

named_theorems flag_tests \<open>tests of the flag word as statements on its bits\<close>

lemma mask_tests [flag_tests]:
  "x AND 0x1 = 0 \<longleftrightarrow> \<not> bit x 0" "x AND 0x2 = 0 \<longleftrightarrow> \<not> bit x 1" "x AND 0x10 = 0 \<longleftrightarrow> \<not> bit x 4"
  "x AND 0x100 = 0 \<longleftrightarrow> \<not> bit x 8" "x AND 0x200 = 0 \<longleftrightarrow> \<not> bit x 9" "x AND 0x400 = 0 \<longleftrightarrow> \<not> bit x 10"
  "x AND 0x1000 = 0 \<longleftrightarrow> \<not> bit x 12" "x AND 0x2000 = 0 \<longleftrightarrow> \<not> bit x 13" "x AND 0x4000 = 0 \<longleftrightarrow> \<not> bit x 14"
  "x AND 0x8000 = 0 \<longleftrightarrow> \<not> bit x 15" "x AND 0x9000 = 0 \<longleftrightarrow> \<not> bit x 12 \<and> \<not> bit x 15"
  "x AND 0x12 = 0 \<longleftrightarrow> \<not> bit x 1 \<and> \<not> bit x 4"
  "x AND 0x801e = 0 \<longleftrightarrow> \<not> bit x 1 \<and> \<not> bit x 2 \<and> \<not> bit x 3 \<and> \<not> bit x 4 \<and> \<not> bit x 15"
  for x :: u16
  unfolding word_eq_bits by (simp_all add: word_bits)

lemma value_tests [flag_tests]:
  "x AND 0x6202 = 2 \<longleftrightarrow> bit x 1 \<and> \<not> bit x 9 \<and> \<not> bit x 13 \<and> \<not> bit x 14"
  "x AND 0x202 = 2 \<longleftrightarrow> bit x 1 \<and> \<not> bit x 9" "x AND 0xa00 = 0xa00 \<longleftrightarrow> bit x 9 \<and> bit x 11"
  for x :: u16
  unfolding word_eq_bits by (auto simp add: word_bits)

lemma pointer_test [flag_tests]:
  "x AND NOT 0x7a41 = 0 \<longleftrightarrow> (\<forall>i \<in> {1, 2, 3, 4, 5, 7, 8, 10, 15}. \<not> bit x i)" for x :: u16
  unfolding word_eq_bits by (auto simp add: word_bits)

lemma ispow_test [flag_tests]:
  "ISPOWEROF2 (x AND 0x2c) \<longleftrightarrow> \<not> (bit x 2 \<and> bit x 3) \<and> \<not> (bit x 2 \<and> bit x 5) \<and> \<not> (bit x 3 \<and> bit x 5)"
proof -
  define y where "y = x AND 0x2c"
  have b: "bit y 2 = bit x 2" "bit y 3 = bit x 3" "bit y 5 = bit x 5" by (simp_all add: y_def word_bits)
  have "y = (if bit x 2 then 4 else 0) OR (if bit x 3 then 8 else 0) OR (if bit x 5 then 0x20 else 0)"
    unfolding word_eq_bits y_def by (simp add: word_bits)
  then show ?thesis unfolding y_def [symmetric] ISPOWEROF2_def by (auto split: if_splits)
qed

lemmas flag_bits = flag_tests word_bits

named_theorems flag_upd \<open>bits of an updated flag word\<close>

lemma u16_nats: "(\<forall>i \<in> set [0..<16]. P i) \<Longrightarrow> (\<And>i. 16 \<le> i \<Longrightarrow> P i) \<Longrightarrow> P i"
  using linorder_not_le [of 16 i] by (cases "16 \<le> i") auto

lemma numeral_bits:
  "bit (0x7000 :: u16) i \<longleftrightarrow> i = 12 \<or> i = 13 \<or> i = 14" "bit (0x200 :: u16) i \<longleftrightarrow> i = 9"
  "bit (0x600 :: u16) i \<longleftrightarrow> i = 9 \<or> i = 10" "bit (0x4000 :: u16) i \<longleftrightarrow> i = 14" "bit (0x1000 :: u16) i \<longleftrightarrow> i = 12"
  "bit (0x2000 :: u16) i \<longleftrightarrow> i = 13" "bit (0x2d :: u16) i \<longleftrightarrow> i = 0 \<or> i = 2 \<or> i = 3 \<or> i = 5"
  "bit (0x83f :: u16) i \<longleftrightarrow> i = 0 \<or> i = 1 \<or> i = 2 \<or> i = 3 \<or> i = 4 \<or> i = 5 \<or> i = 11"
  "bit (0x202 :: u16) i \<longleftrightarrow> i = 1 \<or> i = 9" "bit (1 :: u16) i \<longleftrightarrow> i = 0" "bit (2 :: u16) i \<longleftrightarrow> i = 1"
  "bit (0x10 :: u16) i \<longleftrightarrow> i = 4" "bit (0x410 :: u16) i \<longleftrightarrow> i = 4 \<or> i = 10" "bit (4 :: u16) i \<longleftrightarrow> i = 2"
  by ((rule u16_nats [of _ i], simp add: upt_0_16, use u16_bit_ge in auto)[1])+

lemma flag_upd_bits [flag_upd]:
  "bit (f AND NOT m) i \<longleftrightarrow> bit f i \<and> \<not> bit m i" "bit (f OR m) i \<longleftrightarrow> bit f i \<or> bit m i"
  "bit (f AND m) i \<longleftrightarrow> bit f i \<and> bit m i" for f m :: u16
  by (auto simp: bit_simps) (metis u16_bit_ge linorder_not_le)?

lemmas [flag_upd] = numeral_bits

subsection \<open>Well-formed cells\<close>

definition alloc_ok :: "alloc \<Rightarrow> bool" where
  "alloc_ok A \<longleftrightarrow> (\<forall>m. m \<le> a_size A m)"

text \<open>Bits of the flag word, by their names in the source.\<close>

abbreviation isNull :: "u16 \<Rightarrow> bool" where "isNull f \<equiv> bit f 0"
abbreviation isStr :: "u16 \<Rightarrow> bool" where "isStr f \<equiv> bit f (Suc 0)"
abbreviation isBlob :: "u16 \<Rightarrow> bool" where "isBlob f \<equiv> bit f 4"
abbreviation isTerm :: "u16 \<Rightarrow> bool" where "isTerm f \<equiv> bit f 9"
abbreviation isZero :: "u16 \<Rightarrow> bool" where "isZero f \<equiv> bit f 10"
abbreviation isDyn :: "u16 \<Rightarrow> bool" where "isDyn f \<equiv> bit f 12"
abbreviation isStatic :: "u16 \<Rightarrow> bool" where "isStatic f \<equiv> bit f 13"
abbreviation isEphem :: "u16 \<Rightarrow> bool" where "isEphem f \<equiv> bit f 14"
abbreviation isAgg :: "u16 \<Rightarrow> bool" where "isAgg f \<equiv> bit f 15"

definition flag_base :: "u16 \<Rightarrow> bool" where
  "flag_base f \<longleftrightarrow> \<not> isAgg f \<and> \<not> (bit f 2 \<and> bit f 3) \<and> \<not> (bit f 2 \<and> bit f 5) \<and> \<not> (bit f 3 \<and> bit f 5)
     \<and> (isNull f \<longrightarrow> \<not> isStr f \<and> \<not> bit f 2 \<and> \<not> bit f 3 \<and> \<not> isBlob f)
     \<and> (\<not> isNull f \<longrightarrow> \<not> bit f 8)
     \<and> (isNull f \<and> isTerm f \<and> bit f 11 \<longrightarrow>
          \<not> bit f 5 \<and> \<not> bit f 7 \<and> \<not> bit f 8 \<and> \<not> isZero f
          \<and> one_if (isDyn f) + one_if (isEphem f) + one_if (isStatic f) \<le> 1)"

definition place_ok :: "Mem \<Rightarrow> bool" where
  "place_ok p \<longleftrightarrow>
     (isDyn (flags p) \<longrightarrow> xDel p \<noteq> XStatic \<and> szMalloc p = 0)
     \<and> (0 < szMalloc p \<longrightarrow> szMalloc p = length (zMalloc p))
     \<and> ((isStr (flags p) \<or> isBlob (flags p)) \<and> mz p = ZMalloc \<longrightarrow>
          0 < szMalloc p \<and> \<not> isDyn (flags p) \<and> \<not> isStatic (flags p) \<and> \<not> isEphem (flags p))
     \<and> (isStr (flags p) \<and> \<not> isDyn (flags p) \<and> \<not> isStatic (flags p) \<and> \<not> isEphem (flags p) \<longrightarrow> mz p = ZMalloc)
     \<and> ((isStr (flags p) \<or> isBlob (flags p)) \<and> 0 < mn p \<longrightarrow>
          one_if (mz p = ZMalloc) + one_if (isDyn (flags p)) + one_if (isEphem (flags p))
            + one_if (isStatic (flags p)) = 1)"

definition terminated :: "Mem \<Rightarrow> bool" where
  "terminated p \<longleftrightarrow> (\<exists>r. drop (mn p) (zbytes p) = (if enc p = 1 then [0] else [0, 0]) @ r)"

definition value_ok :: "Mem \<Rightarrow> bool" where
  "value_ok p \<longleftrightarrow>
     (isStr (flags p) \<or> isBlob (flags p) \<longrightarrow> mn p \<le> length (zbytes p))
     \<and> (isZero (flags p) \<and> isBlob (flags p) \<longrightarrow> (\<exists>i. u_zero (mu p) = Some i \<and> 0 \<le> i))
     \<and> (isZero (flags p) \<longrightarrow> \<not> isStr (flags p))
     \<and> (isStr (flags p) \<longrightarrow> enc p \<in> {1, 2, 3} \<and> (enc p \<noteq> 1 \<longrightarrow> even (mn p)))
     \<and> (isStr (flags p) \<and> (isTerm (flags p) \<or> isDyn (flags p) \<and> xDel p = XRCStrUnref) \<longrightarrow> terminated p)"

definition mem_ok :: "Mem \<Rightarrow> bool" where
  "mem_ok p \<longleftrightarrow> flag_base (flags p) \<and> place_ok p \<and> value_ok p"

text \<open>These conditions include the assertions of the source.\<close>

lemma mem_ok_invariants:
  assumes "mem_ok p"
  shows "sqlite3VdbeCheckMemInvariants p"
proof -
  have f: "flag_base (flags p)" and pl: "place_ok p" using assms by (simp_all add: mem_ok_def)
  have or12: "(MEM_Str OR MEM_Blob :: u16) = 0x12" by simp
  have own: "(isStr (flags p) \<or> isBlob (flags p)) \<and> 0 < mn p \<longrightarrow>
      one_if (szMalloc p > 0 \<and> mz p = ZMalloc) + one_if (isDyn (flags p)) + one_if (isEphem (flags p))
        + one_if (isStatic (flags p)) = 1"
  proof
    assume s: "(isStr (flags p) \<or> isBlob (flags p)) \<and> 0 < mn p"
    then have "mz p = ZMalloc \<Longrightarrow> szMalloc p > 0" using pl unfolding place_ok_def by blast
    then have eq: "(szMalloc p > 0 \<and> mz p = ZMalloc) = (mz p = ZMalloc)" by blast
    show "one_if (szMalloc p > 0 \<and> mz p = ZMalloc) + one_if (isDyn (flags p)) + one_if (isEphem (flags p))
        + one_if (isStatic (flags p)) = 1" unfolding eq using pl s unfolding place_ok_def by blast
  qed
  have size: "szMalloc p = 0 \<or> szMalloc p = length (zMalloc p)" using pl unfolding place_ok_def by blast
  show ?thesis
    unfolding sqlite3VdbeCheckMemInvariants_def or12 flag_tests
  proof (intro conjI)
    show "if \<not> \<not> isNull (flags p)
      then (\<not> bit (flags p) 1 \<and> \<not> bit (flags p) 2 \<and> \<not> bit (flags p) 3 \<and> \<not> isBlob (flags p) \<and> \<not> isAgg (flags p))
        \<and> (isTerm (flags p) \<and> bit (flags p) 11 \<longrightarrow>
            one_if (\<not> \<not> isDyn (flags p)) + one_if (\<not> \<not> isEphem (flags p)) + one_if (\<not> \<not> isStatic (flags p)) \<le> 1
            \<and> (\<forall>i \<in> {1, 2, 3, 4, 5, 7, 8, 10, 15}. \<not> bit (flags p) i))
      else \<not> bit (flags p) 8"
      using f unfolding flag_base_def by (cases "isNull (flags p)") simp_all
    show "szMalloc p = 0 \<or> flags p = 0 \<and> szMalloc p \<le> length (zMalloc p) \<or> szMalloc p = length (zMalloc p)"
      using size by blast
    have dyn: "isDyn (flags p) \<longrightarrow> xDel p \<noteq> XStatic \<and> szMalloc p = 0"
      using pl unfolding place_ok_def by (elim conjE)
    show "\<not> isDyn (flags p) \<or> xDel p \<noteq> XStatic" using dyn by simp
    show "\<not> isDyn (flags p) \<or> szMalloc p = 0" using dyn by simp
    show "\<not> (bit (flags p) 2 \<and> bit (flags p) 3)" using f unfolding flag_base_def by blast
    show "\<not> (bit (flags p) 2 \<and> bit (flags p) 5)" using f unfolding flag_base_def by blast
    show "\<not> (bit (flags p) 3 \<and> bit (flags p) 5)" using f unfolding flag_base_def by blast
  qed (use own in simp)
qed

text \<open>The bytes of a string or blob, with the zeros of an unexpanded tail.\<close>

definition zero_tail :: "Mem \<Rightarrow> nat" where
  "zero_tail p = (if isZero (flags p) \<and> isBlob (flags p) then nat (the (u_zero (mu p))) else 0)"

definition mem_bytes :: "Mem \<Rightarrow> u8 list" where
  "mem_bytes p = take (mn p) (zbytes p) @ replicate (zero_tail p) 0"

text \<open>A cell in its own buffer.\<close>

definition owned :: "Mem \<Rightarrow> bool" where
  "owned p \<longleftrightarrow> mz p = ZMalloc \<and> 0 < szMalloc p \<and> szMalloc p = length (zMalloc p)
     \<and> \<not> isDyn (flags p) \<and> \<not> isStatic (flags p) \<and> \<not> isEphem (flags p)"

lemma owned_place: "owned p \<Longrightarrow> place_ok p"
  by (auto simp: owned_def place_ok_def one_if_def)

text \<open>A cell whose value was given up after a failed allocation.\<close>

definition nulled :: "Mem \<Rightarrow> bool" where
  "nulled p \<longleftrightarrow> flags p = MEM_Null \<and> mz p = ZNull \<and> szMalloc p = 0"

lemma null_ok:
  assumes "flags p = 1" "0 < szMalloc p \<longrightarrow> szMalloc p = length (zMalloc p)"
  shows "mem_ok p"
  using assms by (auto simp: mem_ok_def flag_base_def place_ok_def value_ok_def flag_upd)

lemma nulled_ok: "nulled p \<Longrightarrow> mem_ok p"
  by (rule null_ok) (auto simp: nulled_def)

lemma flag_base_clear: "flag_base f \<Longrightarrow> flag_base (f AND NOT 0x7000)"
  unfolding flag_base_def flag_upd by (auto simp: one_if_def)

lemma flag_base_term: "\<lbrakk>flag_base f; \<not> isNull f\<rbrakk> \<Longrightarrow> flag_base (f OR 0x200)"
  unfolding flag_base_def flag_upd by auto

lemma flag_base_expand: "flag_base f \<Longrightarrow> \<not> isNull f \<Longrightarrow> flag_base (f AND NOT 0x600)"
  unfolding flag_base_def flag_upd by auto

lemma str_not_null: "flag_base f \<Longrightarrow> isStr f \<or> isBlob f \<Longrightarrow> \<not> isNull f"
  by (auto simp: flag_base_def)

subsection \<open>Releasing and growing\<close>

lemma dynamic_iff: "mem_ok p \<Longrightarrow> VdbeMemDynamic p \<longleftrightarrow> isDyn (flags p)"
  by (simp add: VdbeMemDynamic_def flag_tests mem_ok_def flag_base_def)

lemma clear_extern_ok:
  "mem_ok p \<Longrightarrow> vdbeMemClearExternAndSetNull p =
     Some (p\<lparr>dels := (if isDyn (flags p) then xDel p # dels p else dels p), flags := 1\<rparr>)"
  by (cases p) (simp add: vdbeMemClearExternAndSetNull_def flag_tests mem_ok_def flag_base_def Let_def)

lemma set_null_ok:
  "mem_ok p \<Longrightarrow> sqlite3VdbeMemSetNull p =
     Some (p\<lparr>dels := (if isDyn (flags p) then xDel p # dels p else dels p), flags := 1\<rparr>)"
  by (cases p) (simp add: sqlite3VdbeMemSetNull_def dynamic_iff clear_extern_ok)

lemma release_ok:
  assumes "mem_ok p"
  shows "\<exists>q. sqlite3VdbeMemRelease p = Some q \<and> szMalloc q = 0 \<and> mn q = mn p \<and> mu q = mu p \<and> enc q = enc p
    \<and> dels q = (if isDyn (flags p) then xDel p # dels p else dels p)"
  using assms
  by (auto simp: sqlite3VdbeMemRelease_def vdbeMemClear_def dynamic_iff clear_extern_ok Let_def)

lemma db_malloc_length: "alloc_ok A \<Longrightarrow> db_malloc A k m = Some b \<Longrightarrow> m \<le> length b"
  by (auto simp: db_malloc_def alloc_ok_def split: if_splits)

lemma db_realloc_prefix:
  assumes "alloc_ok A" "db_realloc A k b m = Some c"
  shows "m \<le> length c" "i \<le> m \<Longrightarrow> i \<le> length b \<Longrightarrow> take i c = take i b"
proof -
  have c: "c = take (a_size A m) b @ map (a_junk A) [length b..<a_size A m]" "m \<le> a_size A m"
    using assms by (auto simp: db_realloc_def alloc_ok_def split: if_splits)
  then show "m \<le> length c" by simp
  show "take i c = take i b" if "i \<le> m" "i \<le> length b" using that c by (simp add: min_def)
qed

text \<open>The cell after a successful enlargement to at least \<open>m\<close> bytes.\<close>

definition grown :: "Mem \<Rightarrow> nat \<Rightarrow> bool \<Rightarrow> Mem \<Rightarrow> bool" where
  "grown p m pr q \<longleftrightarrow> owned q \<and> m \<le> szMalloc q \<and> (pr \<longrightarrow> take (mn p) (zMalloc q) = take (mn p) (zbytes p))
     \<and> flags q = flags p AND NOT 0x7000 \<and> mn q = mn p \<and> mu q = mu p \<and> enc q = enc p \<and> eSubtype q = eSubtype p
     \<and> dels q = (if isDyn (flags p) then xDel p # dels p else dels p)"

lemma grow_ok:
  assumes p: "mem_ok p" and A: "alloc_ok A" and m: "0 < m"
    and v: "pr \<Longrightarrow> mn p \<le> m \<and> mn p \<le> length (zbytes p)"
  shows "\<exists>rc q. sqlite3VdbeMemGrow A k p m pr = Some (rc, q, Suc k)
    \<and> (if a_ok A k then rc = 0 \<and> grown p m pr q else rc = SQLITE_NOMEM \<and> nulled q)"
proof -
  define own where "own = (szMalloc p > 0 \<and> pr \<and> mz p = ZMalloc)"
  have or: "(MEM_Dyn OR MEM_Ephem OR MEM_Static :: u16) = 0x7000" by simp
  show ?thesis
  proof (cases "a_ok A k")
    case False
    then have "(if own then db_realloc A k (zMalloc p) m else db_malloc A k m) = None"
      by (simp add: db_realloc_def db_malloc_def)
    then show ?thesis using False set_null_ok [OF p]
      by (simp add: sqlite3VdbeMemGrow_def own_def [symmetric] nulled_def)
  next
    case True
    then have "(if own then db_realloc A k (zMalloc p) m else db_malloc A k m) \<noteq> None"
      by (simp add: db_realloc_def db_malloc_def)
    then obtain b where b: "(if own then db_realloc A k (zMalloc p) m else db_malloc A k m) = Some b" by blast
    have lb: "m \<le> length b" using b db_malloc_length [OF A] db_realloc_prefix(1) [OF A] by (auto split: if_splits)
    have "\<exists>c. (if \<not> own \<and> pr \<and> mz p \<noteq> ZNull then do { src \<leftarrow> mem_get (zbytes p) 0 (mn p); mem_put b 0 src } else Some b) = Some c
        \<and> length c = length b \<and> (pr \<longrightarrow> take (mn p) c = take (mn p) (zbytes p))"
    proof (cases "\<not> own \<and> pr \<and> mz p \<noteq> ZNull")
      case True
      then have "mn p \<le> length (zbytes p)" "mn p \<le> length b" using v lb by auto
      then show ?thesis using True by (auto simp: mem_get_def mem_put_def)
    next
      case False
      have "take (mn p) b = take (mn p) (zbytes p)" if pr: pr
      proof (cases own)
        case True
        then have "zbytes p = zMalloc p" by (simp add: own_def zbytes_def)
        then show ?thesis using db_realloc_prefix(2) [OF A, of k "zMalloc p" m b "mn p"] b True v [OF pr] by simp
      next
        case own: False
        then have "zbytes p = []" using False pr by (simp add: zbytes_def)
        then show ?thesis using v [OF pr] by simp
      qed
      then show ?thesis using False by auto
    qed
    then obtain c where c: "(if \<not> own \<and> pr \<and> mz p \<noteq> ZNull then do { src \<leftarrow> mem_get (zbytes p) 0 (mn p); mem_put b 0 src } else Some b) = Some c"
      "length c = length b" "pr \<longrightarrow> take (mn p) c = take (mn p) (zbytes p)" by blast
    have "c \<noteq> []" "b \<noteq> []" using c(2) lb m by auto
    then show ?thesis using True b c lb
      unfolding sqlite3VdbeMemGrow_def own_def [symmetric] or
      by (simp add: Let_def grown_def owned_def flag_tests flag_upd)
  qed
qed

subsection \<open>Terminators and zero tails\<close>

lemma put_z_own:
  assumes "mz q = ZMalloc" "i + length bs \<le> length (zMalloc q)"
  shows "put_z q i bs = Some (q\<lparr>zMalloc := take i (zMalloc q) @ bs @ drop (i + length bs) (zMalloc q)\<rparr>)"
  using assms by (simp add: put_z_def mem_put_def)

text \<open>The flags that say what a value is, all but \<open>MEM_Term\<close>, \<open>MEM_Zero\<close>, \<open>MEM_Dyn\<close>, \<open>MEM_Static\<close> and
  \<open>MEM_Ephem\<close>, which say how its bytes are stored.\<close>

definition same_kind :: "u16 \<Rightarrow> u16 \<Rightarrow> bool" where
  "same_kind f g \<longleftrightarrow> f AND 0x89ff = g AND 0x89ff"

lemma same_kind_upd [flag_upd]:
  "m AND 0x89ff = 0x89ff \<Longrightarrow> same_kind (f AND m) g = same_kind f g"
  "m AND 0x89ff = 0 \<Longrightarrow> same_kind (f OR m) g = same_kind f g"
  "same_kind f f"
  by (simp_all add: same_kind_def and.assoc bit.conj_disj_distrib2)

text \<open>What an operation that keeps the value ensures: the value is kept, of the same kind and in the same encoding,
  or the allocation failed and the cell is null.\<close>

definition keeps :: "Mem \<Rightarrow> Mem \<Rightarrow> bool" where
  "keeps p q \<longleftrightarrow> mem_ok q \<and> mem_bytes q = mem_bytes p \<and> enc q = enc p
     \<and> isStr (flags q) = isStr (flags p) \<and> isBlob (flags q) = isBlob (flags p)
     \<and> mu q = mu p \<and> eSubtype q = eSubtype p \<and> same_kind (flags q) (flags p)"

lemma keeps_refl: "mem_ok p \<Longrightarrow> keeps p p"
  by (simp add: keeps_def same_kind_def)

lemma keeps_trans: "\<lbrakk>keeps p q; keeps q r\<rbrakk> \<Longrightarrow> keeps p r"
  by (simp add: keeps_def same_kind_def)

lemma add_terminator_ok:
  assumes p: "mem_ok p" and A: "alloc_ok A" and s: "isStr (flags p) \<or> isBlob (flags p)" and nz: "\<not> isZero (flags p)"
  shows "\<exists>rc q. vdbeMemAddTerminator A k p = Some (rc, q, Suc k)
    \<and> (if a_ok A k then rc = 0 \<and> keeps p q \<and> owned q \<and> isTerm (flags q) \<and> terminated q
         \<and> dels q = (if isDyn (flags p) then xDel p # dels p else dels p) \<and> \<not> isZero (flags q)
       else rc = SQLITE_NOMEM \<and> nulled q)"
proof -
  have v: "value_ok p" and f: "flag_base (flags p)" using p by (simp_all add: mem_ok_def)
  have n: "mn p \<le> length (zbytes p)" using v s by (simp add: value_ok_def)
  obtain rc q where g: "sqlite3VdbeMemGrow A k p (mn p + 3) True = Some (rc, q, Suc k)"
    "if a_ok A k then rc = 0 \<and> grown p (mn p + 3) True q else rc = SQLITE_NOMEM \<and> nulled q"
    using grow_ok [OF p A, of "mn p + 3" True k] n by auto
  show ?thesis
  proof (cases "a_ok A k")
    case False
    then show ?thesis using g by (simp add: vdbeMemAddTerminator_def)
  next
    case True
    then have q: "rc = 0" "owned q" "mn p + 3 \<le> szMalloc q" "take (mn p) (zMalloc q) = take (mn p) (zbytes p)"
      "flags q = flags p AND NOT 0x7000" "mn q = mn p" "mu q = mu p" "enc q = enc p"
      "dels q = (if isDyn (flags p) then xDel p # dels p else dels p)" "eSubtype q = eSubtype p" using g(2) by (simp_all add: grown_def)
    define b where "b = take (mn p) (zMalloc q) @ [0, 0, 0] @ drop (mn p + 3) (zMalloc q)"
    define r where "r = q\<lparr>zMalloc := b, flags := flags q OR 0x200\<rparr>"
    have lq: "mn p + 3 \<le> length (zMalloc q)" using q(2,3) by (simp add: owned_def)
    have "put_z q (mn q) [0, 0, 0] = Some (q\<lparr>zMalloc := b\<rparr>)"
      using put_z_own [of q "mn q" "[0, 0, 0]"] q(2,6) lq by (simp add: owned_def b_def numeral_3_eq_3)
    then have run: "vdbeMemAddTerminator A k p = Some (0, r, Suc k)"
      using g(1) q(1) by (simp add: vdbeMemAddTerminator_def r_def)
    have lb: "length b = length (zMalloc q)" using lq by (simp add: b_def)
    have fr: "flags r = (flags p AND NOT 0x7000) OR 0x200" using q(5) by (simp add: r_def)
    have own: "owned r" using q(2) lb unfolding owned_def fr by (auto simp: r_def flag_upd)
    have zb: "zbytes r = b" using own by (simp add: zbytes_def owned_def r_def)
    have mnr: "mn r = mn p" "enc r = enc p" "mu r = mu p" "eSubtype r = eSubtype p" using q by (simp_all add: r_def)
    have dr: "drop (mn r) b = [0, 0, 0] @ drop (mn p + 3) (zMalloc q)" using lq mnr by (simp add: b_def)
    have tm: "terminated r" unfolding terminated_def zb dr by simp
    have bytes: "mem_bytes r = mem_bytes p"
      using q(4) lq nz n unfolding mem_bytes_def zero_tail_def zb fr mnr by (simp add: b_def flag_upd)
    have "flag_base (flags r)"
      unfolding fr using f s by (intro flag_base_term flag_base_clear) (auto simp: flag_upd dest: str_not_null)
    moreover have "value_ok r"
      using v s nz tm lq lb unfolding value_ok_def zb fr mnr by (simp add: flag_upd)
    ultimately have "mem_ok r" using owned_place [OF own] by (simp add: mem_ok_def)
    then have "keeps p r" using bytes mnr unfolding keeps_def fr by (simp add: flag_upd)
    then show ?thesis using run True own tm q(9) nz fr by (simp add: r_def flag_upd)
  qed
qed

lemma nul_terminate_ok:
  assumes p: "mem_ok p" and A: "alloc_ok A" and s: "isStr (flags p)"
  shows "\<exists>rc q k'. sqlite3VdbeMemNulTerminate A k p = Some (rc, q, k')
    \<and> (rc = 0 \<and> keeps p q \<and> terminated q \<or> rc = SQLITE_NOMEM \<and> nulled q) \<and> (a_ok A k \<longrightarrow> rc = 0)"
proof (cases "isTerm (flags p)")
  case True
  then have "terminated p" using p s by (simp add: mem_ok_def value_ok_def)
  then show ?thesis using True s keeps_refl [OF p] by (simp add: sqlite3VdbeMemNulTerminate_def flag_tests)
next
  case False
  have "\<not> isZero (flags p)" using p s by (auto simp: mem_ok_def value_ok_def)
  then show ?thesis using add_terminator_ok [OF p A, of k] s False
    by (cases "a_ok A k") (auto simp: sqlite3VdbeMemNulTerminate_def flag_tests)
qed

lemma expand_blob_ok:
  assumes p: "mem_ok p" and A: "alloc_ok A" and s: "isBlob (flags p)" and z: "isZero (flags p)"
  shows "\<exists>rc q. sqlite3VdbeMemExpandBlob A k p = Some (rc, q, Suc k)
    \<and> (if a_ok A k then rc = 0 \<and> keeps p q \<and> owned q \<and> \<not> isZero (flags q) else rc = SQLITE_NOMEM \<and> nulled q)"
proof -
  have v: "value_ok p" and f: "flag_base (flags p)" using p by (simp_all add: mem_ok_def)
  obtain i where i: "u_zero (mu p) = Some i" "0 \<le> i" using v s z by (auto simp: value_ok_def)
  have n: "mn p \<le> length (zbytes p)" "\<not> isStr (flags p)" using v s z by (simp_all add: value_ok_def)
  define m where "m = (if mn p + nat i = 0 then 1 else mn p + nat i)"
  have m: "0 < m" "mn p \<le> m" "mn p + nat i \<le> m" by (auto simp: m_def)
  obtain rc q where g: "sqlite3VdbeMemGrow A k p m True = Some (rc, q, Suc k)"
    "if a_ok A k then rc = 0 \<and> grown p m True q else rc = SQLITE_NOMEM \<and> nulled q"
    using grow_ok [OF p A m(1), of True k] n m(2) by auto
  have run0: "sqlite3VdbeMemExpandBlob A k p = (if rc \<noteq> 0 then Some (SQLITE_NOMEM, q, Suc k)
      else map_option (\<lambda>p. (0, p\<lparr>mn := mn p + nat i, flags := flags p AND NOT 0x600\<rparr>, Suc k))
        (put_z q (mn q) (replicate (nat i) 0)))"
    using i s g(1) by (auto simp: sqlite3VdbeMemExpandBlob_def flag_tests m_def Let_def split: option.splits bind_splits)
  show ?thesis
  proof (cases "a_ok A k")
    case False
    then show ?thesis using g run0 by simp
  next
    case True
    then have q: "rc = 0" "owned q" "m \<le> szMalloc q" "take (mn p) (zMalloc q) = take (mn p) (zbytes p)"
      "flags q = flags p AND NOT 0x7000" "mn q = mn p" "enc q = enc p" "mu q = mu p" "eSubtype q = eSubtype p"
      using g(2) by (simp_all add: grown_def)
    define b where "b = take (mn p) (zMalloc q) @ replicate (nat i) 0 @ drop (mn p + nat i) (zMalloc q)"
    define r where "r = q\<lparr>zMalloc := b, mn := mn p + nat i, flags := flags q AND NOT 0x600\<rparr>"
    have lq: "mn p + nat i \<le> length (zMalloc q)" using q(2,3) m(3) by (simp add: owned_def)
    have "put_z q (mn q) (replicate (nat i) 0) = Some (q\<lparr>zMalloc := b\<rparr>)"
      using put_z_own [of q "mn q" "replicate (nat i) 0"] q(2,6) lq by (simp add: owned_def b_def)
    then have run: "sqlite3VdbeMemExpandBlob A k p = Some (0, r, Suc k)" using run0 q(1,6) by (simp add: r_def)
    have lb: "length b = length (zMalloc q)" using lq by (simp add: b_def)
    have fr: "flags r = (flags p AND NOT 0x7000) AND NOT 0x600" using q(5) by (simp add: r_def)
    have own: "owned r" using q(2) lb unfolding owned_def fr by (auto simp: r_def flag_upd)
    have zb: "zbytes r = b" using own by (simp add: zbytes_def owned_def r_def)
    have mnr: "mn r = mn p + nat i" "enc r = enc p" "mu r = mu p" "eSubtype r = eSubtype p" using q by (simp_all add: r_def)
    have bytes: "mem_bytes r = mem_bytes p"
      using q(4) lq n(1) i s z unfolding mem_bytes_def zero_tail_def zb fr mnr by (simp add: b_def flag_upd)
    have "flag_base (flags r)"
      unfolding fr using f s by (intro flag_base_expand flag_base_clear) (auto simp: flag_upd dest: str_not_null)
    moreover have "value_ok r" using n(2) lq lb unfolding value_ok_def zb fr mnr by (simp add: flag_upd)
    ultimately have "mem_ok r" using owned_place [OF own] by (simp add: mem_ok_def)
    then have "keeps p r" using bytes mnr n(2) unfolding keeps_def fr by (simp add: flag_upd)
    then show ?thesis using run True own fr by (simp add: flag_upd)
  qed
qed

text \<open>Clearing the ephemeral mark of a cell that owns its buffer changes nothing.\<close>

lemma clear_ephem: "\<not> isEphem f \<Longrightarrow> f AND NOT 0x4000 = f" for f :: u16
  unfolding word_eq_bits by (simp add: upt_0_16 flag_upd) blast?

lemma make_writeable_ok:
  assumes p: "mem_ok p" and A: "alloc_ok A" and s: "isStr (flags p) \<or> isBlob (flags p)"
  shows "\<exists>rc q k'. sqlite3VdbeMemMakeWriteable A k p = Some (rc, q, k')
    \<and> (rc = 0 \<and> keeps p q \<and> owned q \<and> \<not> isZero (flags q) \<or> rc = SQLITE_NOMEM \<and> nulled q)
    \<and> (a_ok A k \<longrightarrow> rc = 0)"
proof -
  have or: "(MEM_Str OR MEM_Blob :: u16) = 0x12" by simp
  have "\<exists>rc q k'. ExpandBlob A k p = Some (rc, q, k')
      \<and> (if rc = 0 then keeps p q \<and> \<not> isZero (flags q) \<and> (isZero (flags p) \<longrightarrow> owned q) \<and> (\<not> isZero (flags p) \<longrightarrow> k' = k)
         else rc = SQLITE_NOMEM \<and> nulled q) \<and> (a_ok A k \<longrightarrow> rc = 0)"
  proof (cases "isZero (flags p)")
    case True
    then have "isBlob (flags p)" using p s by (auto simp: mem_ok_def value_ok_def)
    then obtain rc q where "sqlite3VdbeMemExpandBlob A k p = Some (rc, q, Suc k)"
      "if a_ok A k then rc = 0 \<and> keeps p q \<and> owned q \<and> \<not> isZero (flags q) else rc = SQLITE_NOMEM \<and> nulled q"
      using expand_blob_ok [OF p A _ True, of k] by blast
    then show ?thesis using True by (auto simp: ExpandBlob_def flag_tests split: if_splits)
  next
    case False
    then show ?thesis using keeps_refl [OF p] by (simp add: ExpandBlob_def flag_tests)
  qed
  then obtain rc q k1 where e: "ExpandBlob A k p = Some (rc, q, k1)"
    "if rc = 0 then keeps p q \<and> \<not> isZero (flags q) \<and> (isZero (flags p) \<longrightarrow> owned q) \<and> (\<not> isZero (flags p) \<longrightarrow> k1 = k)
     else rc = SQLITE_NOMEM \<and> nulled q" "a_ok A k \<longrightarrow> rc = 0" by blast
  show ?thesis
  proof (cases "rc = 0")
    case False
    then show ?thesis using e s by (simp add: sqlite3VdbeMemMakeWriteable_def or flag_tests)
  next
    case True
    then have q: "keeps p q" "\<not> isZero (flags q)" "isZero (flags p) \<longrightarrow> owned q" "\<not> isZero (flags p) \<longrightarrow> k1 = k"
      using e(2) by simp_all
    have qok: "mem_ok q" and sq: "isStr (flags q) \<or> isBlob (flags q)" using q(1) s by (simp_all add: keeps_def)
    show ?thesis
    proof (cases "szMalloc q = 0 \<or> mz q \<noteq> ZMalloc")
      case True
      then have z: "\<not> isZero (flags p)" "k1 = k" using q(3,4) by (auto simp: owned_def)
      obtain rc' r where t: "vdbeMemAddTerminator A k1 q = Some (rc', r, Suc k1)"
        "if a_ok A k1 then rc' = 0 \<and> keeps q r \<and> owned r \<and> \<not> isZero (flags r) else rc' = SQLITE_NOMEM \<and> nulled r"
        using add_terminator_ok [OF qok A sq q(2), of k1] by (auto split: if_splits)
      have run: "sqlite3VdbeMemMakeWriteable A k p =
          (if rc' \<noteq> 0 then Some (rc', r, Suc k1) else Some (0, r\<lparr>flags := flags r AND NOT 0x4000\<rparr>, Suc k1))"
        using e(1) s True \<open>rc = 0\<close> t(1) by (simp add: sqlite3VdbeMemMakeWriteable_def or flag_tests)
      show ?thesis
      proof (cases "a_ok A k")
        case False
        then show ?thesis using run t(2) z by simp
      next
        case ok: True
        then have r: "rc' = 0" "keeps q r" "owned r" "\<not> isZero (flags r)" using t(2) z by simp_all
        have "r\<lparr>flags := flags r AND NOT 0x4000\<rparr> = r" using r(3) clear_ephem [of "flags r"] by (simp add: owned_def)
        then show ?thesis using run r keeps_trans [OF q(1) r(2)] by simp
      qed
    next
      case False
      have own: "owned q" using False qok sq by (auto simp: owned_def mem_ok_def place_ok_def)
      then have "q\<lparr>flags := flags q AND NOT 0x4000\<rparr> = q" using clear_ephem [of "flags q"] by (simp add: owned_def)
      then have "sqlite3VdbeMemMakeWriteable A k p = Some (0, q, k1)"
        using e(1) s False \<open>rc = 0\<close> by (simp add: sqlite3VdbeMemMakeWriteable_def or flag_tests)
      then show ?thesis using q(1,2) own by simp
    qed
  qed
qed

subsection \<open>Other operations on a cell\<close>

lemma zbytes_upd [simp]:
  "zbytes (p\<lparr>flags := f\<rparr>) = zbytes p"
  "zbytes (p\<lparr>enc := e\<rparr>) = zbytes p"
  "zbytes (p\<lparr>mn := n\<rparr>) = zbytes p"
  "zbytes (p\<lparr>mu := u\<rparr>) = zbytes p"
  "zbytes (p\<lparr>xDel := x\<rparr>) = zbytes p"
  by (cases "mz p"; simp add: zbytes_def)+

lemma place_cong:
  assumes p: "place_ok p" and f: "isStr (flags q) = isStr (flags p)" "isBlob (flags q) = isBlob (flags p)"
    "isDyn (flags q) = isDyn (flags p)" "isStatic (flags q) = isStatic (flags p)" "isEphem (flags q) = isEphem (flags p)"
    and e: "mn q = mn p" "xDel q = xDel p" "szMalloc q = szMalloc p" "length (zMalloc q) = length (zMalloc p)"
    "(mz q = ZMalloc) = (mz p = ZMalloc)"
  shows "place_ok q"
  using p unfolding place_ok_def f e .

lemma value_term:
  assumes "value_ok p" "flags q = flags p OR 0x200" "terminated q" "mn q = mn p" "enc q = enc p" "mu q = mu p"
    "mn p \<le> length (zbytes q)"
  shows "value_ok q"
  using assms unfolding value_ok_def by (auto simp: flag_upd)

lemma zero_terminate_ok:
  assumes p: "mem_ok p"
  shows "\<exists>q. sqlite3VdbeMemZeroTerminateIfAble p = Some q \<and> keeps p q"
proof (cases "isStr (flags p) \<and> \<not> isTerm (flags p) \<and> \<not> isStatic (flags p) \<and> \<not> isEphem (flags p) \<and> enc p = 1")
  case False
  then show ?thesis using keeps_refl [OF p] by (auto simp: sqlite3VdbeMemZeroTerminateIfAble_def flag_tests)
next
  case True
  have nz: "\<not> isZero (flags p)" and np: "mn p \<le> length (zbytes p)" using p True by (auto simp: mem_ok_def value_ok_def)
  have fb: "flag_base (flags p OR 0x200)"
    using p True by (intro flag_base_term) (auto simp: mem_ok_def dest: str_not_null)
  have put: "\<exists>q. map_option (\<lambda>p. p\<lparr>flags := flags p OR 0x200\<rparr>) (put_z p (mn p) [0]) = Some q \<and> keeps p q"
    if l: "mn p + 1 \<le> length (zbytes p)"
  proof -
    define b where "b = take (mn p) (zbytes p) @ [0] @ drop (mn p + 1) (zbytes p)"
    have lb: "length b = length (zbytes p)" "take (mn p) b = take (mn p) (zbytes p)" "drop (mn p) b = [0] @ drop (mn p + 1) (zbytes p)"
      using l by (simp_all add: b_def)
    obtain q where q: "put_z p (mn p) [0] = Some q" "zbytes q = b" "flags q = flags p" "mn q = mn p" "enc q = enc p" "mu q = mu p" "eSubtype q = eSubtype p"
      "szMalloc q = szMalloc p" "xDel q = xDel p" "(mz q = ZMalloc) = (mz p = ZMalloc)" "mz p = ZMalloc \<longrightarrow> zMalloc q = b"
      "mz p \<noteq> ZMalloc \<longrightarrow> zMalloc q = zMalloc p"
      using l by (cases "mz p") (auto simp: put_z_def mem_put_def zbytes_def b_def)
    define r where "r = q\<lparr>flags := flags q OR 0x200\<rparr>"
    have r: "zbytes r = b" "flags r = flags p OR 0x200" "mn r = mn p" "enc r = enc p" "mu r = mu p" "eSubtype r = eSubtype p" "szMalloc r = szMalloc p"
      "xDel r = xDel p" "(mz r = ZMalloc) = (mz p = ZMalloc)" "mz p = ZMalloc \<longrightarrow> zMalloc r = b"
      "mz p \<noteq> ZMalloc \<longrightarrow> zMalloc r = zMalloc p"
      using q by (simp_all add: r_def)
    have "terminated r" using lb(3) True by (simp add: terminated_def r)
    then have "value_ok r" using p np lb by (intro value_term [of p r]) (simp_all add: mem_ok_def r)
    moreover have "place_ok r"
    proof -
      have l: "length (zMalloc r) = length (zMalloc p)"
        using lb(1) r(10,11) by (cases "mz p = ZMalloc") (simp_all add: zbytes_def)
      show ?thesis
        by (rule place_cong [of p]) (use p l in \<open>simp_all add: r flag_upd mem_ok_def\<close>)
    qed
    ultimately have "mem_ok r" using fb by (simp add: mem_ok_def r)
    moreover have "mem_bytes r = mem_bytes p" using nz lb(2) by (simp add: mem_bytes_def zero_tail_def r flag_upd)
    ultimately have "keeps p r" by (simp add: keeps_def r flag_upd)
    then show ?thesis using q(1) by (simp add: r_def)
  qed
  have or: "(MEM_Str OR MEM_Term OR MEM_Ephem OR MEM_Static :: u16) = 0x6202" by simp
  show ?thesis
  proof (cases "isDyn (flags p)")
    case dyn: True
    have rcs: "keeps p (p\<lparr>flags := flags p OR 0x200\<rparr>)" if "xDel p = XRCStrUnref"
    proof -
      have t: "terminated p" using p True dyn that by (simp add: mem_ok_def value_ok_def)
      let ?r = "p\<lparr>flags := flags p OR 0x200\<rparr>"
      have z: "zbytes ?r = zbytes p" by simp
      have tr: "terminated ?r" using t unfolding terminated_def z by simp
      have vp: "value_ok p" using p by (simp add: mem_ok_def)
      have "value_ok ?r" by (rule value_term [OF vp _ tr]) (use np z in simp_all)
      moreover have "place_ok ?r" 
        by (rule place_cong [of p]) (use p in \<open>simp_all add: flag_upd mem_ok_def\<close>)
      ultimately have "mem_ok ?r" using fb by (simp add: mem_ok_def)
      then show ?thesis using nz z by (simp add: keeps_def mem_bytes_def zero_tail_def flag_upd)
    qed
    show ?thesis
      using True dyn put rcs keeps_refl [OF p]
      unfolding sqlite3VdbeMemZeroTerminateIfAble_def or flag_tests by auto
  next
    case False
    then have "mz p = ZMalloc" "szMalloc p = length (zMalloc p)" using p True by (auto simp: mem_ok_def place_ok_def)
    then have "szMalloc p = length (zbytes p)" by (simp add: zbytes_def)
    then show ?thesis
      using True False put keeps_refl [OF p]
      unfolding sqlite3VdbeMemZeroTerminateIfAble_def or flag_tests by auto
  qed
qed

end
