(* ===== verification/Mem_Text.thy ===== *)
theory Mem_Text
  imports Mem_Cell
begin

text \<open>
  \<^verbatim>\<open>vdbemem.c\<close> and \<^verbatim>\<open>utf.c\<close>: the text of a memory cell. Translation between the encodings, byte order marks and
  storing a string or blob in a cell.
\<close>

unbundle bit_operations_syntax

subsection \<open>Encodings\<close>

definition sqlite3VdbeMemTranslate :: "alloc \<Rightarrow> nat \<Rightarrow> Mem \<Rightarrow> u8 \<Rightarrow> (rc \<times> Mem \<times> nat) option" where
  "sqlite3VdbeMemTranslate A k p desiredEnc =
     (if enc p \<noteq> SQLITE_UTF8 \<and> desiredEnc \<noteq> SQLITE_UTF8 then do {
        (rc, p, k) \<leftarrow> sqlite3VdbeMemMakeWriteable A k p;
        if rc \<noteq> SQLITE_OK then Some (SQLITE_NOMEM, p, k)
        else do {
          bs \<leftarrow> mem_get (zbytes p) 0 (mn p - mn p mod 2);
          p \<leftarrow> put_z p 0 (utf16_swap bs);
          Some (SQLITE_OK, p\<lparr>enc := desiredEnc\<rparr>, k)
        }
      } else
        let p = (if desiredEnc = SQLITE_UTF8 then p\<lparr>mn := mn p - mn p mod 2\<rparr> else p);
            len = (if desiredEnc = SQLITE_UTF8 then 2 * mn p + 1 else 2 * mn p + 2) in
        case db_malloc A k len of
          None \<Rightarrow> Some (SQLITE_NOMEM, p, Suc k)
        | Some zOut \<Rightarrow> do {
            src \<leftarrow> mem_get (zbytes p) 0 (mn p);
            (out, m) \<leftarrow>
              (if enc p = SQLITE_UTF8 then do {
                 out \<leftarrow> utf8_to_16_loop (if desiredEnc = SQLITE_UTF16LE then WRITE_UTF16LE else WRITE_UTF16BE) len src [];
                 out' \<leftarrow> put_out len out [0];
                 Some (out', length out)
               } else do {
                 out \<leftarrow> utf16_to_8_loop (enc p = SQLITE_UTF16LE) len src [];
                 Some (out, length out)
               });
            out \<leftarrow> put_out len out [0];
            buf \<leftarrow> mem_put zOut 0 out;
            let c = (MEM_Str OR MEM_Term OR (flags p AND 0x083f));
            p \<leftarrow> sqlite3VdbeMemRelease (p\<lparr>mn := m\<rparr>);
            Some (SQLITE_OK, p\<lparr>flags := c, enc := desiredEnc, mz := ZMalloc, zMalloc := buf, szMalloc := length buf\<rparr>,
              Suc k)
          })"

definition sqlite3VdbeChangeEncoding :: "alloc \<Rightarrow> nat \<Rightarrow> Mem \<Rightarrow> u8 \<Rightarrow> (rc \<times> Mem \<times> nat) option" where
  "sqlite3VdbeChangeEncoding A k p desiredEnc =
     (if flags p AND MEM_Str = 0 then Some (SQLITE_OK, p\<lparr>enc := desiredEnc\<rparr>, k)
      else if enc p = desiredEnc then Some (SQLITE_OK, p, k)
      else sqlite3VdbeMemTranslate A k p desiredEnc)"

definition sqlite3VdbeMemHandleBom :: "alloc \<Rightarrow> nat \<Rightarrow> Mem \<Rightarrow> (rc \<times> Mem \<times> nat) option" where
  "sqlite3VdbeMemHandleBom A k p = do {
     bom \<leftarrow>
       (if mn p > 1 then do {
          b1 \<leftarrow> rd (zbytes p) 0;
          b2 \<leftarrow> rd (zbytes p) 1;
          Some (if b1 = 0xFF \<and> b2 = 0xFE then SQLITE_UTF16LE else if b1 = 0xFE \<and> b2 = 0xFF then SQLITE_UTF16BE else 0)
        } else Some 0);
     if bom \<noteq> 0 then do {
       (rc, p, k) \<leftarrow> sqlite3VdbeMemMakeWriteable A k p;
       if rc = SQLITE_OK then do {
         let p = p\<lparr>mn := mn p - 2\<rparr>;
         bs \<leftarrow> mem_get (zbytes p) 2 (mn p);
         p \<leftarrow> put_z p 0 bs;
         p \<leftarrow> put_z p (mn p) [0, 0];
         Some (rc, p\<lparr>flags := flags p OR MEM_Term, enc := bom\<rparr>, k)
       } else Some (rc, p, k)
     } else Some (SQLITE_OK, p, k)
   }"

text \<open>The length of a string up to its terminator, at most the limit plus two for UTF-16.\<close>

fun str_len :: "u8 list \<Rightarrow> nat option" where
  "str_len [] = None"
| "str_len (c # s) = (if c = 0 then Some 0 else map_option Suc (str_len s))"

function str16_len :: "u8 list \<Rightarrow> nat \<Rightarrow> nat \<Rightarrow> nat option" where
  "str16_len s iLimit i =
     (if i \<le> iLimit then
        (case (rd s i, rd s (i + 1)) of
           (Some a, Some b) \<Rightarrow> if a OR b \<noteq> 0 then str16_len s iLimit (i + 2) else Some i
         | _ \<Rightarrow> None)
      else Some i)"
  by pat_completeness auto

termination
  by (relation "measure (\<lambda>(s, iLimit, i). iLimit + 1 - i)") auto

declare str16_len.simps [simp del]

text \<open>The length and flags of the new value and its encoding.\<close>

definition setstr_size :: "u8 list \<Rightarrow> int \<Rightarrow> u8 \<Rightarrow> nat \<Rightarrow> (nat \<times> u16 \<times> u8) option" where
  "setstr_size s m e iLimit =
     (if m < 0 then
        map_option (\<lambda>nByte. (nByte, MEM_Str OR MEM_Term, e)) (if e = SQLITE_UTF8 then str_len s else str16_len s iLimit 0)
      else if e = 0 then Some (nat m, MEM_Blob, SQLITE_UTF8)
      else Some (nat m, MEM_Str, e))"

definition setstr_too_big :: "Mem \<Rightarrow> xdel \<Rightarrow> nat \<Rightarrow> (rc \<times> Mem \<times> nat) option" where
  "setstr_too_big p x k =
     map_option (\<lambda>p. (SQLITE_TOOBIG, p, k))
       (sqlite3VdbeMemSetNull (if x \<noteq> XStatic \<and> x \<noteq> XTransient then p\<lparr>dels := x # dels p\<rparr> else p))"

definition sqlite3VdbeMemSetStr ::
  "alloc \<Rightarrow> nat \<Rightarrow> Mem \<Rightarrow> nat \<Rightarrow> u8 list option \<Rightarrow> int \<Rightarrow> u8 \<Rightarrow> xdel \<Rightarrow> (rc \<times> Mem \<times> nat) option"
where
  "sqlite3VdbeMemSetStr A k p iLimit zo m e x =
     (case zo of
        None \<Rightarrow> map_option (\<lambda>p. (SQLITE_OK, p, k)) (sqlite3VdbeMemSetNull p)
      | Some s \<Rightarrow> do {
          (nByte, f, e) \<leftarrow> setstr_size s m e iLimit;
          if nByte > iLimit then setstr_too_big p x k
          else do {
            (rc, p, f, k) \<leftarrow>
              (if x = XTransient then do {
                 let nAlloc = (if f AND MEM_Term \<noteq> 0 then nByte + (if e = SQLITE_UTF8 then 1 else 2) else nByte);
                 (rc, p, k) \<leftarrow> sqlite3VdbeMemClearAndResize A k p (max nAlloc 32);
                 if rc \<noteq> SQLITE_OK then Some (SQLITE_NOMEM, p, f, k)
                 else do {
                   src \<leftarrow> mem_get s 0 nAlloc;
                   p \<leftarrow> put_z p 0 src;
                   Some (SQLITE_OK, p, f, k)
                 }
               } else do {
                 p \<leftarrow> sqlite3VdbeMemRelease p;
                 Some (if x = XDynamic
                       then (SQLITE_OK, p\<lparr>mz := ZMalloc, zMalloc := s, szMalloc := length s\<rparr>, f, k)
                       else (SQLITE_OK, p\<lparr>mz := ZExt s, xDel := x\<rparr>, f OR (if x = XStatic then MEM_Static else MEM_Dyn), k))
               });
            if rc \<noteq> SQLITE_OK then Some (rc, p, k)
            else
              let p = p\<lparr>mn := take_bit 31 nByte, flags := f, enc := e\<rparr> in
              if e > SQLITE_UTF8 then do {
                (rc, p, k) \<leftarrow> sqlite3VdbeMemHandleBom A k p;
                Some (if rc \<noteq> 0 then SQLITE_NOMEM else SQLITE_OK, p, k)
              } else Some (SQLITE_OK, p, k)
          }
        })"

subsection \<open>Translation\<close>

definition text_enc :: "u8 \<Rightarrow> u32 list \<Rightarrow> u8 list" where
  "text_enc e cs = (if e = 1 then text8 cs else text16 (e = 2) cs)"

lemma length_text16: "length (text16 le cs) \<le> 2 * length (text8 cs)"
proof (induction cs)
  case (Cons c cs)
  have "length (WRITE_UTF16 le c) \<le> 2 * length (WRITE_UTF8 c)"
    by (auto simp: WRITE_UTF16_def WRITE_UTF16LE_def WRITE_UTF16BE_def WRITE_UTF8_def word_less_nat_alt word_le_nat_alt)
  then show ?case using Cons by simp
qed simp

lemma length_text8: "list_all valid_cp cs \<Longrightarrow> length (text8 cs) \<le> 2 * length (text16 le cs)"
proof (induction cs)
  case (Cons c cs)
  have "length (WRITE_UTF8 c) \<le> 2 * length (WRITE_UTF16 le c)"
    by (auto simp: WRITE_UTF16_def WRITE_UTF16LE_def WRITE_UTF16BE_def WRITE_UTF8_def word_less_nat_alt word_le_nat_alt)
  then show ?case using Cons by simp
qed simp

lemma to_16_even:
  "\<lbrakk>utf8_to_16_loop (WRITE_UTF16 le) len x y = Some r; even (length y)\<rbrakk> \<Longrightarrow> even (length r)"
proof (induction "WRITE_UTF16 le" len x y rule: utf8_to_16_loop.induct)
  case (1 len x y)
  show ?case
  proof (cases "READ_UTF8 x")
    case None
    then show ?thesis using 1(2,3) by (simp add: utf8_to_16_loop.simps)
  next
    case (Some cz)
    then obtain c z where cz: "READ_UTF8 x = Some (c, z)" by (cases cz) auto
    obtain y' where y': "put_out len y (WRITE_UTF16 le c) = Some y'" "utf8_to_16_loop (WRITE_UTF16 le) len z y' = Some r"
      using 1(2) cz by (auto simp: utf8_to_16_loop.simps [of _ _ x] split: option.splits)
    have "even (length y')" using y'(1) 1(3) length_WRITE_UTF16(2) [of le c] by (auto simp: put_out_def split: if_splits)
    then show ?thesis using 1(1) [OF cz refl y'(1) y'(2)] by simp
  qed
qed

lemma translate_flags:
  assumes "flag_base f" "isStr f"
  shows "flag_base (0x202 OR (f AND 0x83f))"
  using assms unfolding flag_base_def flag_upd by auto

text \<open>The new cell holds the output and the terminator in a fresh buffer.\<close>

lemma translate_cell:
  assumes p: "mem_ok p" "isStr (flags p)" and d: "d \<in> {1, 2, 3}"
    and b: "take (length out) b = out" "drop (length out) b = (if d = 1 then [0] else [0, 0]) @ x"
    and ev: "d \<noteq> 1 \<Longrightarrow> even (length out)"
    and q: "q = r\<lparr>mn := length out, flags := 0x202 OR (flags p AND 0x83f), enc := d, mz := ZMalloc, zMalloc := b, szMalloc := length b\<rparr>"
  shows "mem_ok q \<and> owned q \<and> terminated q \<and> enc q = d \<and> isStr (flags q) \<and> mem_bytes q = out"
proof -
  have fq: "flags q = 0x202 OR (flags p AND 0x83f)" and zq: "zbytes q = b" and nq: "mn q = length out" "enc q = d"
    using q by (simp_all add: zbytes_def)
  have "length (take (length out) b) = length out" using b(1) by simp
  then have lb: "length out \<le> length b" "b \<noteq> []" using b(2) by (auto split: if_splits)
  have tm: "terminated q" using b(2) by (auto simp: terminated_def zq nq)
  have "owned q" using lb q unfolding owned_def fq by (simp add: flag_upd)
  moreover have "value_ok q" using tm d ev lb unfolding value_ok_def fq zq nq by (auto simp: flag_upd)
  moreover have "flag_base (flags q)" unfolding fq using p by (intro translate_flags) (simp_all add: mem_ok_def)
  moreover have "mem_bytes q = out" using b(1) unfolding mem_bytes_def zero_tail_def zq nq fq by (simp add: flag_upd)
  ultimately show ?thesis using tm nq owned_place by (simp add: mem_ok_def fq flag_upd)
qed

lemma put_out_terminator:
  "length out + length bs \<le> len \<Longrightarrow> len \<le> length b \<Longrightarrow>
   put_out len out bs = Some (out @ bs) \<and> mem_put b 0 (out @ bs) = Some ((out @ bs) @ drop (length (out @ bs)) b)"
  by (simp add: put_out_def mem_put_def)

lemma str_bytes: "mem_ok p \<Longrightarrow> isStr (flags p) \<Longrightarrow> mem_bytes p = take (mn p) (zbytes p) \<and> mn p \<le> length (zbytes p)"
  by (auto simp: mem_ok_def value_ok_def mem_bytes_def zero_tail_def)

lemma release_new_size: "mem_ok p \<Longrightarrow> \<exists>r. sqlite3VdbeMemRelease (p\<lparr>mn := m\<rparr>) = Some r \<and> mn r = m"
  by (auto simp: sqlite3VdbeMemRelease_def vdbeMemClear_def vdbeMemClearExternAndSetNull_def VdbeMemDynamic_def
      flag_tests mem_ok_def flag_base_def Let_def)

lemma translate_8_16:
  assumes p: "mem_ok p" "isStr (flags p)" "enc p = 1" and d: "d \<in> {2, 3}" and A: "alloc_ok A" and ok: "a_ok A k"
  shows "\<exists>q. sqlite3VdbeMemTranslate A k p d = Some (0, q, Suc k) \<and> mem_ok q \<and> owned q \<and> terminated q \<and> enc q = d
    \<and> isStr (flags q) \<and> (\<forall>cs. list_all valid_cp cs \<and> mem_bytes p = text8 cs \<longrightarrow> mem_bytes q = text16 (d = 2) cs)"
proof -
  define x where "x = take (mn p) (zbytes p)"
  define len where "len = 2 * mn p + 2"
  have x: "mem_bytes p = x" "length x = mn p" "mem_get (zbytes p) 0 (mn p) = Some x"
    using str_bytes [OF p(1,2)] by (simp_all add: x_def mem_get_def)
  obtain b where b: "db_malloc A k len = Some b" "len \<le> length b"
    using ok db_malloc_length [OF A] by (auto simp: db_malloc_def)
  obtain out where out: "utf8_to_16_loop (WRITE_UTF16 (d = 2)) len x [] = Some out" "length out \<le> 2 * mn p"
    using to_16_total [of "[]" x len "d = 2"] x(2) by (auto simp: len_def)
  have ne: "d \<noteq> 1" using d by auto
  have ev: "even (length out)" using to_16_even [OF out(1)] by simp
  have w: "(if d = SQLITE_UTF16LE then WRITE_UTF16LE else WRITE_UTF16BE) = WRITE_UTF16 (d = 2)"
    by (auto simp: WRITE_UTF16_def fun_eq_iff)
  have p1: "put_out len out [0] = Some (out @ [0])" "put_out len (out @ [0]) [0] = Some (out @ [0, 0])"
    "mem_put b 0 (out @ [0, 0]) = Some ((out @ [0, 0]) @ drop (length out + 2) b)"
    using out(2) b(2) by (simp_all add: put_out_def mem_put_def len_def)
  obtain r where r: "sqlite3VdbeMemRelease (p\<lparr>mn := length out\<rparr>) = Some r" "mn r = length out"
    using release_new_size [OF p(1)] by blast
  define q where "q = r\<lparr>mn := length out, flags := 0x202 OR (flags p AND 0x83f), enc := d, mz := ZMalloc,
    zMalloc := (out @ [0, 0]) @ drop (length out + 2) b, szMalloc := length ((out @ [0, 0]) @ drop (length out + 2) b)\<rparr>"
  have "sqlite3VdbeMemTranslate A k p d = Some (0, q, Suc k)"
    using b(1) x(3) out(1) p1 r ne unfolding sqlite3VdbeMemTranslate_def w len_def
    by (simp add: p(3) q_def or.assoc [symmetric])
  moreover have "mem_ok q \<and> owned q \<and> terminated q \<and> enc q = d \<and> isStr (flags q) \<and> mem_bytes q = out"
    using d ev ne by (intro translate_cell [OF p(1,2) _ _ _ _ q_def, where x = "drop (length out + 2) b"]) auto
  moreover have "out = text16 (d = 2) cs" if "list_all valid_cp cs" "x = text8 cs" for cs
    using to_16_text [OF that(1), of "[]" "d = 2" len] length_text16 [of "d = 2" cs] out(1) x(2) that(2)
    by (simp add: len_def)
  ultimately show ?thesis using x(1) by auto
qed

lemma translate_16_8:
  assumes p: "mem_ok p" "isStr (flags p)" "enc p \<noteq> 1" and A: "alloc_ok A" and ok: "a_ok A k"
  shows "\<exists>q. sqlite3VdbeMemTranslate A k p 1 = Some (0, q, Suc k) \<and> mem_ok q \<and> owned q \<and> terminated q \<and> enc q = 1
    \<and> isStr (flags q) \<and> (\<forall>cs. list_all valid_cp cs \<and> mem_bytes p = text16 (enc p = 2) cs \<longrightarrow> mem_bytes q = text8 cs)"
proof -
  define x where "x = take (mn p) (zbytes p)"
  define len where "len = 2 * mn p + 1"
  have ev: "even (mn p)" using p by (simp add: mem_ok_def value_ok_def)
  then have pe: "p\<lparr>mn := mn p - mn p mod 2\<rparr> = p" by (cases p) (simp add: even_iff_mod_2_eq_zero)
  have x: "mem_bytes p = x" "length x = mn p" "mem_get (zbytes p) 0 (mn p) = Some x"
    using str_bytes [OF p(1,2)] by (simp_all add: x_def mem_get_def)
  obtain b where b: "db_malloc A k len = Some b" "len \<le> length b"
    using ok db_malloc_length [OF A] by (auto simp: db_malloc_def)
  obtain out where out: "utf16_to_8_loop (enc p = 2) len x [] = Some out" "length out \<le> 2 * mn p"
    using to_8_total [of x "[]" len "enc p = 2"] x(2) ev by (auto simp: len_def)
  have p1: "put_out len out [0] = Some (out @ [0])" "mem_put b 0 (out @ [0]) = Some ((out @ [0]) @ drop (length out + 1) b)"
    using out(2) b(2) by (simp_all add: put_out_def mem_put_def len_def)
  obtain r where r: "sqlite3VdbeMemRelease (p\<lparr>mn := length out\<rparr>) = Some r" "mn r = length out"
    using release_new_size [OF p(1)] by blast
  define q where "q = r\<lparr>mn := length out, flags := 0x202 OR (flags p AND 0x83f), enc := 1, mz := ZMalloc,
    zMalloc := (out @ [0]) @ drop (length out + 1) b, szMalloc := length ((out @ [0]) @ drop (length out + 1) b)\<rparr>"
  have "sqlite3VdbeMemTranslate A k p 1 = Some (0, q, Suc k)"
    using b(1) x(3) out(1) p1 r p(3) unfolding sqlite3VdbeMemTranslate_def if_P [OF refl] pe len_def
    by (simp add: pe q_def or.assoc [symmetric])
  moreover have "mem_ok q \<and> owned q \<and> terminated q \<and> enc q = 1 \<and> isStr (flags q) \<and> mem_bytes q = out"
    by (intro translate_cell [OF p(1,2) _ _ _ _ q_def, where x = "drop (length out + 1) b"]) auto
  moreover have "out = text8 cs" if "list_all valid_cp cs" "x = text16 (enc p = 2) cs" for cs
    using to_8_text [OF that(1), of "[]" len "enc p = 2"] length_text8 [OF that(1), of "enc p = 2"] out(1) x(2) that(2)
    by (simp add: len_def)
  ultimately show ?thesis using x(1) by auto
qed

lemma length_swap: "length (utf16_swap x) = length x"
  by (induction x rule: utf16_swap.induct) auto

lemma translate_16_16:
  assumes p: "mem_ok p" "isStr (flags p)" "enc p \<noteq> 1" and d: "d \<in> {2, 3}" "d \<noteq> enc p" and A: "alloc_ok A"
  shows "\<exists>rc q k'. sqlite3VdbeMemTranslate A k p d = Some (rc, q, k')
    \<and> (rc = 0 \<and> mem_ok q \<and> owned q \<and> enc q = d \<and> isStr (flags q) \<and> mem_bytes q = utf16_swap (mem_bytes p)
       \<or> rc = SQLITE_NOMEM \<and> nulled q) \<and> (a_ok A k \<longrightarrow> rc = 0)"
proof -
  obtain rc q k' where w: "sqlite3VdbeMemMakeWriteable A k p = Some (rc, q, k')"
    "rc = 0 \<and> keeps p q \<and> owned q \<and> \<not> isZero (flags q) \<or> rc = SQLITE_NOMEM \<and> nulled q" "a_ok A k \<longrightarrow> rc = 0"
    using make_writeable_ok [OF p(1) A, of k] p(2) by blast
  have ne: "d \<noteq> 1" using d(1) by auto
  show ?thesis
  proof (cases "rc = 0")
    case False
    then have "rc = SQLITE_NOMEM" "nulled q" using w(2) by auto
    then show ?thesis using w(1,3) p(3) ne by (simp add: sqlite3VdbeMemTranslate_def)
  next
    case True
    then have q: "mem_ok q" "owned q" "mem_bytes q = mem_bytes p" "enc q = enc p" "isStr (flags q)"
      using w(2) p(2) by (auto simp: keeps_def)
    define x where "x = take (mn q) (zMalloc q)"
    have zq: "zbytes q = zMalloc q" using q(2) by (simp add: owned_def zbytes_def)
    have x: "mem_bytes q = x" "mn q \<le> length (zMalloc q)" "length x = mn q" using str_bytes [OF q(1,5)] by (auto simp: x_def zq)
    have ev: "even (mn q)" using q p(3) by (simp add: mem_ok_def value_ok_def)
    define b where "b = utf16_swap x @ drop (mn q) (zMalloc q)"
    define r where "r = q\<lparr>zMalloc := b, enc := d\<rparr>"
    have "mem_get (zbytes q) 0 (mn q - mn q mod 2) = Some x" using ev x(2) by (simp add: mem_get_def x_def zq even_iff_mod_2_eq_zero)
    moreover have "put_z q 0 (utf16_swap x) = Some (q\<lparr>zMalloc := b\<rparr>)"
      using put_z_own [of q 0 "utf16_swap x"] q(2) x by (simp add: owned_def b_def length_swap)
    ultimately have run: "sqlite3VdbeMemTranslate A k p d = Some (0, r, k')"
      using w(1) True p(3) ne by (simp add: sqlite3VdbeMemTranslate_def r_def)
    have lb: "length b = length (zMalloc q)" using x by (simp add: b_def length_swap)
    have own: "owned r" using q(2) lb by (auto simp: owned_def r_def)
    have zr: "zbytes r = b" "mn r = mn q" "enc r = d" "flags r = flags q" "mu r = mu q"
      using own by (simp_all add: zbytes_def owned_def r_def)
    have "drop (mn q) b = drop (mn q) (zbytes q)" using x(3) by (simp add: b_def length_swap zq)
    then have "terminated q \<Longrightarrow> terminated r" using p(3) q(4) ne by (simp add: terminated_def zr)
    moreover have "xDel r = xDel q" by (simp add: r_def)
    ultimately have "value_ok r"
      using q(1,5) d(1) ev lb zq unfolding mem_ok_def value_ok_def zr by auto
    then have "mem_ok r" using owned_place [OF own] q(1) by (simp add: mem_ok_def zr)
    moreover have "mem_bytes r = utf16_swap (mem_bytes p)"
    proof -
      have "\<not> isZero (flags q)" using q(1,5) by (auto simp: mem_ok_def value_ok_def)
      then have "mem_bytes r = utf16_swap x" using x(3) by (simp add: mem_bytes_def zero_tail_def zr b_def length_swap)
      then show ?thesis using x(1) q(3) by simp
    qed
    ultimately show ?thesis using run own zr q(5) by simp
  qed
qed

text \<open>A translation between any two encodings.\<close>

definition translated :: "Mem \<Rightarrow> u8 \<Rightarrow> Mem \<Rightarrow> bool" where
  "translated p d q \<longleftrightarrow> mem_ok q \<and> enc q = d \<and> isStr (flags q)
     \<and> (\<forall>cs. list_all valid_cp cs \<and> mem_bytes p = text_enc (enc p) cs \<longrightarrow> mem_bytes q = text_enc d cs)"

lemma translate_ok:
  assumes p: "mem_ok p" "isStr (flags p)" and d: "d \<in> {1, 2, 3}" "d \<noteq> enc p" and A: "alloc_ok A"
  shows "\<exists>rc q k'. sqlite3VdbeMemTranslate A k p d = Some (rc, q, k')
    \<and> (rc = 0 \<and> translated p d q \<or> rc = SQLITE_NOMEM \<and> (q = p \<or> nulled q)) \<and> (a_ok A k \<longrightarrow> rc = 0)"
proof -
  have e: "enc p \<in> {1, 2, 3}" using p by (simp add: mem_ok_def value_ok_def)
  consider "enc p = 1" "d \<noteq> 1" | "enc p \<noteq> 1" "d = 1" | "enc p \<noteq> 1" "d \<noteq> 1" using d(2) by metis
  then show ?thesis
  proof cases
    case 1
    show ?thesis
    proof (cases "a_ok A k")
      case True
      then show ?thesis using translate_8_16 [OF p 1(1) _ A True, of d] 1 d(1) by (auto simp: translated_def text_enc_def)
    next
      case False
      then show ?thesis using 1 by (simp add: sqlite3VdbeMemTranslate_def db_malloc_def)
    qed
  next
    case 2
    show ?thesis
    proof (cases "a_ok A k")
      case True
      then show ?thesis using translate_16_8 [OF p 2(1) A True] 2 by (auto simp: translated_def text_enc_def)
    next
      case False
      have "even (mn p)" using p 2(1) by (simp add: mem_ok_def value_ok_def)
      then have "p\<lparr>mn := mn p - mn p mod 2\<rparr> = p" by (cases p) (simp add: even_iff_mod_2_eq_zero)
      then show ?thesis using False 2 by (simp add: sqlite3VdbeMemTranslate_def db_malloc_def)
    qed
  next
    case 3
    have "utf16_swap (text_enc (enc p) cs) = text_enc d cs" for cs
      using 3 e d swap_text [of "enc p = 2" cs] by (auto simp: text_enc_def)
    then show ?thesis using translate_16_16 [OF p 3(1) _ d(2) A, of k] 3 d(1) by (fastforce simp: translated_def)
  qed
qed

lemma change_encoding_ok:
  assumes p: "mem_ok p" and d: "d \<in> {1, 2, 3}" and A: "alloc_ok A"
  shows "\<exists>rc q k'. sqlite3VdbeChangeEncoding A k p d = Some (rc, q, k') \<and> mem_ok q
    \<and> (rc = 0 \<longrightarrow> enc q = d) \<and> (rc = 0 \<or> rc = SQLITE_NOMEM) \<and> (a_ok A k \<longrightarrow> rc = 0)"
proof (cases "isStr (flags p)")
  case False
  then have "mem_ok (p\<lparr>enc := d\<rparr>)" using p by (simp add: mem_ok_def place_ok_def value_ok_def)
  then show ?thesis using False by (simp add: sqlite3VdbeChangeEncoding_def flag_tests)
next
  case True
  show ?thesis
  proof (cases "enc p = d")
    case eq: True
    then show ?thesis using True p by (simp add: sqlite3VdbeChangeEncoding_def flag_tests)
  next
    case False
    then have "sqlite3VdbeChangeEncoding A k p d = sqlite3VdbeMemTranslate A k p d"
      using True by (simp add: sqlite3VdbeChangeEncoding_def flag_tests)
    then show ?thesis using translate_ok [OF p True d _ A, of k] False p nulled_ok by (fastforce simp: translated_def)
  qed
qed

subsection \<open>Byte order marks\<close>

fun strip_bom :: "u8 \<Rightarrow> u8 list \<Rightarrow> u8 \<times> u8 list" where
  "strip_bom e (a # b # s) =
     (if a = 0xFF \<and> b = 0xFE then (SQLITE_UTF16LE, s) else if a = 0xFE \<and> b = 0xFF then (SQLITE_UTF16BE, s)
      else (e, a # b # s))"
| "strip_bom e s = (e, s)"

lemma even_cons2: "even (length s) \<Longrightarrow> 1 < length s \<Longrightarrow> \<exists>a b r. s = a # b # r"
  by (cases s; cases "tl s") auto

lemma strip_short: "length s \<le> 1 \<Longrightarrow> strip_bom e s = (e, s)"
  by (cases s; cases "tl s") auto

lemma drop_bom_ok:
  assumes q: "mem_ok q" "owned q" "isStr (flags q)" and n: "1 < mn q" "even (mn q)" and e: "e \<in> {2, 3}"
  shows "\<exists>p bs r. mem_get (zbytes (q\<lparr>mn := mn q - 2\<rparr>)) 2 (mn q - 2) = Some bs
    \<and> put_z (q\<lparr>mn := mn q - 2\<rparr>) 0 bs = Some p \<and> put_z p (mn p) [0, 0] = Some r
    \<and> mem_ok (r\<lparr>flags := flags r OR 0x200, enc := e\<rparr>) \<and> flags r = flags q
    \<and> mem_bytes (r\<lparr>flags := flags r OR 0x200, enc := e\<rparr>) = drop 2 (mem_bytes q)"
proof -
  define z where "z = zMalloc q"
  define m where "m = mn q - 2"
  define bs where "bs = take m (drop 2 z)"
  have zq: "zbytes q = z" using q(2) by (simp add: owned_def zbytes_def z_def)
  have x: "mem_bytes q = take (mn q) z" "mn q \<le> length z" using str_bytes [OF q(1,3)] by (auto simp: zq)
  have m: "mn q = m + 2" "even m" using n by (auto simp: m_def)
  have lbs: "length bs = m" using x(2) m by (simp add: bs_def)
  have own: "mz q = ZMalloc" "szMalloc q = length z" "0 < szMalloc q" using q(2) by (auto simp: owned_def z_def)
  have g: "mem_get (zbytes (q\<lparr>mn := m\<rparr>)) 2 m = Some bs" using x(2) m(1) by (simp add: mem_get_def bs_def zq)
  define p where "p = q\<lparr>mn := m, zMalloc := bs @ drop m z\<rparr>"
  have p: "put_z (q\<lparr>mn := m\<rparr>) 0 bs = Some p"
    using put_z_own [of "q\<lparr>mn := m\<rparr>" 0 bs] own x(2) m(1) lbs by (simp add: p_def z_def)
  define b where "b = bs @ [0, 0] @ drop (m + 2) z"
  define r where "r = q\<lparr>mn := m, zMalloc := b\<rparr>"
  have r: "put_z p (mn p) [0, 0] = Some r"
    using put_z_own [of p m "[0, 0]"] own x(2) m(1) lbs by (simp add: p_def r_def b_def)
  define t where "t = r\<lparr>flags := flags r OR 0x200, enc := e\<rparr>"
  have lb: "length b = length z" using x(2) m(1) lbs by (simp add: b_def)
  have t: "zMalloc t = b" "mn t = m" "enc t = e" "flags t = flags q OR 0x200" "mz t = ZMalloc" "szMalloc t = length b"
    using own lb by (simp_all add: t_def r_def)
  have zt: "zbytes t = b" using t by (simp add: zbytes_def)
  have ft: "isStr (flags t)" "\<not> isDyn (flags t)" "\<not> isZero (flags t)" "\<not> isStatic (flags t)" "\<not> isEphem (flags t)"
    using q by (auto simp: t(4) flag_upd owned_def mem_ok_def value_ok_def)
  have ot: "owned t" using ft own lb t by (simp add: owned_def)
  have "terminated t" using e lbs by (auto simp: terminated_def zt t b_def)
  then have "value_ok t" using ft e m(2) lb x(2) m(1) by (auto simp: value_ok_def zt t(2,3))
  moreover have "flag_base (flags t)"
    unfolding t(4) using q by (intro flag_base_term) (auto simp: mem_ok_def dest: str_not_null)
  ultimately have "mem_ok t" using owned_place [OF ot] by (simp add: mem_ok_def)
  moreover have "mem_bytes t = drop 2 (mem_bytes q)"
    using ft(3) lbs m(1) x(1) by (simp add: mem_bytes_def zero_tail_def zt t b_def bs_def drop_take)
  moreover have "flags r = flags q" by (simp add: r_def)
  ultimately show ?thesis using g p r unfolding m_def [symmetric] t_def by blast
qed

lemma handle_bom_ok:
  assumes p: "mem_ok p" "isStr (flags p)" "enc p \<in> {2, 3}" and A: "alloc_ok A"
  shows "\<exists>rc q k'. sqlite3VdbeMemHandleBom A k p = Some (rc, q, k')
    \<and> (rc = 0 \<and> mem_ok q \<and> isStr (flags q) \<and> (enc q, mem_bytes q) = strip_bom (enc p) (mem_bytes p)
       \<or> rc = SQLITE_NOMEM \<and> nulled q) \<and> (a_ok A k \<longrightarrow> rc = 0)"
proof -
  have x: "mem_bytes p = take (mn p) (zbytes p)" "mn p \<le> length (zbytes p)" using str_bytes [OF p(1,2)] by auto
  have ev: "even (mn p)" using p by (auto simp: mem_ok_def value_ok_def)
  have lx: "length (mem_bytes p) = mn p" using x by simp
  show ?thesis
  proof (cases "1 < mn p")
    case False
    then show ?thesis using p strip_short [of "mem_bytes p" "enc p"] lx
      by (simp add: sqlite3VdbeMemHandleBom_def)
  next
    case True
    then obtain a b s where s: "mem_bytes p = a # b # s" using even_cons2 [of "mem_bytes p"] lx ev by auto
    have ab: "rd (zbytes p) 0 = Some a" "rd (zbytes p) 1 = Some b"
    proof -
      have "zbytes p = a # b # s @ drop (mn p) (zbytes p)" using append_take_drop_id [of "mn p" "zbytes p"] unfolding x(1) [symmetric] s by simp
      then obtain y where "zbytes p = a # b # y" by blast
      then show "rd (zbytes p) 0 = Some a" "rd (zbytes p) 1 = Some b" by (simp_all add: rd_def)
    qed
    define bom :: u8 where "bom = (if a = 0xFF \<and> b = 0xFE then 2 else if a = 0xFE \<and> b = 0xFF then 3 else 0)"
    show ?thesis
    proof (cases "bom = 0")
      case b0: True
      then have ne: "\<not> (a = 0xFF \<and> b = 0xFE)" "\<not> (a = 0xFE \<and> b = 0xFF)" by (auto simp: bom_def split: if_splits)
      have "strip_bom (enc p) (mem_bytes p) = (enc p, mem_bytes p)" unfolding s using ne by (simp only: strip_bom.simps if_False)
      moreover have "sqlite3VdbeMemHandleBom A k p = Some (0, p, k)"
        unfolding sqlite3VdbeMemHandleBom_def ab using True ne by (simp only: if_True if_False bind.bind_lunit not_not) simp
      ultimately show ?thesis using p by simp
    next
      case False
      have st: "strip_bom (enc p) (mem_bytes p) = (bom, drop 2 (mem_bytes p))" and bom: "bom \<in> {2, 3}"
        using False s by (auto simp: bom_def split: if_splits)
      obtain rc q k' where w: "sqlite3VdbeMemMakeWriteable A k p = Some (rc, q, k')"
        "rc = 0 \<and> keeps p q \<and> owned q \<and> \<not> isZero (flags q) \<or> rc = SQLITE_NOMEM \<and> nulled q" "a_ok A k \<longrightarrow> rc = 0"
        using make_writeable_ok [OF p(1) A, of k] p(2) by blast
      have run: "sqlite3VdbeMemHandleBom A k p =
          (if rc = 0 then do {
             let p = q\<lparr>mn := mn q - 2\<rparr>;
             bs \<leftarrow> mem_get (zbytes p) 2 (mn p);
             p \<leftarrow> put_z p 0 bs;
             p \<leftarrow> put_z p (mn p) [0, 0];
             Some (rc, p\<lparr>flags := flags p OR 0x200, enc := bom\<rparr>, k')
           } else Some (rc, q, k'))"
        using True ab False w(1) unfolding sqlite3VdbeMemHandleBom_def bom_def by (simp add: Let_def)
      show ?thesis
      proof (cases "rc = 0")
        case False
        then show ?thesis using run w by simp
      next
        case r0: True
        then have q: "keeps p q" "owned q" using w(2) by simp_all
        have qok: "mem_ok q" "isStr (flags q)" "mem_bytes q = mem_bytes p" using q(1) p(2) by (simp_all add: keeps_def)
        have "mn q = mn p" using str_bytes [OF qok(1,2)] qok(3) lx by (metis length_take min.absorb2)
        then obtain p' bs r where r: "mem_get (zbytes (q\<lparr>mn := mn q - 2\<rparr>)) 2 (mn q - 2) = Some bs"
          "put_z (q\<lparr>mn := mn q - 2\<rparr>) 0 bs = Some p'" "put_z p' (mn p') [0, 0] = Some r"
          "mem_ok (r\<lparr>flags := flags r OR 0x200, enc := bom\<rparr>)" "flags r = flags q"
          "mem_bytes (r\<lparr>flags := flags r OR 0x200, enc := bom\<rparr>) = drop 2 (mem_bytes q)"
          using drop_bom_ok [OF qok(1) q(2) qok(2) _ _ bom] True ev by auto
        have "sqlite3VdbeMemHandleBom A k p = Some (0, r\<lparr>flags := flags r OR 0x200, enc := bom\<rparr>, k')"
          using run r0 r(1-3) by (simp add: Let_def)
        then show ?thesis using r(4-6) qok st by (simp add: flag_upd)
      qed
    qed
  qed
qed

subsection \<open>Storing a string or blob\<close>

text \<open>A terminator of the encoding at an offset, and what a caller of \<open>sqlite3VdbeMemSetStr\<close> has to ensure.\<close>

definition term_at :: "u8 list \<Rightarrow> nat \<Rightarrow> u8 \<Rightarrow> bool" where
  "term_at s i e \<longleftrightarrow> (\<exists>r. drop i s = (if e = 1 then [0] else [0, 0]) @ r)"

definition src_ok :: "u8 list \<Rightarrow> int \<Rightarrow> u8 \<Rightarrow> xdel \<Rightarrow> bool" where
  "src_ok s m e x \<longleftrightarrow> e \<in> {0, 1, 2, 3}
     \<and> (m < 0 \<longrightarrow> e \<noteq> 0 \<and> (\<exists>i. (e = 1 \<or> even i) \<and> term_at s i e))
     \<and> (0 \<le> m \<longrightarrow> nat m \<le> length s \<and> (e = 2 \<or> e = 3 \<longrightarrow> even m))
     \<and> (x = XDynamic \<longrightarrow> s \<noteq> [])
     \<and> (x = XRCStrUnref \<and> 0 \<le> m \<and> e \<noteq> 0 \<longrightarrow> term_at s (nat m) e)"

text \<open>The size of the source: the one given, or the offset of the first terminator.\<close>

definition src_len :: "u8 list \<Rightarrow> int \<Rightarrow> u8 \<Rightarrow> nat \<Rightarrow> bool" where
  "src_len s m e n \<longleftrightarrow>
     (if m < 0 then term_at s n e \<and> (\<forall>i < n. e = 1 \<or> even i \<longrightarrow> \<not> term_at s i e) \<and> (e = 1 \<or> even n) else n = nat m)"

lemma str_len_ok:
  "term_at s i 1 \<Longrightarrow> \<exists>n. str_len s = Some n \<and> term_at s n 1 \<and> n \<le> length s \<and> (\<forall>j < n. \<not> term_at s j 1)"
proof (induction s arbitrary: i)
  case Nil
  then show ?case by (simp add: term_at_def)
next
  case (Cons c s)
  show ?case
  proof (cases "c = 0")
    case True
    then show ?thesis by (simp add: term_at_def)
  next
    case False
    then obtain j where "i = Suc j" using Cons.prems by (cases i) (auto simp: term_at_def)
    then have "term_at s j 1" using Cons.prems by (simp add: term_at_def)
    then obtain n where "str_len s = Some n" "term_at s n 1" "n \<le> length s" and j: "\<forall>j < n. \<not> term_at s j 1"
      using Cons.IH by blast
    moreover have "\<not> term_at (c # s) j 1" if "j < Suc n" for j
      using j False that by (cases j) (auto simp: term_at_def)
    ultimately show ?thesis using False by (auto simp: term_at_def)
  qed
qed

lemma term_at_16: "e \<noteq> 1 \<Longrightarrow> term_at s i e \<longleftrightarrow> rd s i = Some 0 \<and> rd s (i + 1) = Some 0"
proof -
  assume e: "e \<noteq> 1"
  have "(\<exists>r. drop i s = 0 # 0 # r) \<longleftrightarrow> i + 1 < length s \<and> s ! i = 0 \<and> s ! (i + 1) = 0"
  proof
    assume "\<exists>r. drop i s = 0 # 0 # r"
    then obtain r where r: "drop i s = 0 # 0 # r" by blast
    then have "length s - i = length r + 2" by (metis length_drop length_Cons add_2_eq_Suc')
    moreover have "drop i s ! 0 = 0" "drop i s ! 1 = 0" using r by simp_all
    ultimately show "i + 1 < length s \<and> s ! i = 0 \<and> s ! (i + 1) = 0" by (simp add: nth_drop)
  next
    assume "i + 1 < length s \<and> s ! i = 0 \<and> s ! (i + 1) = 0"
    then have "drop i s = 0 # 0 # drop (i + 2) s"
      using Cons_nth_drop_Suc [of i s] Cons_nth_drop_Suc [of "Suc i" s] by simp
    then show "\<exists>r. drop i s = 0 # 0 # r" by blast
  qed
  then show ?thesis using e by (auto simp: term_at_def rd_def)
qed

lemma str16_len_ok:
  assumes "rd s j = Some 0" "rd s (j + 1) = Some 0" "even j" "even i" "i \<le> j"
  shows "\<exists>n. str16_len s L i = Some n \<and> even n \<and> n \<le> j \<and> (n \<le> L \<longrightarrow> rd s n = Some 0 \<and> rd s (n + 1) = Some 0)
    \<and> (\<forall>h < n. i \<le> h \<and> even h \<longrightarrow> \<not> (rd s h = Some 0 \<and> rd s (h + 1) = Some 0))"
  using assms
proof (induction s L i rule: str16_len.induct)
  case (1 s L i)
  show ?case
  proof (cases "i \<le> L")
    case False
    then show ?thesis using 1 by (simp add: str16_len.simps)
  next
    case True
    have "i + 1 < length s" using 1(3,6) by (auto simp: rd_def split: if_splits)
    then obtain a b where ab: "rd s i = Some a" "rd s (i + 1) = Some b" by (auto simp: rd_def)
    show ?thesis
    proof (cases "a OR b = 0")
      case True
      then have "a = 0" "b = 0" by (simp_all add: or_eq_0_iff)
      then show ?thesis using ab True 1(5,6) by (simp add: str16_len.simps)
    next
      case False
      then have "i \<noteq> j" using ab 1(2,3) by auto
      then have "i + 2 \<le> j" using 1(4,5,6) by (metis add_2_eq_Suc' dvd_diff_nat even_Suc le_neq_implies_less less_eq_Suc_le)
      moreover have "even (i + 2)" using 1(5) by simp
      ultimately obtain n where "str16_len s L (i + 2) = Some n" "even n" "n \<le> j"
        "n \<le> L \<longrightarrow> rd s n = Some 0 \<and> rd s (n + 1) = Some 0"
        and h: "\<forall>h < n. i + 2 \<le> h \<and> even h \<longrightarrow> \<not> (rd s h = Some 0 \<and> rd s (h + 1) = Some 0)"
        using 1(1) [OF True refl ab False 1(2,3,4)] by blast
      moreover have "\<not> (rd s h = Some 0 \<and> rd s (h + 1) = Some 0)" if "h < n" "i \<le> h" "even h" for h
      proof (cases "h = i")
        case True
        then show ?thesis using ab False by auto
      next
        case False
        then have "i + 2 \<le> h" using that(2,3) 1(5) by (cases "h = i + 1") auto
        then show ?thesis using h that by blast
      qed
      ultimately show ?thesis using ab True False by (simp add: str16_len.simps [of s L i])
    qed
  qed
qed

lemma setstr_size_ok:
  assumes s: "src_ok s m e x"
  shows "\<exists>n f e'. setstr_size s m e L = Some (n, f, e')
    \<and> e' = (if e = 0 then 1 else e) \<and> f = (if m < 0 then 0x202 else if e = 0 then 0x10 else 2)
    \<and> n \<le> length s \<and> (e' \<noteq> 1 \<longrightarrow> even n)
    \<and> (n \<le> L \<longrightarrow> src_len s m e n \<and> (m < 0 \<or> x = XRCStrUnref \<and> e \<noteq> 0 \<longrightarrow> term_at s n e'))
    \<and> (L < n \<longrightarrow> (\<forall>n'. src_len s m e n' \<longrightarrow> L < n'))"
proof (cases "m < 0")
  case False
  then show ?thesis using s by (auto simp: setstr_size_def src_ok_def src_len_def even_nat_iff)
next
  case m: True
  then obtain i where e: "e \<in> {1, 2, 3}" and i: "e = 1 \<or> even i" "term_at s i e" using s by (auto simp: src_ok_def)
  show ?thesis
  proof (cases "e = 1")
    case True
    then obtain n where n: "str_len s = Some n" "term_at s n 1" "n \<le> length s" "\<forall>j < n. \<not> term_at s j 1"
      using str_len_ok [of s i] i by auto
    have big: "L < n'" if "L < n" "src_len s m e n'" for n'
    proof -
      have "term_at s n' 1" using that(2) m True by (simp add: src_len_def)
      then have "\<not> n' < n" using n(4) by blast
      then show ?thesis using that(1) by simp
    qed
    have "src_len s m e n" using n(2,4) m True by (simp add: src_len_def)
    moreover have "setstr_size s m e L = Some (n, 0x202, 1)" using n(1) m True by (simp add: setstr_size_def)
    ultimately show ?thesis using m n(2,3) True big by simp
  next
    case False
    then have z: "rd s i = Some 0" "rd s (i + 1) = Some 0" "even i" using i term_at_16 by auto
    then obtain n where n: "str16_len s L 0 = Some n" "even n" "n \<le> i" "n \<le> L \<longrightarrow> rd s n = Some 0 \<and> rd s (n + 1) = Some 0"
      "\<forall>h < n. even h \<longrightarrow> \<not> (rd s h = Some 0 \<and> rd s (h + 1) = Some 0)"
      using str16_len_ok [of s i 0 L] by auto
    have l: "i < length s" using z(1) by (auto simp: rd_def split: if_splits)
    have t: "term_at s h e \<longleftrightarrow> rd s h = Some 0 \<and> rd s (h + 1) = Some 0" for h by (rule term_at_16 [OF False])
    have first: "\<forall>h < n. even h \<longrightarrow> \<not> term_at s h e" using n(5) by (simp add: t)
    have big: "L < n'" if "L < n" "src_len s m e n'" for n'
    proof -
      have "term_at s n' e" "even n'" using that(2) m False by (simp_all add: src_len_def)
      then have "\<not> n' < n" using first by blast
      then show ?thesis using that(1) by simp
    qed
    have src: "src_len s m e n" "term_at s n e" if "n \<le> L"
      using n(2,4) first that m False t by (simp_all add: src_len_def)
    have "setstr_size s m e L = Some (n, 0x202, e)" using n(1) m False by (simp add: setstr_size_def)
    moreover have "e \<noteq> 0" "n \<le> length s" using e n(3) l by auto
    ultimately show ?thesis using m n(2) big src by simp
  qed
qed

lemma new_cell_ok:
  assumes f: "flags q = f OR g" "f = 0x202 \<or> f = 0x10 \<or> f = 2" "g = 0 \<or> g = 0x1000 \<or> g = 0x2000"
    and m: "mn q \<le> length (zbytes q)" and z: "mz q = ZMalloc \<longleftrightarrow> g = 0"
    and sz: "if g = 0 then szMalloc q = length (zMalloc q) \<and> 0 < szMalloc q else szMalloc q = 0"
    and x: "g = 0x1000 \<longrightarrow> xDel q \<noteq> XStatic"
    and e: "enc q \<in> {1, 2, 3}" "enc q \<noteq> 1 \<longrightarrow> even (mn q)"
    and t: "f = 0x202 \<or> f = 2 \<and> g = 0x1000 \<and> xDel q = XRCStrUnref \<longrightarrow> terminated q"
  shows "mem_ok q" "mem_bytes q = take (mn q) (zbytes q)" "isStr (flags q) \<longleftrightarrow> f \<noteq> 0x10" "isBlob (flags q) \<longleftrightarrow> f = 0x10"
proof -
  have b: "isStr (flags q) \<longleftrightarrow> f \<noteq> 0x10" "isBlob (flags q) \<longleftrightarrow> f = 0x10" "isDyn (flags q) \<longleftrightarrow> g = 0x1000"
    "isStatic (flags q) \<longleftrightarrow> g = 0x2000" "\<not> isEphem (flags q)" "\<not> isZero (flags q)" "isTerm (flags q) \<longleftrightarrow> f = 0x202"
    using f(2,3) unfolding f(1) by (auto simp: flag_upd)
  have "flag_base (flags q)" using f(2,3) unfolding f(1) flag_base_def by (auto simp: flag_upd)
  moreover have "place_ok q"
    unfolding place_ok_def b z using sz x f(3) b(5) by (auto simp: one_if_def)
  moreover have "value_ok q"
    unfolding value_ok_def b using m e t b(6) f(2) by auto
  ultimately show "mem_ok q" by (simp add: mem_ok_def)
  show "mem_bytes q = take (mn q) (zbytes q)" using b(6) by (simp add: mem_bytes_def zero_tail_def)
qed (use f in \<open>auto simp: flag_upd\<close>)

lemma clear_resize_ok:
  assumes p: "mem_ok p" and A: "alloc_ok A" and m: "0 < m"
  shows "\<exists>rc q k'. sqlite3VdbeMemClearAndResize A k p m = Some (rc, q, k')
    \<and> (rc = 0 \<and> mz q = ZMalloc \<and> szMalloc q = length (zMalloc q) \<and> m \<le> szMalloc q
         \<and> dels q = (if isDyn (flags p) then xDel p # dels p else dels p)
       \<or> rc = SQLITE_NOMEM \<and> nulled q)
    \<and> (a_ok A k \<longrightarrow> rc = 0)"
proof (cases "szMalloc p < m")
  case True
  then show ?thesis using grow_ok [OF p A m, of False k]
    by (auto simp: sqlite3VdbeMemClearAndResize_def grown_def owned_def split: if_splits)
next
  case False
  then have "szMalloc p = length (zMalloc p)" "\<not> isDyn (flags p)" using p m by (auto simp: mem_ok_def place_ok_def)
  then show ?thesis using False by (simp add: sqlite3VdbeMemClearAndResize_def)
qed

text \<open>What is stored of the first \<open>n\<close> bytes of the source: a byte order mark is removed and chooses the encoding.\<close>

definition stored :: "u8 list \<Rightarrow> nat \<Rightarrow> u8 \<Rightarrow> u8 \<times> u8 list" where
  "stored s n e = (if e = 0 \<or> e = 1 then (1, take n s) else strip_bom e (take n s))"

text \<open>The last step: the size, flags and encoding are set and a byte order mark is removed.\<close>

lemma setstr_finish:
  assumes q: "q = p\<lparr>mn := n, flags := f OR g, enc := e'\<rparr>" and e: "e' = (if e = 0 then 1 else e)" "e \<in> {0, 1, 2, 3}"
    and f: "f = (if m < 0 then 0x202 else if e = 0 then 0x10 else 2)" "m < 0 \<longrightarrow> e \<noteq> 0"
    and g: "g = 0 \<or> g = 0x1000 \<or> g = 0x2000"
    and z: "n \<le> length (zbytes p)" "take n (zbytes p) = take n s" "mz p = ZMalloc \<longleftrightarrow> g = 0"
    and sz: "if g = 0 then szMalloc p = length (zMalloc p) \<and> 0 < szMalloc p else szMalloc p = 0"
    and x: "g = 0x1000 \<longrightarrow> xDel p \<noteq> XStatic"
    and ev: "e' \<noteq> 1 \<longrightarrow> even n"
    and t: "m < 0 \<or> e \<noteq> 0 \<and> g = 0x1000 \<and> xDel p = XRCStrUnref \<longrightarrow> term_at (zbytes p) n e'"
    and A: "alloc_ok A"
  shows "\<exists>rc r k'. (if e' > 1 then do {
           (rc, p, k) \<leftarrow> sqlite3VdbeMemHandleBom A k q;
           Some (if rc \<noteq> 0 then SQLITE_NOMEM else SQLITE_OK, p, k)
         } else Some (SQLITE_OK, q, k)) = Some (rc, r, k')
     \<and> (rc = 0 \<and> mem_ok r \<and> (if e = 0 then isBlob (flags r) else isStr (flags r)) \<and> (enc r, mem_bytes r) = stored s n e
        \<or> rc = SQLITE_NOMEM \<and> nulled r)
     \<and> (a_ok A k \<longrightarrow> rc = 0)"
proof -
  have zq: "zbytes q = zbytes p" by (simp add: q zbytes_def split: memz.split)
  have fq: "flags q = f OR g" "f = 0x202 \<or> f = 0x10 \<or> f = 2" using f by (auto simp: q)
  have eq: "enc q = e'" "e' \<in> {1, 2, 3}" "mn q = n" "mz q = mz p" "szMalloc q = szMalloc p" "zMalloc q = zMalloc p" "xDel q = xDel p"
    using e by (auto simp: q)
  have tq: "f = 0x202 \<or> f = 2 \<and> g = 0x1000 \<and> xDel q = XRCStrUnref \<longrightarrow> terminated q"
    using t f(1) by (auto simp: terminated_def term_at_def zq eq split: if_splits)
  have szq: "if g = 0 then szMalloc q = length (zMalloc q) \<and> 0 < szMalloc q else szMalloc q = 0"
    unfolding eq using sz .
  have ok: "mem_ok q" and b: "mem_bytes q = take (mn q) (zbytes q)" and s: "isStr (flags q) \<longleftrightarrow> f \<noteq> 0x10"
    "isBlob (flags q) \<longleftrightarrow> f = 0x10"
    by (rule new_cell_ok [OF fq g _ _ szq]; use z x ev tq eq zq in simp)+
  have bq: "mem_bytes q = take n s" using b z(2) zq eq by simp
  have sb: "isStr (flags q) \<longleftrightarrow> e \<noteq> 0" "isBlob (flags q) \<longleftrightarrow> e = 0" using s f by auto
  show ?thesis
  proof (cases "e' > 1")
    case False
    then have "e' = 1" using eq(2) by auto
    then have "e = 0 \<or> e = 1" using e by (auto split: if_splits)
    then show ?thesis using False ok sb bq eq \<open>e' = 1\<close> by (auto simp: stored_def)
  next
    case True
    then have e16: "e \<in> {2, 3}" "e' = e" using e by (auto split: if_splits)
    then show ?thesis using True handle_bom_ok [OF ok _ _ A, of k] sb bq eq by (auto simp: stored_def)
  qed
qed

lemma mem_ok_dels [simp]: "mem_ok (p\<lparr>dels := d\<rparr>) = mem_ok p"
proof -
  define q where "q = p\<lparr>dels := d\<rparr>"
  have eq: "flags q = flags p" "mn q = mn p" "mz q = mz p" "szMalloc q = szMalloc p" "zMalloc q = zMalloc p" "xDel q = xDel p"
    "enc q = enc p" "mu q = mu p" by (simp_all add: q_def)
  have z: "zbytes q = zbytes p" unfolding zbytes_def eq ..
  show ?thesis
    unfolding q_def [symmetric] mem_ok_def place_ok_def value_ok_def terminated_def eq z ..
qed

lemma mem_ok_size: "mem_ok p \<Longrightarrow> 0 < szMalloc p \<longrightarrow> szMalloc p = length (zMalloc p)"
  unfolding mem_ok_def place_ok_def by (elim conjE)

lemma set_null_mem_ok:
  assumes p: "mem_ok p"
  shows "\<exists>q. sqlite3VdbeMemSetNull p = Some q \<and> mem_ok q \<and> flags q = 1"
  using set_null_ok [OF p] mem_ok_size [OF p] by (auto intro!: null_ok)

text \<open>The outcome of storing \<open>s\<close>.\<close>

definition set_str_result :: "alloc \<Rightarrow> nat \<Rightarrow> u8 list \<Rightarrow> int \<Rightarrow> u8 \<Rightarrow> rc \<Rightarrow> Mem \<Rightarrow> bool" where
  "set_str_result A L s m e rc q \<longleftrightarrow> mem_ok q
     \<and> (rc = SQLITE_TOOBIG \<longleftrightarrow> (\<forall>n. src_len s m e n \<longrightarrow> L < n))
     \<and> (rc = SQLITE_OK \<longrightarrow> (\<exists>n \<le> L. src_len s m e n \<and> (enc q, mem_bytes q) = stored s n e)
          \<and> (if e = 0 then isBlob (flags q) else isStr (flags q)))
     \<and> (rc \<noteq> SQLITE_OK \<longrightarrow> flags q = MEM_Null \<and> (rc = SQLITE_TOOBIG \<or> rc = SQLITE_NOMEM))
     \<and> ((\<forall>i. a_ok A i) \<longrightarrow> rc \<noteq> SQLITE_NOMEM)"

lemma set_str_result_fit:
  assumes "rc = 0 \<and> mem_ok q \<and> (if e = 0 then isBlob (flags q) else isStr (flags q)) \<and> (enc q, mem_bytes q) = stored s n e
      \<or> rc = SQLITE_NOMEM \<and> nulled q" "(\<forall>i. a_ok A i) \<longrightarrow> rc = 0" "n \<le> L" "src_len s m e n"
  shows "set_str_result A L s m e rc q"
proof -
  have "rc \<noteq> SQLITE_TOOBIG" using assms(1) by auto
  moreover have "\<not> (\<forall>n. src_len s m e n \<longrightarrow> L < n)" using assms(3,4) by (meson not_le)
  ultimately show ?thesis
    unfolding set_str_result_def using assms nulled_ok by (cases "rc = 0") (auto simp: nulled_def)
qed

lemma set_str_too_big:
  assumes p: "mem_ok p" and n: "setstr_size s m e L = Some (n, f, e')" "L < n" "\<forall>n. src_len s m e n \<longrightarrow> L < n"
  shows "\<exists>q. sqlite3VdbeMemSetStr A k p L (Some s) m e x = Some (SQLITE_TOOBIG, q, k)
    \<and> set_str_result A L s m e SQLITE_TOOBIG q"
proof -
  define p' where "p' = (if x \<noteq> XStatic \<and> x \<noteq> XTransient then p\<lparr>dels := x # dels p\<rparr> else p)"
  have "mem_ok p'" using p by (simp add: p'_def)
  then obtain q where q: "sqlite3VdbeMemSetNull p' = Some q" "mem_ok q" "flags q = 1" using set_null_mem_ok by blast
  have "sqlite3VdbeMemSetStr A k p L (Some s) m e x = Some (SQLITE_TOOBIG, q, k)"
    using n(1,2) q(1) by (simp add: sqlite3VdbeMemSetStr_def setstr_too_big_def p'_def [symmetric])
  moreover have "set_str_result A L s m e SQLITE_TOOBIG q" using q n(3) by (simp add: set_str_result_def)
  ultimately show ?thesis by blast
qed

lemma term_at_copy: "term_at s n e \<Longrightarrow> n + (if e = 1 then 1 else 2) \<le> length s
    \<and> term_at (take (n + (if e = 1 then 1 else 2)) s @ r) n e"
proof -
  assume "term_at s n e"
  then obtain t where t: "drop n s = (if e = 1 then [0] else [0, 0]) @ t" by (auto simp: term_at_def)
  have l: "n + (if e = 1 then 1 else 2) \<le> length s"
    using arg_cong [OF t, of length] by (auto split: if_splits)
  have "drop n (take (n + (if e = 1 then 1 else 2)) s @ r) = take (if e = 1 then 1 else 2) (drop n s) @ r"
    using l by (simp add: take_drop add.commute)
  also have "\<dots> = (if e = 1 then [0] else [0, 0]) @ r" by (simp add: t)
  finally show ?thesis using l by (auto simp: term_at_def)
qed

lemma set_str_transient:
  assumes p: "mem_ok p" and A: "alloc_ok A" and s: "src_ok s m e XTransient"
    and n: "setstr_size s m e L = Some (n, f, e')" "n \<le> L" "L < 2 ^ 31"
    and c: "e' = (if e = 0 then 1 else e)" "f = (if m < 0 then 0x202 else if e = 0 then 0x10 else 2)" "n \<le> length s"
      "e' \<noteq> 1 \<longrightarrow> even n" "src_len s m e n" "m < 0 \<longrightarrow> term_at s n e'"
  shows "\<exists>rc q k'. sqlite3VdbeMemSetStr A k p L (Some s) m e XTransient = Some (rc, q, k')
    \<and> set_str_result A L s m e rc q"
proof -
  have n31: "take_bit 31 n = n" using n(2,3) by (simp add: take_bit_nat_eq_self)
  have e: "e \<in> {0, 1, 2, 3}" "m < 0 \<longrightarrow> e \<noteq> 0" using s by (auto simp: src_ok_def)
  define a where "a = (if m < 0 then n + (if e' = 1 then 1 else 2) else n)"
  have fa: "(if f AND 0x200 \<noteq> 0 then n + (if e' = 1 then 1 else 2) else n) = a" using c(2) by (auto simp: a_def flag_tests flag_upd)
  have al: "a \<le> length s" "n \<le> a" using c(3,6) term_at_copy [of s n e'] by (auto simp: a_def)
  obtain rc q k1 where q: "sqlite3VdbeMemClearAndResize A k p (max a 32) = Some (rc, q, k1)"
    "rc = 0 \<and> mz q = ZMalloc \<and> szMalloc q = length (zMalloc q) \<and> max a 32 \<le> szMalloc q \<or> rc = SQLITE_NOMEM \<and> nulled q"
    "a_ok A k \<longrightarrow> rc = 0"
    using clear_resize_ok [OF p A, of "max a 32" k] by (metis less_max_iff_disj zero_less_numeral)
  show ?thesis
  proof (cases "rc = 0")
    case False
    then have "sqlite3VdbeMemSetStr A k p L (Some s) m e XTransient = Some (SQLITE_NOMEM, q, k1)"
      using n q(1) fa by (simp add: sqlite3VdbeMemSetStr_def Let_def)
    moreover have "set_str_result A L s m e SQLITE_NOMEM q"
      by (rule set_str_result_fit [OF _ _ n(2) c(5)]) (use False q in auto)
    ultimately show ?thesis by blast
  next
    case True
    then have o: "mz q = ZMalloc" "szMalloc q = length (zMalloc q)" "a \<le> length (zMalloc q)" "32 \<le> length (zMalloc q)"
      using q(2) by auto
    define b where "b = take a s @ drop a (zMalloc q)"
    define r where "r = q\<lparr>zMalloc := b\<rparr>"
    have put: "mem_get s 0 a = Some (take a s)" "put_z q 0 (take a s) = Some r"
      using al(1) put_z_own [of q 0 "take a s"] o by (simp_all add: mem_get_def r_def b_def)
    have lb: "length b = length (zMalloc q)" using al o by (simp add: b_def)
    have r: "zMalloc r = b" "mz r = ZMalloc" "szMalloc r = length b" "zbytes r = b"
      using o lb by (simp_all add: r_def zbytes_def)
    have tb: "term_at b n e'" if "m < 0" using term_at_copy [of s n e'] c(6) that by (simp add: b_def a_def)
    have run: "sqlite3VdbeMemSetStr A k p L (Some s) m e XTransient =
        (if e' > 1 then do {
           (rc, p, k) \<leftarrow> sqlite3VdbeMemHandleBom A k1 (r\<lparr>mn := n, flags := f OR 0, enc := e'\<rparr>);
           Some (if rc \<noteq> 0 then SQLITE_NOMEM else SQLITE_OK, p, k)
         } else Some (SQLITE_OK, r\<lparr>mn := n, flags := f OR 0, enc := e'\<rparr>, k1))"
      using n q(1) fa True put n31 by (simp add: sqlite3VdbeMemSetStr_def Let_def)
    have "\<exists>rc t k'. sqlite3VdbeMemSetStr A k p L (Some s) m e XTransient = Some (rc, t, k')
      \<and> (rc = 0 \<and> mem_ok t \<and> (if e = 0 then isBlob (flags t) else isStr (flags t)) \<and> (enc t, mem_bytes t) = stored s n e
         \<or> rc = SQLITE_NOMEM \<and> nulled t) \<and> (a_ok A k1 \<longrightarrow> rc = 0)"
      unfolding run
    proof (rule setstr_finish [OF refl c(1) e(1) c(2) e(2) _ _ _ _ _ _ c(4) _ A])
      show "n \<le> length (zbytes r)" using al o lb by (simp add: r)
      show "take n (zbytes r) = take n s" using al by (simp add: r b_def)
      show "if (0 :: u16) = 0 then szMalloc r = length (zMalloc r) \<and> 0 < szMalloc r else szMalloc r = 0"
        using lb o by (auto simp: r)
      show "m < 0 \<or> e \<noteq> 0 \<and> (0 :: u16) = 0x1000 \<and> xDel r = XRCStrUnref \<longrightarrow> term_at (zbytes r) n e'" using tb r by simp
    qed (simp_all add: r)
    then obtain rc' t k' where t: "sqlite3VdbeMemSetStr A k p L (Some s) m e XTransient = Some (rc', t, k')"
      "rc' = 0 \<and> mem_ok t \<and> (if e = 0 then isBlob (flags t) else isStr (flags t)) \<and> (enc t, mem_bytes t) = stored s n e
         \<or> rc' = SQLITE_NOMEM \<and> nulled t" "a_ok A k1 \<longrightarrow> rc' = 0" by blast
    have "set_str_result A L s m e rc' t" by (rule set_str_result_fit [OF t(2) _ n(2) c(5)]) (use t(3) in simp)
    then show ?thesis using t(1) by blast
  qed
qed

lemma set_str_foreign:
  assumes p: "mem_ok p" and A: "alloc_ok A" and s: "src_ok s m e x" and x: "x \<noteq> XTransient"
    and n: "setstr_size s m e L = Some (n, f, e')" "n \<le> L" "L < 2 ^ 31"
    and c: "e' = (if e = 0 then 1 else e)" "f = (if m < 0 then 0x202 else if e = 0 then 0x10 else 2)" "n \<le> length s"
      "e' \<noteq> 1 \<longrightarrow> even n" "src_len s m e n" "m < 0 \<or> x = XRCStrUnref \<and> e \<noteq> 0 \<longrightarrow> term_at s n e'"
  shows "\<exists>rc q k'. sqlite3VdbeMemSetStr A k p L (Some s) m e x = Some (rc, q, k')
    \<and> set_str_result A L s m e rc q"
proof -
  have n31: "take_bit 31 n = n" using n(2,3) by (simp add: take_bit_nat_eq_self)
  have e: "e \<in> {0, 1, 2, 3}" "m < 0 \<longrightarrow> e \<noteq> 0" and ne: "x = XDynamic \<longrightarrow> s \<noteq> []" using s by (auto simp: src_ok_def)
  obtain q where q: "sqlite3VdbeMemRelease p = Some q" "szMalloc q = 0" using release_ok [OF p] by blast
  define r where "r = (if x = XDynamic then q\<lparr>mz := ZMalloc, zMalloc := s, szMalloc := length s\<rparr> else q\<lparr>mz := ZExt s, xDel := x\<rparr>)"
  define g :: u16 where "g = (if x = XDynamic then 0 else if x = XStatic then 0x2000 else 0x1000)"
  have run: "sqlite3VdbeMemSetStr A k p L (Some s) m e x =
      (if e' > 1 then do {
         (rc, p, k) \<leftarrow> sqlite3VdbeMemHandleBom A k (r\<lparr>mn := n, flags := f OR g, enc := e'\<rparr>);
         Some (if rc \<noteq> 0 then SQLITE_NOMEM else SQLITE_OK, p, k)
       } else Some (SQLITE_OK, r\<lparr>mn := n, flags := f OR g, enc := e'\<rparr>, k))"
    using n q(1) x n31 by (cases "x = XDynamic") (simp_all add: sqlite3VdbeMemSetStr_def Let_def r_def g_def)
  have zr: "zbytes r = s" by (simp add: r_def zbytes_def)
  have "\<exists>rc t k'. sqlite3VdbeMemSetStr A k p L (Some s) m e x = Some (rc, t, k')
    \<and> (rc = 0 \<and> mem_ok t \<and> (if e = 0 then isBlob (flags t) else isStr (flags t)) \<and> (enc t, mem_bytes t) = stored s n e
       \<or> rc = SQLITE_NOMEM \<and> nulled t) \<and> (a_ok A k \<longrightarrow> rc = 0)"
    unfolding run
  proof (rule setstr_finish [OF refl c(1) e(1) c(2) e(2) _ _ _ _ _ _ c(4) _ A])
    show "n \<le> length (zbytes r)" "take n (zbytes r) = take n s" using c(3) by (simp_all add: zr)
    show "mz r = ZMalloc \<longleftrightarrow> g = 0" by (simp add: r_def g_def)
    show "if g = 0 then szMalloc r = length (zMalloc r) \<and> 0 < szMalloc r else szMalloc r = 0"
      using ne q(2) by (simp add: r_def g_def)
    show "m < 0 \<or> e \<noteq> 0 \<and> g = 0x1000 \<and> xDel r = XRCStrUnref \<longrightarrow> term_at (zbytes r) n e'"
      unfolding zr using c(6) by (auto simp: r_def g_def split: if_splits)
  qed (auto simp: r_def g_def)
  then obtain rc' t k' where t: "sqlite3VdbeMemSetStr A k p L (Some s) m e x = Some (rc', t, k')"
    "rc' = 0 \<and> mem_ok t \<and> (if e = 0 then isBlob (flags t) else isStr (flags t)) \<and> (enc t, mem_bytes t) = stored s n e
       \<or> rc' = SQLITE_NOMEM \<and> nulled t" "a_ok A k \<longrightarrow> rc' = 0" by blast
  have "set_str_result A L s m e rc' t" by (rule set_str_result_fit [OF t(2) _ n(2) c(5)]) (use t(3) in simp)
  then show ?thesis using t(1) by blast
qed

lemma set_str_ok:
  assumes p: "mem_ok p" and A: "alloc_ok A" and s: "src_ok s m e x" and L: "L < 2 ^ 31"
  shows "\<exists>rc q k'. sqlite3VdbeMemSetStr A k p L (Some s) m e x = Some (rc, q, k') \<and> set_str_result A L s m e rc q"
proof -
  obtain n f e' where n: "setstr_size s m e L = Some (n, f, e')"
    and c: "e' = (if e = 0 then 1 else e)" "f = (if m < 0 then 0x202 else if e = 0 then 0x10 else 2)"
      "n \<le> length s" "e' \<noteq> 1 \<longrightarrow> even n"
      "n \<le> L \<longrightarrow> src_len s m e n \<and> (m < 0 \<or> x = XRCStrUnref \<and> e \<noteq> 0 \<longrightarrow> term_at s n e')"
      "L < n \<longrightarrow> (\<forall>n'. src_len s m e n' \<longrightarrow> L < n')"
    using setstr_size_ok [OF s, of L] by blast
  consider "L < n" | "n \<le> L" "x = XTransient" | "n \<le> L" "x \<noteq> XTransient" by fastforce
  then show ?thesis
  proof cases
    case 1
    then show ?thesis using set_str_too_big [OF p n] c(6) by blast
  next
    case 2
    then show ?thesis using set_str_transient [OF p A _ n 2(1) L c(1-4)] s c(5) by blast
  next
    case 3
    then show ?thesis using set_str_foreign [OF p A s 3(2) n 3(1) L c(1-4)] c(5) by blast
  qed
qed

end
