(* ===== verification/Mem_Regs.thy ===== *)
theory Mem_Regs
  imports Mem_Text
begin

text \<open>
  \<^verbatim>\<open>vdbemem.c\<close> and \<^verbatim>\<open>vdbeaux.c\<close>: copies of cells, arrays of registers, and what holds of every history of
  operations on the registers. The account of a cell counts the calls of a destructor made for it and the one it
  still owes.
\<close>

unbundle bit_operations_syntax

subsection \<open>Copies\<close>

text \<open>A cell that reads the bytes of another one through a pointer it does not own.\<close>

lemma alias_ok:
  assumes p: "mem_ok p"
    and f: "\<forall>i. i \<noteq> 12 \<and> i \<noteq> 13 \<and> i \<noteq> 14 \<longrightarrow> bit (flags c) i = bit (flags p) i" "\<not> isDyn (flags c)"
      "isStatic (flags c) \<and> isEphem (flags c) \<longrightarrow> mn c = 0 \<and> \<not> isNull (flags c) \<or> isStatic (flags p) \<and> isEphem (flags p)" "isStr (flags c) \<or> isBlob (flags c) \<longrightarrow> isStatic (flags c) \<or> isEphem (flags c)"
    and z: "mz c \<noteq> ZMalloc" "0 < szMalloc c \<longrightarrow> szMalloc c = length (zMalloc c)"
    and e: "zbytes c = zbytes p" "mn c = mn p" "enc c = enc p" "mu c = mu p"
  shows "mem_ok c" "mem_bytes c = mem_bytes p"
proof -
  have b: "isNull (flags c) = isNull (flags p)" "isStr (flags c) = isStr (flags p)" "bit (flags c) 2 = bit (flags p) 2"
    "bit (flags c) 3 = bit (flags p) 3" "isBlob (flags c) = isBlob (flags p)" "bit (flags c) 5 = bit (flags p) 5"
    "bit (flags c) 7 = bit (flags p) 7" "bit (flags c) 8 = bit (flags p) 8" "isTerm (flags c) = isTerm (flags p)"
    "isZero (flags c) = isZero (flags p)" "bit (flags c) 11 = bit (flags p) 11" "isAgg (flags c) = isAgg (flags p)"
    using f(1) by simp_all
  have t: "terminated c = terminated p" by (simp add: terminated_def e)
  have "flag_base (flags c)"
    using p f(2,3) unfolding mem_ok_def flag_base_def b by (auto simp: one_if_def)
  moreover have "place_ok c"
  proof -
    have "(isStr (flags p) \<or> isBlob (flags p)) \<and> 0 < mn p \<longrightarrow> one_if (mz p = ZMalloc) + one_if (isDyn (flags p))
        + one_if (isEphem (flags p)) + one_if (isStatic (flags p)) = 1"
      using p unfolding mem_ok_def place_ok_def by (elim conjE)
    then have "(isStr (flags p) \<or> isBlob (flags p)) \<and> 0 < mn p \<longrightarrow> \<not> (isEphem (flags p) \<and> isStatic (flags p))"
      by (auto simp: one_if_def)
    then have one: "(isStr (flags c) \<or> isBlob (flags c)) \<and> 0 < mn c \<longrightarrow> isEphem (flags c) = (\<not> isStatic (flags c))"
      using f(3,4) b(2,5) e(2) by auto
    show ?thesis unfolding place_ok_def
    proof (intro conjI)
      show "(isStr (flags c) \<or> isBlob (flags c)) \<and> 0 < mn c \<longrightarrow> one_if (mz c = ZMalloc) + one_if (isDyn (flags c))
        + one_if (isEphem (flags c)) + one_if (isStatic (flags c)) = 1"
        using one z(1) f(2) by (simp add: one_if_def)
    qed (use f(2,4) z in auto)
  qed
  moreover have "value_ok c" using p f(2) unfolding mem_ok_def value_ok_def b t e by blast
  ultimately show "mem_ok c" by (simp add: mem_ok_def)
  show "mem_bytes c = mem_bytes p" by (simp add: mem_bytes_def zero_tail_def b e)
qed

lemma cell_copy_fields:
  "flags (cell_copy t p) = flags p" "mn (cell_copy t p) = mn p" "enc (cell_copy t p) = enc p" "mu (cell_copy t p) = mu p"
  "mz (cell_copy t p) \<noteq> ZMalloc" "szMalloc (cell_copy t p) = szMalloc t" "zMalloc (cell_copy t p) = zMalloc t"
  "zbytes (cell_copy t p) = zbytes p" "xDel (cell_copy t p) = xDel t" "dels (cell_copy t p) = dels t"
  "eSubtype (cell_copy t p) = eSubtype p"
  by (cases "mz p"; simp add: cell_copy_def zbytes_def)+

lemma unset_ok:
  assumes "mem_ok p"
  shows "\<exists>q. (if VdbeMemDynamic p then vdbeMemClearExternAndSetNull p else Some p) = Some q
    \<and> szMalloc q = szMalloc p \<and> zMalloc q = zMalloc p
    \<and> dels q = (if isDyn (flags p) then xDel p # dels p else dels p)"
  using dynamic_iff [OF assms] clear_extern_ok [OF assms] by simp

lemma copy_ok:
  assumes p: "mem_ok p" and t: "mem_ok t" and A: "alloc_ok A"
  shows "\<exists>rc q k'. sqlite3VdbeMemCopy A k t p = Some (rc, q, k')
    \<and> (rc = 0 \<and> keeps p q \<and> \<not> isDyn (flags q)
         \<and> (if (isStr (flags p) \<or> isBlob (flags p)) \<and> \<not> isStatic (flags p) then owned q
             else flags q = flags p AND NOT MEM_Dyn \<and> mn q = mn p \<and> zbytes q = zbytes p)
       \<or> rc = SQLITE_NOMEM \<and> nulled q) \<and> (a_ok A k \<longrightarrow> rc = 0)"
proof -
  have or: "(MEM_Str OR MEM_Blob :: u16) = 0x12" by simp
  obtain u where u: "(if VdbeMemDynamic t then vdbeMemClearExternAndSetNull t else Some t) = Some u"
    "szMalloc u = szMalloc t" "zMalloc u = zMalloc t" using unset_ok [OF t] by blast
  define c where "c = (cell_copy u p)\<lparr>flags := flags p AND NOT 0x1000\<rparr>"
  have c: "flags c = flags p AND NOT 0x1000" "mn c = mn p" "enc c = enc p" "mu c = mu p" "mz c \<noteq> ZMalloc"
    "szMalloc c = szMalloc t" "zMalloc c = zMalloc t" "zbytes c = zbytes p" "eSubtype c = eSubtype p"
    by (simp_all add: c_def cell_copy_fields u)
  have sz: "0 < szMalloc t \<longrightarrow> szMalloc t = length (zMalloc t)" by (rule mem_ok_size [OF t])
  show ?thesis
  proof (cases "(isStr (flags p) \<or> isBlob (flags p)) \<and> \<not> isStatic (flags p)")
    case True
    define d where "d = c\<lparr>flags := flags c OR 0x4000\<rparr>"
    have d: "flags d = (flags p AND NOT 0x1000) OR 0x4000" "mn d = mn p" "enc d = enc p" "mu d = mu p" "mz d \<noteq> ZMalloc"
      "szMalloc d = szMalloc t" "zMalloc d = zMalloc t" "zbytes d = zbytes p" "eSubtype d = eSubtype p" by (simp_all add: d_def c)
    have db: "bit (flags d) i \<longleftrightarrow> bit (flags p) i \<and> i \<noteq> 12 \<or> i = 14" for i by (simp only: d(1) flag_upd_bits(1,2) numeral_bits)
    have dok: "mem_ok d" "mem_bytes d = mem_bytes p"
      by (rule alias_ok [OF p]; use True sz d(2-) in \<open>simp add: db\<close>)+
    have sd: "isStr (flags d) = isStr (flags p)" "isBlob (flags d) = isBlob (flags p)" by (simp_all add: db)
    have "sqlite3VdbeMemCopy A k t p = sqlite3VdbeMemMakeWriteable A k d"
      using u(1) True c(1) by (simp add: sqlite3VdbeMemCopy_def Let_def or flag_tests cell_copy_fields c_def d_def flag_upd)
    moreover obtain rc q k' where "sqlite3VdbeMemMakeWriteable A k d = Some (rc, q, k')"
      "rc = 0 \<and> keeps d q \<and> owned q \<and> \<not> isZero (flags q) \<or> rc = SQLITE_NOMEM \<and> nulled q" "a_ok A k \<longrightarrow> rc = 0"
      using make_writeable_ok [OF dok(1) A, of k] True sd by blast
    moreover have "keeps p d" using dok d(3,4,9) sd unfolding keeps_def d(1) by (simp add: flag_upd)
    ultimately show ?thesis using True keeps_trans [of p d] by (auto simp: owned_def)
  next
    case False
    have cb: "bit (flags c) i \<longleftrightarrow> bit (flags p) i \<and> i \<noteq> 12" for i by (simp only: c(1) flag_upd_bits(1) numeral_bits)
    have cok: "mem_ok c" "mem_bytes c = mem_bytes p"
      by (rule alias_ok [OF p]; use False sz c(2-) in \<open>auto simp: cb\<close>)+
    have "sqlite3VdbeMemCopy A k t p = Some (0, c, k)"
      using u(1) False by (auto simp: sqlite3VdbeMemCopy_def Let_def or flag_tests cell_copy_fields c_def flag_upd)
    moreover have "keeps p c" using cok c(3,4,9) unfolding keeps_def c(1) by (simp add: flag_upd)
    moreover have "\<not> isDyn (flags c)" by (simp add: cb)
    ultimately show ?thesis using False c(1,2,8) by auto
  qed
qed

lemma shallow_copy_ok:
  assumes p: "mem_ok p" and t: "mem_ok t" and e: "e = MEM_Static \<or> e = MEM_Ephem" and s: "\<not> isStatic (flags p)"
  shows "\<exists>q. sqlite3VdbeMemShallowCopy t p e = Some q \<and> keeps p q"
proof -
  have or: "(MEM_Dyn OR MEM_Static OR MEM_Ephem :: u16) = 0x7000" by simp
  obtain u where u: "(if VdbeMemDynamic t then vdbeMemClearExternAndSetNull t else Some t) = Some u"
    "szMalloc u = szMalloc t" "zMalloc u = zMalloc t" using unset_ok [OF t] by blast
  define c where "c = (cell_copy u p)\<lparr>flags := (flags p AND NOT 0x7000) OR e\<rparr>"
  have c: "flags c = (flags p AND NOT 0x7000) OR e" "mn c = mn p" "enc c = enc p" "mu c = mu p" "mz c \<noteq> ZMalloc"
    "szMalloc c = szMalloc t" "zMalloc c = zMalloc t" "zbytes c = zbytes p" "eSubtype c = eSubtype p"
    by (simp_all add: c_def cell_copy_fields u)
  have cb: "bit (flags c) i \<longleftrightarrow> bit (flags p) i \<and> i \<noteq> 12 \<and> i \<noteq> 13 \<and> i \<noteq> 14 \<or> (if e = 0x2000 then i = 13 else i = 14)" for i
    using e by (auto simp only: c(1) flag_upd_bits(1,2) numeral_bits if_True if_False split: if_splits)
  have cok: "mem_ok c" "mem_bytes c = mem_bytes p"
    by (rule alias_ok [OF p]; use mem_ok_size [OF t] c(2-) in \<open>simp add: cb\<close>)+
  have "sqlite3VdbeMemShallowCopy t p e = Some c"
    using u(1) s by (simp add: sqlite3VdbeMemShallowCopy_def Let_def or flag_tests cell_copy_fields c_def)
  moreover have "same_kind (flags c) (flags p)" using e unfolding c(1) by (auto simp: flag_upd)
  ultimately show ?thesis using cok c(3,4,9) by (simp add: keeps_def cb)
qed

lemma move_ok:
  assumes p: "mem_ok p" and t: "mem_ok t"
  shows "\<exists>q. sqlite3VdbeMemMove t p = Some (p\<lparr>dels := dels q\<rparr>, p\<lparr>flags := MEM_Null, szMalloc := 0\<rparr>)
    \<and> sqlite3VdbeMemRelease t = Some q"
  using release_ok [OF t] by (auto simp: sqlite3VdbeMemMove_def)

lemma plain_ok:
  assumes "flags q = 4 \<or> flags q = 1" "0 < szMalloc q \<longrightarrow> szMalloc q = length (zMalloc q)"
  shows "mem_ok q"
  using assms by (auto simp: mem_ok_def flag_base_def place_ok_def value_ok_def flag_upd)

lemma set_int_ok:
  assumes p: "mem_ok p"
  shows "\<exists>q. sqlite3VdbeMemSetInt64 p v = Some q \<and> mem_ok q \<and> flags q = MEM_Int \<and> mu q = U_i v"
  using set_null_ok [OF p] mem_ok_size [OF p] dynamic_iff [OF p]
  by (auto simp: sqlite3VdbeMemSetInt64_def vdbeReleaseAndSetInt64_def intro!: plain_ok)

lemma set_zero_ok:
  assumes p: "mem_ok p"
  shows "\<exists>q. sqlite3VdbeMemSetZeroBlob p m = Some q \<and> mem_ok q \<and> isBlob (flags q) \<and> mem_bytes q = replicate (nat m) 0"
proof -
  obtain q where q: "sqlite3VdbeMemRelease p = Some q" "szMalloc q = 0" using release_ok [OF p] by blast
  define r where "r = q\<lparr>flags := 0x410, mn := 0, mu := U_nZero (if m < 0 then 0 else m), enc := 1, mz := ZNull\<rparr>"
  have r: "flags r = 0x410" "mn r = 0" "mu r = U_nZero (if m < 0 then 0 else m)" "enc r = 1" "mz r = ZNull" "szMalloc r = 0"
    by (simp_all add: r_def q)
  have b: "\<not> isStr (flags r)" "isBlob (flags r)" "isZero (flags r)" "\<not> isDyn (flags r)" "\<not> isNull (flags r)"
    by (simp_all add: r flag_upd)
  have "flag_base (flags r)" unfolding r flag_base_def by (simp add: flag_upd)
  moreover have "place_ok r" using b r by (simp add: place_ok_def)
  moreover have "value_ok r" using b r by (simp add: value_ok_def u_zero_def)
  ultimately have "mem_ok r" by (simp add: mem_ok_def)
  moreover have "mem_bytes r = replicate (nat m) 0" using b r by (simp add: mem_bytes_def zero_tail_def u_zero_def)
  moreover have "sqlite3VdbeMemSetZeroBlob p m = Some r" using q(1) by (simp add: sqlite3VdbeMemSetZeroBlob_def r_def)
  ultimately show ?thesis using b by blast
qed

lemma set_pointer_ok:
  assumes p: "mem_ok p" and x: "x \<noteq> Some XStatic"
  shows "\<exists>q. sqlite3VdbeMemSetPointer p b t x = Some q \<and> mem_ok q"
proof -
  obtain q where q: "vdbeMemClear p = Some q" "szMalloc q = 0"
    using dynamic_iff [OF p] clear_extern_ok [OF p] by (auto simp: vdbeMemClear_def Let_def)
  define r where "r = q\<lparr>mu := U_zPType (case t of Some t \<Rightarrow> t | None \<Rightarrow> [0]), mz := ZExt b, flags := 0x1a01, eSubtype := 112,
    xDel := (case x of Some x \<Rightarrow> x | None \<Rightarrow> XNoop)\<rparr>"
  have r: "flags r = 0x1a01" "xDel r \<noteq> XStatic" "szMalloc r = 0" using x q(2) by (auto simp: r_def split: option.splits)
  have b: "bit (0x1a01 :: u16) i \<longleftrightarrow> i = 0 \<or> i = 9 \<or> i = 11 \<or> i = 12" for i
    by (rule u16_nats [of _ i], simp add: upt_0_16, use u16_bit_ge in auto)
  have "flag_base (flags r)" unfolding r flag_base_def by (simp add: b one_if_def)
  moreover have "place_ok r" using r(2,3) unfolding place_ok_def r(1) by (simp add: b)
  moreover have "value_ok r" unfolding value_ok_def r(1) by (simp add: b)
  ultimately have "mem_ok r" by (simp add: mem_ok_def)
  then show ?thesis using q(1) by (simp add: sqlite3VdbeMemSetPointer_def r_def)
qed

lemma make_writeable_mem_ok:
  assumes p: "mem_ok p" and A: "alloc_ok A"
  shows "\<exists>rc q k'. sqlite3VdbeMemMakeWriteable A k p = Some (rc, q, k') \<and> mem_ok q"
proof (cases "isStr (flags p) \<or> isBlob (flags p)")
  case True
  then show ?thesis using make_writeable_ok [OF p A True, of k] nulled_ok by (auto simp: keeps_def)
next
  case False
  have or: "(MEM_Str OR MEM_Blob :: u16) = 0x12" by simp
  define c where "c = p\<lparr>flags := flags p AND NOT 0x4000\<rparr>"
  have fc: "flags c = flags p AND NOT 0x4000" by (simp add: c_def)
  have cb: "bit (flags c) i \<longleftrightarrow> bit (flags p) i \<and> i \<noteq> 14" for i by (simp only: fc flag_upd_bits(1) numeral_bits)
  have c: "szMalloc c = szMalloc p" "zMalloc c = zMalloc p" "xDel c = xDel p" by (simp_all add: c_def)
  have "isDyn (flags p) \<longrightarrow> xDel p \<noteq> XStatic \<and> szMalloc p = 0" using p unfolding mem_ok_def place_ok_def by (elim conjE)
  then have "place_ok c" using False mem_ok_size [OF p] unfolding place_ok_def c by (simp add: cb)
  moreover have "value_ok c" using False unfolding value_ok_def by (simp add: cb)
  moreover have "flag_base (flags c)"
  proof -
    have b: "bit (flags c) i = bit (flags p) i" if "i \<noteq> 14" for i using that by (simp add: cb)
    show ?thesis using p b [of 0] b [of 1] b [of 2] b [of 3] b [of 4] b [of 5] b [of 7] b [of 8] b [of 9] b [of 10] b [of 11]
        b [of 12] b [of 13] b [of 15] cb [of 14]
      unfolding mem_ok_def flag_base_def by (auto simp: one_if_def)
  qed
  ultimately have "mem_ok c" by (simp add: mem_ok_def)
  moreover have "sqlite3VdbeMemMakeWriteable A k p = Some (0, c, k)"
    using False by (simp add: sqlite3VdbeMemMakeWriteable_def or flag_tests c_def)
  ultimately show ?thesis by blast
qed

lemma nul_terminate_mem_ok:
  assumes p: "mem_ok p" and A: "alloc_ok A"
  shows "\<exists>rc q k'. sqlite3VdbeMemNulTerminate A k p = Some (rc, q, k') \<and> mem_ok q"
proof (cases "isStr (flags p)")
  case True
  then show ?thesis using nul_terminate_ok [OF p A True, of k] nulled_ok by (auto simp: keeps_def)
next
  case False
  have or: "(MEM_Term OR MEM_Str :: u16) = 0x202" by simp
  show ?thesis using p False by (simp add: sqlite3VdbeMemNulTerminate_def or flag_tests)
qed

subsection \<open>Destructors\<close>

text \<open>The calls of a destructor made for a cell, and the one it still owes.\<close>

definition ledger :: "Mem \<Rightarrow> xdel \<Rightarrow> nat" where
  "ledger p x = count_list (dels p) x + (if isDyn (flags p) \<and> xDel p = x then 1 else 0)"

named_theorems ledger \<open>operations that keep the account of the destructors\<close>

lemma ledger_cong: "\<lbrakk>dels q = dels p; isDyn (flags q) = isDyn (flags p); xDel q = xDel p\<rbrakk> \<Longrightarrow> ledger q = ledger p"
  by (rule ext) (simp add: ledger_def)

lemma ledger_upd [simp]:
  "ledger (p\<lparr>mn := n\<rparr>) = ledger p" "ledger (p\<lparr>enc := e\<rparr>) = ledger p" "ledger (p\<lparr>mz := z\<rparr>) = ledger p"
  "ledger (p\<lparr>szMalloc := m\<rparr>) = ledger p" "ledger (p\<lparr>zMalloc := b\<rparr>) = ledger p" "ledger (p\<lparr>mu := u\<rparr>) = ledger p"
  "ledger (p\<lparr>eSubtype := c\<rparr>) = ledger p"
  by (simp_all add: ledger_def fun_eq_iff)

lemma ledger_flags: "isDyn f = isDyn (flags p) \<Longrightarrow> ledger (p\<lparr>flags := f\<rparr>) = ledger p"
  by (rule ledger_cong) simp_all

lemma ledger_put_z [ledger]: "put_z p i bs = Some q \<Longrightarrow> ledger q = ledger p \<and> flags q = flags p"
  by (auto simp: put_z_def split: memz.splits)

lemma ledger_clear_extern [ledger]: "vdbeMemClearExternAndSetNull p = Some q \<Longrightarrow> ledger q = ledger p \<and> flags q = 1"
  by (auto simp: vdbeMemClearExternAndSetNull_def Let_def flag_tests flag_upd ledger_def fun_eq_iff split: if_splits)

lemma ledger_unset [ledger]:
  "(if VdbeMemDynamic p then vdbeMemClearExternAndSetNull p else Some p) = Some q \<Longrightarrow> ledger q = ledger p \<and> \<not> isDyn (flags q)"
  using ledger_clear_extern [of p q] by (auto simp: VdbeMemDynamic_def flag_tests flag_upd split: if_splits)

lemma ledger_clear [ledger]: "vdbeMemClear p = Some q \<Longrightarrow> ledger q = ledger p \<and> \<not> isDyn (flags q)"
proof -
  assume "vdbeMemClear p = Some q"
  then obtain y where y: "(if VdbeMemDynamic p then vdbeMemClearExternAndSetNull p else Some p) = Some y"
    "q = (if szMalloc y \<noteq> 0 then y\<lparr>szMalloc := 0, zMalloc := []\<rparr> else y)\<lparr>mz := ZNull\<rparr>"
    unfolding vdbeMemClear_def Let_def by (auto simp only: bind_eq_Some_conv option.inject)
  then show ?thesis using ledger_unset [OF y(1)] by (cases "szMalloc y = 0") simp_all
qed

lemma ledger_release [ledger]: "sqlite3VdbeMemRelease p = Some q \<Longrightarrow> ledger q = ledger p \<and> \<not> isDyn (flags q)"
  using ledger_clear [of p q] by (auto simp: sqlite3VdbeMemRelease_def VdbeMemDynamic_def flag_tests split: if_splits)

lemma ledger_set_null [ledger]: "sqlite3VdbeMemSetNull p = Some q \<Longrightarrow> ledger q = ledger p \<and> \<not> isDyn (flags q)"
  using ledger_clear_extern [of p q]
  by (auto simp: sqlite3VdbeMemSetNull_def VdbeMemDynamic_def flag_tests flag_upd intro!: ledger_flags split: if_splits)

lemma ledger_grow [ledger]:
  assumes "sqlite3VdbeMemGrow A k p m b = Some (rc, q, k')"
  shows "ledger q = ledger p \<and> \<not> isDyn (flags q)"
proof -
  have or: "(MEM_Dyn OR MEM_Ephem OR MEM_Static :: u16) = 0x7000" by simp
  define own where "own = (szMalloc p > 0 \<and> b \<and> mz p = ZMalloc)"
  show ?thesis
  proof (cases "if own then db_realloc A k (zMalloc p) m else db_malloc A k m")
    case None
    then show ?thesis using assms ledger_set_null [of p]
      by (auto simp: sqlite3VdbeMemGrow_def own_def [symmetric] bind_eq_Some_conv)
  next
    case (Some buf)
    define p' where "p' = (if flags p AND 0x1000 \<noteq> 0 then p\<lparr>dels := xDel p # dels p\<rparr> else p)"
    obtain buf' where "q = p'\<lparr>zMalloc := buf', szMalloc := length buf', mz := ZMalloc, flags := flags p' AND NOT 0x7000\<rparr>"
      using assms Some unfolding sqlite3VdbeMemGrow_def own_def [symmetric] or
      by (auto simp: Let_def p'_def bind_eq_Some_conv)
    then show ?thesis by (auto simp: ledger_def fun_eq_iff p'_def flag_tests flag_upd)
  qed
qed

lemma ledger_terminator [ledger]:
  assumes "vdbeMemAddTerminator A k p = Some (rc, q, k')"
  shows "ledger q = ledger p \<and> \<not> isDyn (flags q)"
proof -
  obtain rc1 p1 k1 where g: "sqlite3VdbeMemGrow A k p (mn p + 3) True = Some (rc1, p1, k1)"
    "(if rc1 \<noteq> 0 then Some (SQLITE_NOMEM, p1, k1) else do {
       p2 \<leftarrow> put_z p1 (mn p1) [0, 0, 0]; Some (SQLITE_OK, p2\<lparr>flags := flags p2 OR 0x200\<rparr>, k1) }) = Some (rc, q, k')"
    using assms unfolding vdbeMemAddTerminator_def by (auto simp: bind_eq_Some_conv)
  have l: "ledger p1 = ledger p" "\<not> isDyn (flags p1)" using ledger_grow [OF g(1)] by auto
  show ?thesis
  proof (cases "rc1 = 0")
    case True
    then obtain p2 where p2: "put_z p1 (mn p1) [0, 0, 0] = Some p2" "q = p2\<lparr>flags := flags p2 OR 0x200\<rparr>"
      using g(2) by (auto simp: bind_eq_Some_conv)
    then show ?thesis using ledger_put_z [OF p2(1)] l ledger_flags [of "flags p2 OR 0x200" p2] by (simp add: flag_upd)
  qed (use g(2) l in simp)
qed

lemma ledger_expand [ledger]:
  assumes "sqlite3VdbeMemExpandBlob A k p = Some (rc, q, k')"
  shows "ledger q = ledger p"
proof -
  obtain z where z: "u_zero (mu p) = Some z" "\<not> z < 0" using assms by (auto simp: sqlite3VdbeMemExpandBlob_def bind_eq_Some_conv split: if_splits)
  have or: "(MEM_Zero OR MEM_Term :: u16) = 0x600" by simp
  show ?thesis
  proof (cases "mn p + nat z = 0 \<and> flags p AND 0x10 = 0")
    case True
    then show ?thesis using assms z by (simp add: sqlite3VdbeMemExpandBlob_def)
  next
    case False
    define m where "m = (if mn p + nat z = 0 then 1 else mn p + nat z)"
    obtain rc1 p1 k1 where g: "sqlite3VdbeMemGrow A k p m True = Some (rc1, p1, k1)"
      "(if rc1 \<noteq> 0 then Some (SQLITE_NOMEM, p1, k1) else do {
         p2 \<leftarrow> put_z p1 (mn p1) (replicate (nat z) 0);
         Some (SQLITE_OK, p2\<lparr>mn := mn p2 + nat z, flags := flags p2 AND NOT 0x600\<rparr>, k1) }) = Some (rc, q, k')"
      using assms False z unfolding sqlite3VdbeMemExpandBlob_def m_def or by (auto simp: bind_eq_Some_conv Let_def)
    have l: "ledger p1 = ledger p" "\<not> isDyn (flags p1)" using ledger_grow [OF g(1)] by auto
    show ?thesis
    proof (cases "rc1 = 0")
      case True
      then obtain p2 where p2: "put_z p1 (mn p1) (replicate (nat z) 0) = Some p2"
        "q = p2\<lparr>mn := mn p2 + nat z, flags := flags p2 AND NOT 0x600\<rparr>"
        using g(2) by (auto simp: bind_eq_Some_conv)
      have "ledger q = ledger (p2\<lparr>mn := mn p2 + nat z\<rparr>)"
        unfolding p2(2) by (rule ledger_flags) (simp add: flag_upd)
      then show ?thesis using ledger_put_z [OF p2(1)] l by simp
    qed (use g(2) l in simp)
  qed
qed

lemma ledger_writeable [ledger]:
  assumes "sqlite3VdbeMemMakeWriteable A k p = Some (rc, q, k')"
  shows "ledger q = ledger p"
proof -
  have eph: "ledger (r\<lparr>flags := flags r AND NOT 0x4000\<rparr>) = ledger r" for r
    by (rule ledger_flags) (simp add: flag_upd)
  have ex: "ledger q1 = ledger p" if "ExpandBlob A k p = Some (rc1, q1, k1)" for rc1 q1 k1
    using that by (auto simp: ExpandBlob_def split: if_splits dest: ledger_expand)
  show ?thesis
    using assms unfolding sqlite3VdbeMemMakeWriteable_def
    by (auto simp: bind_eq_Some_conv eph [simplified] split: if_splits dest!: ex ledger_terminator)
qed

lemma ledger_nul [ledger]: "sqlite3VdbeMemNulTerminate A k p = Some (rc, q, k') \<Longrightarrow> ledger q = ledger p"
  by (auto simp: sqlite3VdbeMemNulTerminate_def split: if_splits dest: ledger_terminator)

lemma ledger_zero_term [ledger]: "sqlite3VdbeMemZeroTerminateIfAble p = Some q \<Longrightarrow> ledger q = ledger p"
proof -
  assume a: "sqlite3VdbeMemZeroTerminateIfAble p = Some q"
  have t: "ledger (r\<lparr>flags := flags r OR 0x200\<rparr>) = ledger r" for r by (rule ledger_flags) (simp add: flag_upd)
  consider "q = p" | "q = p\<lparr>flags := flags p OR 0x200\<rparr>" | r where "put_z p (mn p) [0] = Some r" "q = r\<lparr>flags := flags r OR 0x200\<rparr>"
    using a unfolding sqlite3VdbeMemZeroTerminateIfAble_def by (auto split: if_splits)
  then show ?thesis using t ledger_put_z by cases (simp, simp, metis)
qed

lemma ledger_translate [ledger]:
  assumes a: "sqlite3VdbeMemTranslate A k p d = Some (rc, q, k')"
  shows "ledger q = ledger p"
proof (cases "enc p \<noteq> SQLITE_UTF8 \<and> d \<noteq> SQLITE_UTF8")
  case True
  then show ?thesis using a unfolding sqlite3VdbeMemTranslate_def
    by (auto simp: bind_eq_Some_conv split: if_splits dest!: ledger_writeable ledger_put_z)
next
  case False
  define p' where "p' = (if d = SQLITE_UTF8 then p\<lparr>mn := mn p - mn p mod 2\<rparr> else p)"
  have l: "ledger p' = ledger p" by (simp add: p'_def)
  have or: "(MEM_Str OR MEM_Term :: u16) = 0x202" by simp
  consider "q = p'" | r m f e b n where "sqlite3VdbeMemRelease (p'\<lparr>mn := m\<rparr>) = Some r"
    "q = r\<lparr>flags := MEM_Str OR MEM_Term OR (f AND 0x83f), enc := e, mz := ZMalloc, zMalloc := b, szMalloc := n\<rparr>"
    using a False unfolding sqlite3VdbeMemTranslate_def p'_def [symmetric]
    by (auto simp: Let_def bind_eq_Some_conv split: option.splits)
  then show ?thesis
  proof cases
    case 2
    have "ledger q = ledger r" unfolding 2(2) using ledger_release [OF 2(1)]
      by (simp add: ledger_flags flag_upd)
    then show ?thesis using ledger_release [OF 2(1)] l by simp
  qed (use l in simp)
qed

lemma ledger_change_enc [ledger]: "sqlite3VdbeChangeEncoding A k p d = Some (rc, q, k') \<Longrightarrow> ledger q = ledger p"
  by (auto simp: sqlite3VdbeChangeEncoding_def split: if_splits dest: ledger_translate)

lemma ledger_bom [ledger]:
  assumes "sqlite3VdbeMemHandleBom A k p = Some (rc, q, k')"
  shows "ledger q = ledger p"
proof -
  have t: "ledger (r\<lparr>flags := f OR 0x200\<rparr>) = ledger r" if "flags r = f" for r f using that by (simp add: ledger_flags flag_upd)
  show ?thesis using assms unfolding sqlite3VdbeMemHandleBom_def
    by (auto simp: bind_eq_Some_conv Let_def t split: if_splits dest!: ledger_writeable ledger_put_z)
qed

lemma ledger_set_int [ledger]: "sqlite3VdbeMemSetInt64 p v = Some q \<Longrightarrow> ledger q = ledger p"
proof -
  assume a: "sqlite3VdbeMemSetInt64 p v = Some q"
  show ?thesis
  proof (cases "VdbeMemDynamic p")
    case True
    then obtain r where r: "sqlite3VdbeMemSetNull p = Some r" "q = r\<lparr>mu := U_i v, flags := 4\<rparr>"
      using a by (auto simp: sqlite3VdbeMemSetInt64_def vdbeReleaseAndSetInt64_def)
    then show ?thesis using ledger_set_null [OF r(1)] by (simp add: ledger_flags flag_upd)
  next
    case False
    then have "\<not> isDyn (flags p)" "q = p\<lparr>mu := U_i v, flags := 4\<rparr>"
      using a by (auto simp: sqlite3VdbeMemSetInt64_def VdbeMemDynamic_def flag_tests)
    then show ?thesis by (simp add: ledger_flags flag_upd)
  qed
qed

lemma ledger_set_zero [ledger]: "sqlite3VdbeMemSetZeroBlob p m = Some q \<Longrightarrow> ledger q = ledger p"
proof -
  assume "sqlite3VdbeMemSetZeroBlob p m = Some q"
  then obtain r n where r: "sqlite3VdbeMemRelease p = Some r" "q = r\<lparr>flags := 0x410, mn := 0, mu := n, enc := 1, mz := ZNull\<rparr>"
    by (auto simp: sqlite3VdbeMemSetZeroBlob_def)
  then show ?thesis using ledger_release [OF r(1)] by (simp add: ledger_flags flag_upd)
qed

lemma ledger_copy [ledger]:
  assumes "sqlite3VdbeMemCopy A k t p = Some (rc, q, k')"
  shows "ledger q = ledger t"
proof -
  obtain u where u: "(if VdbeMemDynamic t then vdbeMemClearExternAndSetNull t else Some t) = Some u"
    using assms by (auto simp: sqlite3VdbeMemCopy_def bind_eq_Some_conv simp del: if_split)
  have lu: "ledger u = ledger t" "\<not> isDyn (flags u)" using ledger_unset [OF u] by auto
  define c where "c = (cell_copy u p)\<lparr>flags := flags p AND NOT 0x1000\<rparr>"
  define d where "d = c\<lparr>flags := flags c OR 0x4000\<rparr>"
  have dyn: "\<not> isDyn (flags c)" "\<not> isDyn (flags d)" by (simp_all add: c_def d_def flag_upd)
  have lc: "ledger c = ledger u" "ledger d = ledger u"
    using lu(2) dyn by (simp_all add: ledger_def fun_eq_iff c_def d_def cell_copy_fields)
  have "q = c \<or> sqlite3VdbeMemMakeWriteable A k d = Some (rc, q, k')"
    using assms unfolding sqlite3VdbeMemCopy_def u by (auto simp: Let_def c_def d_def cell_copy_fields split: if_splits)
  then show ?thesis using lc lu(1) ledger_writeable by metis
qed

lemma ledger_move [ledger]:
  assumes "sqlite3VdbeMemMove t p = Some (q, r)"
  shows "ledger q x + ledger r x = ledger t x + ledger p x"
proof -
  obtain u where u: "sqlite3VdbeMemRelease t = Some u" "q = p\<lparr>dels := dels u\<rparr>" "r = p\<lparr>flags := 1, szMalloc := 0\<rparr>"
    using assms by (auto simp: sqlite3VdbeMemMove_def)
  have "ledger u x = ledger t x" "\<not> isDyn (flags u)" using ledger_release [OF u(1)] by auto
  then have "count_list (dels u) x = ledger t x" by (simp add: ledger_def)
  then show ?thesis unfolding u(2,3) by (simp add: ledger_def flag_upd)
qed

text \<open>Operations that hand a buffer with its destructor to the cell.\<close>

lemma ledger_set_pointer [ledger]:
  assumes "sqlite3VdbeMemSetPointer p b t xo = Some q"
  shows "ledger q x = ledger p x + (if x = (case xo of Some x \<Rightarrow> x | None \<Rightarrow> XNoop) then 1 else 0)"
proof -
  define y where "y = (case xo of Some x \<Rightarrow> x | None \<Rightarrow> XNoop)"
  obtain u v where u: "vdbeMemClear p = Some u" "q = u\<lparr>mu := v, mz := ZExt b, flags := 0x1a01, eSubtype := 112, xDel := y\<rparr>"
    using assms by (auto simp: sqlite3VdbeMemSetPointer_def y_def)
  have "count_list (dels u) x = ledger p x" using ledger_clear [OF u(1)] by (auto simp: ledger_def fun_eq_iff)
  moreover have "isDyn (0x1a01 :: u16)" by simp
  ultimately show ?thesis unfolding u(2) y_def [symmetric] by (auto simp: ledger_def)
qed

lemma ledger_set_str [ledger]:
  assumes a: "sqlite3VdbeMemSetStr A k p L (Some s) m e y = Some (rc, q, k')" and p: "mem_ok p"
    and x: "x \<noteq> XDynamic" "x \<noteq> XStatic" "x \<noteq> XTransient"
    and f: "setstr_size s m e L = Some (n, f, e')" "\<not> isDyn f"
  shows "ledger q x = ledger p x + (if x = y then 1 else 0)"
proof -
  have fin: "ledger q = ledger r" if "(if e' > 1 then do {
         (rc, p, k) \<leftarrow> sqlite3VdbeMemHandleBom A k1 r; Some (if rc \<noteq> 0 then SQLITE_NOMEM else SQLITE_OK, p, k)
       } else Some (SQLITE_OK, r, k1)) = Some (rc, q, k')" for r k1
    using that by (auto simp: bind_eq_Some_conv split: if_splits dest!: ledger_bom)
  consider "n > L" | "n \<le> L" "y = XTransient" | "n \<le> L" "y \<noteq> XTransient" by fastforce
  then show ?thesis
  proof cases
    case 1
    define p' where "p' = (if y \<noteq> XStatic \<and> y \<noteq> XTransient then p\<lparr>dels := y # dels p\<rparr> else p)"
    have "sqlite3VdbeMemSetNull p' = Some q"
      using a f(1) 1 by (auto simp: sqlite3VdbeMemSetStr_def setstr_too_big_def p'_def [symmetric])
    then have "ledger q = ledger p'" using ledger_set_null by blast
    then show ?thesis using x by (auto simp: p'_def ledger_def)
  next
    case 2
    define N where "N = (if f AND MEM_Term \<noteq> 0 then n + (if e' = SQLITE_UTF8 then 1 else 2) else n)"
    obtain rc1 p1 k1 where c: "sqlite3VdbeMemClearAndResize A k p (max N 32) = Some (rc1, p1, k1)"
      using a f(1) 2 by (cases "sqlite3VdbeMemClearAndResize A k p (max N 32)")
        (auto simp: sqlite3VdbeMemSetStr_def Let_def N_def)
    have "isDyn (flags p) \<longrightarrow> xDel p \<noteq> XStatic \<and> szMalloc p = 0" using p unfolding mem_ok_def place_ok_def by (elim conjE)
    then have l: "ledger p1 = ledger p" "\<not> isDyn (flags p1)"
      using c ledger_grow unfolding sqlite3VdbeMemClearAndResize_def
      by (auto simp: ledger_flags flag_upd split: if_splits)
    show ?thesis
    proof (cases "rc1 = 0")
      case False
      then have "q = p1" using a f(1) 2 c by (simp add: sqlite3VdbeMemSetStr_def Let_def N_def)
      then show ?thesis using l 2(2) x(3) by simp
    next
      case True
      obtain src where src: "mem_get s 0 N = Some src"
        using a f(1) 2 c True by (cases "mem_get s 0 N") (simp_all add: sqlite3VdbeMemSetStr_def Let_def N_def)
      obtain p2 where p2: "put_z p1 0 src = Some p2"
        using a f(1) 2 c True src by (cases "put_z p1 0 src") (simp_all add: sqlite3VdbeMemSetStr_def Let_def N_def)
      have "(if e' > 1 then do {
           (rc, p, k) \<leftarrow> sqlite3VdbeMemHandleBom A k1 (p2\<lparr>mn := take_bit 31 n, flags := f, enc := e'\<rparr>);
           Some (if rc \<noteq> 0 then SQLITE_NOMEM else SQLITE_OK, p, k)
         } else Some (SQLITE_OK, p2\<lparr>mn := take_bit 31 n, flags := f, enc := e'\<rparr>, k1)) = Some (rc, q, k')"
        using a f(1) 2 c True src p2 by (simp add: sqlite3VdbeMemSetStr_def Let_def N_def)
      then have "ledger q = ledger (p2\<lparr>mn := take_bit 31 n, flags := f, enc := e'\<rparr>)" by (rule fin)
      then show ?thesis using l 2(2) x(3) f(2) ledger_put_z [OF p2] by (simp add: ledger_flags)
    qed
  next
    case 3
    obtain u where u: "sqlite3VdbeMemRelease p = Some u" using a f(1) 3
      unfolding sqlite3VdbeMemSetStr_def by (auto simp: bind_eq_Some_conv)
    define r g where "r = (if y = XDynamic then u\<lparr>mz := ZMalloc, zMalloc := s, szMalloc := length s\<rparr> else u\<lparr>mz := ZExt s, xDel := y\<rparr>)"
      and "g = (if y = XDynamic then f else if y = XStatic then f OR 0x2000 else f OR 0x1000)"
    have run: "sqlite3VdbeMemSetStr A k p L (Some s) m e y =
      (if e' > 1 then do {
         (rc, p, k) \<leftarrow> sqlite3VdbeMemHandleBom A k (r\<lparr>mn := take_bit 31 n, flags := g, enc := e'\<rparr>);
         Some (if rc \<noteq> 0 then SQLITE_NOMEM else SQLITE_OK, p, k)
       } else Some (SQLITE_OK, r\<lparr>mn := take_bit 31 n, flags := g, enc := e'\<rparr>, k))"
      using f(1) 3 u by (cases "y = XDynamic") (simp_all add: sqlite3VdbeMemSetStr_def Let_def r_def g_def)
    have "ledger q = ledger (r\<lparr>mn := take_bit 31 n, flags := g, enc := e'\<rparr>)"
      using a unfolding run by (rule fin)
    moreover have "count_list (dels u) x = ledger p x" using ledger_release [OF u] by (auto simp: ledger_def fun_eq_iff)
    ultimately show ?thesis using x f(2) 3(2) by (auto simp: ledger_def r_def g_def flag_upd)
  qed
qed

subsection \<open>Arrays of cells\<close>

definition initMemArray :: "Mem list \<Rightarrow> u16 \<Rightarrow> Mem list" where
  "initMemArray rs f = map (\<lambda>p. p\<lparr>flags := f, szMalloc := 0\<rparr>) rs"

text \<open>The flag says whether the connection only counts the bytes it would free.\<close>

fun releaseMemArray :: "bool \<Rightarrow> Mem list \<Rightarrow> Mem list option" where
  "releaseMemArray pnBytesFreed [] = Some []"
| "releaseMemArray pnBytesFreed (p # rs) =
     (if pnBytesFreed then Some (p # rs)
      else do {
        p \<leftarrow> (if flags p AND (MEM_Agg OR MEM_Dyn) \<noteq> 0
              then map_option (\<lambda>p. p\<lparr>flags := MEM_Undefined\<rparr>) (sqlite3VdbeMemRelease p)
              else Some (if szMalloc p \<noteq> 0 then p\<lparr>zMalloc := [], szMalloc := 0, flags := MEM_Undefined\<rparr> else p));
        rs \<leftarrow> releaseMemArray pnBytesFreed rs;
        Some (p # rs)
      })"

subsection \<open>Histories\<close>

text \<open>The operations of the bytecode engine on its registers.\<close>

datatype cell_op =
    OSetNull nat
  | OSetInt nat u64
  | OSetZero nat int
  | OSetPointer nat "u8 list" "u8 list option" "xdel option"
  | OSetStr nat "u8 list option" int u8 xdel
  | OChangeEncoding nat u8
  | OMakeWriteable nat
  | ONulTerminate nat
  | OZeroTerminate nat
  | OCopy nat nat
  | OMove nat nat

definition on_cell :: "nat \<Rightarrow> (Mem \<Rightarrow> Mem option) \<Rightarrow> nat \<times> Mem list \<Rightarrow> (nat \<times> Mem list) option" where
  "on_cell i f s = (if i < length (snd s) then map_option (\<lambda>q. (fst s, (snd s)[i := q])) (f (snd s ! i)) else None)"

definition on_cell_rc ::
  "nat \<Rightarrow> (nat \<Rightarrow> Mem \<Rightarrow> (rc \<times> Mem \<times> nat) option) \<Rightarrow> nat \<times> Mem list \<Rightarrow> (nat \<times> Mem list) option" where
  "on_cell_rc i f s =
     (if i < length (snd s) then map_option (\<lambda>(rc, q, k). (k, (snd s)[i := q])) (f (fst s) (snd s ! i)) else None)"

fun cell_step :: "alloc \<Rightarrow> nat \<Rightarrow> cell_op \<Rightarrow> nat \<times> Mem list \<Rightarrow> (nat \<times> Mem list) option" where
  "cell_step A L (OSetNull i) s = on_cell i sqlite3VdbeMemSetNull s"
| "cell_step A L (OSetInt i v) s = on_cell i (\<lambda>p. sqlite3VdbeMemSetInt64 p v) s"
| "cell_step A L (OSetZero i m) s = on_cell i (\<lambda>p. sqlite3VdbeMemSetZeroBlob p m) s"
| "cell_step A L (OSetPointer i b t x) s = on_cell i (\<lambda>p. sqlite3VdbeMemSetPointer p b t x) s"
| "cell_step A L (OSetStr i z m e x) s = on_cell_rc i (\<lambda>k p. sqlite3VdbeMemSetStr A k p L z m e x) s"
| "cell_step A L (OChangeEncoding i e) s = on_cell_rc i (\<lambda>k p. sqlite3VdbeChangeEncoding A k p e) s"
| "cell_step A L (OMakeWriteable i) s = on_cell_rc i (\<lambda>k p. sqlite3VdbeMemMakeWriteable A k p) s"
| "cell_step A L (ONulTerminate i) s = on_cell_rc i (\<lambda>k p. sqlite3VdbeMemNulTerminate A k p) s"
| "cell_step A L (OZeroTerminate i) s = on_cell i sqlite3VdbeMemZeroTerminateIfAble s"
| "cell_step A L (OCopy i j) s =
     (if j < length (snd s) then on_cell_rc i (\<lambda>k p. sqlite3VdbeMemCopy A k p (snd s ! j)) s else None)"
| "cell_step A L (OMove i j) s =
     (if i < length (snd s) \<and> j < length (snd s)
      then map_option (\<lambda>(q, r). (fst s, (snd s)[i := q, j := r])) (sqlite3VdbeMemMove (snd s ! i) (snd s ! j))
      else None)"

fun cell_run :: "alloc \<Rightarrow> nat \<Rightarrow> cell_op list \<Rightarrow> nat \<times> Mem list \<Rightarrow> (nat \<times> Mem list) option" where
  "cell_run A L [] s = Some s"
| "cell_run A L (op # ops) s = Option.bind (cell_step A L op s) (cell_run A L ops)"

text \<open>What a caller has to ensure, for \<open>n\<close> registers.\<close>

fun op_ok :: "nat \<Rightarrow> cell_op \<Rightarrow> bool" where
  "op_ok n (OSetNull i) = (i < n)"
| "op_ok n (OSetInt i v) = (i < n)"
| "op_ok n (OSetZero i m) = (i < n)"
| "op_ok n (OSetPointer i b t x) = (i < n \<and> x \<noteq> Some XStatic)"
| "op_ok n (OSetStr i z m e x) = (i < n \<and> (case z of None \<Rightarrow> True | Some s \<Rightarrow> src_ok s m e x))"
| "op_ok n (OChangeEncoding i e) = (i < n \<and> e \<in> {1, 2, 3})"
| "op_ok n (OMakeWriteable i) = (i < n)"
| "op_ok n (ONulTerminate i) = (i < n)"
| "op_ok n (OZeroTerminate i) = (i < n)"
| "op_ok n (OCopy i j) = (i < n \<and> j < n \<and> i \<noteq> j)"
| "op_ok n (OMove i j) = (i < n \<and> j < n \<and> i \<noteq> j)"

text \<open>The destructor that an operation hands over.\<close>

fun op_xdel :: "cell_op \<Rightarrow> xdel option" where
  "op_xdel (OSetPointer i b t x) = Some (case x of Some x \<Rightarrow> x | None \<Rightarrow> XNoop)"
| "op_xdel (OSetStr i (Some z) m e x) = Some x"
| "op_xdel _ = None"

definition regs_ok :: "nat \<Rightarrow> nat \<times> Mem list \<Rightarrow> bool" where
  "regs_ok n s \<longleftrightarrow> length (snd s) = n \<and> list_all mem_ok (snd s)"

definition regs_ledger :: "nat \<times> Mem list \<Rightarrow> xdel \<Rightarrow> nat" where
  "regs_ledger s x = sum_list (map (\<lambda>p. ledger p x) (snd s))"

subsection \<open>Machines that own resources\<close>

text \<open>A machine whose steps keep an invariant and add to an account exactly what they are given.\<close>

locale resource_machine =
  fixes step :: "'o \<Rightarrow> 's \<Rightarrow> 's option" and run :: "'o list \<Rightarrow> 's \<Rightarrow> 's option"
    and inv :: "'s \<Rightarrow> bool" and ok :: "'o \<Rightarrow> bool"
    and account :: "'s \<Rightarrow> 'x \<Rightarrow> nat" and gives :: "'o \<Rightarrow> 'x option" and tracked :: "'x \<Rightarrow> bool"
  assumes run_nil: "run [] s = Some s"
    and run_cons: "run (op # ops) s = Option.bind (step op s) (run ops)"
    and step_ok: "\<lbrakk>inv s; ok op\<rbrakk> \<Longrightarrow> \<exists>s'. step op s = Some s' \<and> inv s'
      \<and> (\<forall>x. tracked x \<longrightarrow> account s' x = account s x + (if gives op = Some x then 1 else 0))"
begin

lemma run_ok:
  "\<lbrakk>inv s; list_all ok ops\<rbrakk> \<Longrightarrow> \<exists>s'. run ops s = Some s' \<and> inv s'
     \<and> (\<forall>x. tracked x \<longrightarrow> account s' x = account s x + length (filter (\<lambda>op. gives op = Some x) ops))"
proof (induction ops arbitrary: s)
  case Nil
  then show ?case by (simp add: run_nil)
next
  case (Cons op ops)
  obtain t where t: "step op s = Some t" "inv t"
    "\<forall>x. tracked x \<longrightarrow> account t x = account s x + (if gives op = Some x then 1 else 0)"
    using step_ok [OF Cons.prems(1), of op] Cons.prems(2) by auto
  obtain s' where "run ops t = Some s'" "inv s'"
    "\<forall>x. tracked x \<longrightarrow> account s' x = account t x + length (filter (\<lambda>op. gives op = Some x) ops)"
    using Cons.IH [OF t(2)] Cons.prems(2) by auto
  then show ?case using t by (simp add: run_cons)
qed

end

text \<open>One step on one register.\<close>

lemma regs_set:
  assumes s: "regs_ok n s" and i: "i < n"
  shows "mem_ok q \<Longrightarrow> regs_ok n (k, (snd s)[i := q])"
    and "ledger q x = ledger (snd s ! i) x + d \<Longrightarrow> regs_ledger (k, (snd s)[i := q]) x = regs_ledger s x + d"
proof -
  have l: "i < length (snd s)" using s i by (simp add: regs_ok_def)
  show "regs_ok n (k, (snd s)[i := q])" if "mem_ok q"
    using s that by (auto simp: regs_ok_def list_all_iff dest!: set_update_subset_insert [THEN subsetD])
  have le: "ledger (snd s ! i) x \<le> sum_list (map (\<lambda>p. ledger p x) (snd s))"
    using l by (intro member_le_sum_list) auto
  have "sum_list (map (\<lambda>p. ledger p x) ((snd s)[i := q]))
      = sum_list (map (\<lambda>p. ledger p x) (snd s)) + ledger q x - ledger (snd s ! i) x"
    using l by (simp add: map_update sum_list_update)
  then show "regs_ledger (k, (snd s)[i := q]) x = regs_ledger s x + d" if "ledger q x = ledger (snd s ! i) x + d"
    using that le by (simp add: regs_ledger_def)
qed

definition moves_to :: "nat \<Rightarrow> cell_op \<Rightarrow> nat \<times> Mem list \<Rightarrow> (nat \<times> Mem list) option \<Rightarrow> bool" where
  "moves_to n op s t \<longleftrightarrow> (\<exists>s'. t = Some s' \<and> regs_ok n s'
     \<and> (\<forall>x. x \<noteq> XDynamic \<and> x \<noteq> XStatic \<and> x \<noteq> XTransient
          \<longrightarrow> regs_ledger s' x = regs_ledger s x + (if op_xdel op = Some x then 1 else 0)))"

lemma on_cell_moves:
  assumes s: "regs_ok n s" and i: "i < n" and f: "f (snd s ! i) = Some q" "mem_ok q"
    and l: "\<And>x. \<lbrakk>x \<noteq> XDynamic; x \<noteq> XStatic; x \<noteq> XTransient\<rbrakk>
      \<Longrightarrow> ledger q x = ledger (snd s ! i) x + (if op_xdel op = Some x then 1 else 0)"
  shows "moves_to n op s (on_cell i f s)"
proof -
  have "on_cell i f s = Some (fst s, (snd s)[i := q])" using s i f(1) by (simp add: on_cell_def regs_ok_def)
  moreover have "regs_ok n (fst s, (snd s)[i := q])" by (rule regs_set(1) [OF s i f(2)])
  ultimately show ?thesis unfolding moves_to_def
    using regs_set(2) [OF s i l] by auto
qed

lemma on_cell_rc_moves:
  assumes s: "regs_ok n s" and i: "i < n" and f: "f (fst s) (snd s ! i) = Some (rc, q, k)" "mem_ok q"
    and l: "\<And>x. \<lbrakk>x \<noteq> XDynamic; x \<noteq> XStatic; x \<noteq> XTransient\<rbrakk>
      \<Longrightarrow> ledger q x = ledger (snd s ! i) x + (if op_xdel op = Some x then 1 else 0)"
  shows "moves_to n op s (on_cell_rc i f s)"
proof -
  have "on_cell_rc i f s = Some (k, (snd s)[i := q])" using s i f(1) by (simp add: on_cell_rc_def regs_ok_def)
  moreover have "regs_ok n (k, (snd s)[i := q])" by (rule regs_set(1) [OF s i f(2)])
  ultimately show ?thesis unfolding moves_to_def
    using regs_set(2) [OF s i l] by auto
qed

lemma two_updates:
  fixes xs :: "nat list"
  assumes "i < length xs" "j < length xs" "i \<noteq> j"
  shows "sum_list (xs[i := a, j := b]) + (xs ! i + xs ! j) = sum_list xs + (a + b)"
proof -
  have one: "sum_list (ys[h := c]) + ys ! h = sum_list ys + c" if "h < length ys" for ys :: "nat list" and h c
    using that member_le_sum_list [of "ys ! h" ys] by (simp add: sum_list_update)
  show ?thesis using one [of i xs a] one [of j "xs[i := a]" b] assms by simp
qed

lemma set_str_moves:
  assumes s: "regs_ok n s" and i: "i < n" and A: "alloc_ok A" and L: "L < 2 ^ 31"
    and z: "case z of None \<Rightarrow> True | Some b \<Rightarrow> src_ok b m e x"
  shows "moves_to n (OSetStr i z m e x) s (on_cell_rc i (\<lambda>k p. sqlite3VdbeMemSetStr A k p L z m e x) s)"
proof -
  have p: "mem_ok (snd s ! i)" using s i by (auto simp: regs_ok_def list_all_length)
  show ?thesis
  proof (cases z)
    case None
    obtain q where q: "sqlite3VdbeMemSetNull (snd s ! i) = Some q" "mem_ok q" using set_null_mem_ok [OF p] by blast
    show ?thesis
      by (rule on_cell_rc_moves [OF s i, where q = q and rc = 0 and k = "fst s"])
        (use q ledger_set_null [OF q(1)] None in \<open>simp_all add: sqlite3VdbeMemSetStr_def\<close>)
  next
    case (Some b)
    then have src: "src_ok b m e x" using z by simp
    obtain rc q k where q: "sqlite3VdbeMemSetStr A (fst s) (snd s ! i) L (Some b) m e x = Some (rc, q, k)" "mem_ok q"
      using set_str_ok [OF p A src L, of "fst s"] by (auto simp: set_str_result_def)
    obtain n' f e' where f': "setstr_size b m e L = Some (n', f, e')" "f = (if m < 0 then 0x202 else if e = 0 then 0x10 else 2)"
      using setstr_size_ok [OF src, of L] by blast
    have f: "setstr_size b m e L = Some (n', f, e')" "\<not> isDyn f" using f' by (simp_all add: flag_upd)
    show ?thesis unfolding Some
      by (rule on_cell_rc_moves [OF s i, where q = q and rc = rc and k = k])
        (use q ledger_set_str [OF q(1) p _ _ _ f] in auto)
  qed
qed

lemma cell_step_moves:
  assumes s: "regs_ok n s" and A: "alloc_ok A" and L: "L < 2 ^ 31" and op: "op_ok n op"
  shows "moves_to n op s (cell_step A L op s)"
proof -
  have p: "mem_ok (snd s ! i)" if "i < n" for i using s that by (auto simp: regs_ok_def list_all_length)
  have ln: "length (snd s) = n" using s by (simp add: regs_ok_def)
  show ?thesis
  proof (cases op)
    case (OSetNull i)
    then have i: "i < n" using op by simp
    obtain q where q: "sqlite3VdbeMemSetNull (snd s ! i) = Some q" "mem_ok q" using set_null_mem_ok [OF p [OF i]] by blast
    have l: "ledger q = ledger (snd s ! i)" using ledger_set_null [OF q(1)] by simp
    show ?thesis unfolding OSetNull cell_step.simps by (rule on_cell_moves [OF s i _ q(2)]) (simp_all add: q(1) l)
  next
    case (OSetInt i v)
    then have i: "i < n" using op by simp
    obtain q where q: "sqlite3VdbeMemSetInt64 (snd s ! i) v = Some q" "mem_ok q" using set_int_ok [OF p [OF i]] by blast
    have l: "ledger q = ledger (snd s ! i)" using ledger_set_int [OF q(1)] by simp
    show ?thesis unfolding OSetInt cell_step.simps by (rule on_cell_moves [OF s i _ q(2)]) (simp_all add: q(1) l)
  next
    case (OSetZero i m)
    then have i: "i < n" using op by simp
    obtain q where q: "sqlite3VdbeMemSetZeroBlob (snd s ! i) m = Some q" "mem_ok q" using set_zero_ok [OF p [OF i]] by blast
    have l: "ledger q = ledger (snd s ! i)" using ledger_set_zero [OF q(1)] by simp
    show ?thesis unfolding OSetZero cell_step.simps by (rule on_cell_moves [OF s i _ q(2)]) (simp_all add: q(1) l)
  next
    case (OSetPointer i b t x)
    then have i: "i < n" and x: "x \<noteq> Some XStatic" using op by simp_all
    obtain q where q: "sqlite3VdbeMemSetPointer (snd s ! i) b t x = Some q" "mem_ok q"
      using set_pointer_ok [OF p [OF i] x] by blast
    show ?thesis unfolding OSetPointer cell_step.simps
      by (rule on_cell_moves [OF s i _ q(2)]) (simp_all add: q(1) ledger_set_pointer [OF q(1)] eq_commute)
  next
    case (OSetStr i z m e x)
    then show ?thesis using op set_str_moves [OF s _ A L] by simp
  next
    case (OChangeEncoding i e)
    then have i: "i < n" and e: "e \<in> {1, 2, 3}" using op by simp_all
    obtain rc q k where q: "sqlite3VdbeChangeEncoding A (fst s) (snd s ! i) e = Some (rc, q, k)" "mem_ok q" using change_encoding_ok [OF p [OF i] e A] by blast
    have l: "ledger q = ledger (snd s ! i)" by (rule ledger_change_enc [OF q(1)])
    show ?thesis unfolding OChangeEncoding cell_step.simps by (rule on_cell_rc_moves [OF s i _ q(2), where rc = rc and k = k]) (simp_all add: q(1) l)
  next
    case (OMakeWriteable i)
    then have i: "i < n" using op by simp_all
    obtain rc q k where q: "sqlite3VdbeMemMakeWriteable A (fst s) (snd s ! i) = Some (rc, q, k)" "mem_ok q" using make_writeable_mem_ok [OF p [OF i] A] by blast
    have l: "ledger q = ledger (snd s ! i)" by (rule ledger_writeable [OF q(1)])
    show ?thesis unfolding OMakeWriteable cell_step.simps by (rule on_cell_rc_moves [OF s i _ q(2), where rc = rc and k = k]) (simp_all add: q(1) l)
  next
    case (ONulTerminate i)
    then have i: "i < n" using op by simp_all
    obtain rc q k where q: "sqlite3VdbeMemNulTerminate A (fst s) (snd s ! i) = Some (rc, q, k)" "mem_ok q" using nul_terminate_mem_ok [OF p [OF i] A] by blast
    have l: "ledger q = ledger (snd s ! i)" by (rule ledger_nul [OF q(1)])
    show ?thesis unfolding ONulTerminate cell_step.simps by (rule on_cell_rc_moves [OF s i _ q(2), where rc = rc and k = k]) (simp_all add: q(1) l)
  next
    case (OZeroTerminate i)
    then have i: "i < n" using op by simp
    obtain q where q: "sqlite3VdbeMemZeroTerminateIfAble (snd s ! i) = Some q" "mem_ok q" using zero_terminate_ok [OF p [OF i]] keeps_def by blast
    have l: "ledger q = ledger (snd s ! i)" using ledger_zero_term [OF q(1)] by simp
    show ?thesis unfolding OZeroTerminate cell_step.simps by (rule on_cell_moves [OF s i _ q(2)]) (simp_all add: q(1) l)
  next
    case (OCopy i j)
    then have i: "i < n" and j: "j < n" using op by auto
    obtain rc q k where q: "sqlite3VdbeMemCopy A (fst s) (snd s ! i) (snd s ! j) = Some (rc, q, k)" "mem_ok q"
      using copy_ok [OF p [OF j] p [OF i] A, of "fst s"] nulled_ok keeps_def by blast
    have l: "ledger q = ledger (snd s ! i)" by (rule ledger_copy [OF q(1)])
    have "cell_step A L op s = on_cell_rc i (\<lambda>k p. sqlite3VdbeMemCopy A k p (snd s ! j)) s" using OCopy j ln by simp
    moreover have "moves_to n op s (on_cell_rc i (\<lambda>k p. sqlite3VdbeMemCopy A k p (snd s ! j)) s)"
      unfolding OCopy by (rule on_cell_rc_moves [OF s i _ q(2), where rc = rc and k = k]) (simp_all add: q(1) l)
    ultimately show ?thesis by simp
  next
    case (OMove i j)
    then have ij: "i < n" "j < n" "i \<noteq> j" using op by auto
    obtain u :: Mem where u: "sqlite3VdbeMemMove (snd s ! i) (snd s ! j)
        = Some ((snd s ! j)\<lparr>dels := dels u\<rparr>, (snd s ! j)\<lparr>flags := 1, szMalloc := 0\<rparr>)"
      using move_ok [OF p [OF ij(2)] p [OF ij(1)]] by blast
    define q r where "q = (snd s ! j)\<lparr>dels := dels u\<rparr>" and "r = (snd s ! j)\<lparr>flags := 1, szMalloc := 0\<rparr>"
    have qr: "mem_ok q" "mem_ok r" using p [OF ij(2)] by (auto simp: q_def r_def intro: null_ok)
    have l: "ledger q x + ledger r x = ledger (snd s ! i) x + ledger (snd s ! j) x" for x
      using ledger_move [OF u] by (simp add: q_def r_def)
    define t where "t = (fst s, (snd s)[i := q, j := r])"
    have "cell_step A L op s = Some t" using OMove ij ln u by (simp add: t_def q_def r_def)
    moreover have "regs_ok n t"
      using regs_set(1) [OF regs_set(1) [OF s ij(1) qr(1), of 0] ij(2) qr(2), of "fst s"] by (simp add: t_def)
    moreover have "regs_ledger t x = regs_ledger s x" for x
    proof -
      have "sum_list (map (\<lambda>p. ledger p x) ((snd s)[i := q, j := r])) + (ledger (snd s ! i) x + ledger (snd s ! j) x)
          = sum_list (map (\<lambda>p. ledger p x) (snd s)) + (ledger q x + ledger r x)"
        using two_updates [of i "map (\<lambda>p. ledger p x) (snd s)" j "ledger q x" "ledger r x"] ij ln by (simp add: map_update)
      then show ?thesis using l by (simp add: regs_ledger_def t_def)
    qed
    ultimately show ?thesis using OMove by (simp add: moves_to_def)
  qed
qed

interpretation cells: resource_machine "cell_step A L" "cell_run A L" "regs_ok n"
  "\<lambda>op. alloc_ok A \<and> L < 2 ^ 31 \<and> op_ok n op" regs_ledger op_xdel "\<lambda>x. x \<noteq> XDynamic \<and> x \<noteq> XStatic \<and> x \<noteq> XTransient"
  for A L n
  using cell_step_moves by unfold_locales (auto simp: moves_to_def)

lemma release_array_ok:
  assumes "list_all mem_ok rs"
  shows "\<exists>fs. releaseMemArray False rs = Some fs \<and> length fs = length rs
    \<and> list_all (\<lambda>p. szMalloc p = 0 \<and> \<not> VdbeMemDynamic p) fs
    \<and> (\<forall>x. sum_list (map (\<lambda>p. count_list (dels p) x) fs) = sum_list (map (\<lambda>p. ledger p x) rs))"
  using assms
proof (induction rs)
  case Nil
  then show ?case by simp
next
  case (Cons p rs)
  have p: "mem_ok p" using Cons.prems by simp
  obtain fs where fs: "releaseMemArray False rs = Some fs" "length fs = length rs"
    "list_all (\<lambda>p. szMalloc p = 0 \<and> \<not> VdbeMemDynamic p) fs"
    "\<forall>x. sum_list (map (\<lambda>p. count_list (dels p) x) fs) = sum_list (map (\<lambda>p. ledger p x) rs)"
    using Cons by auto
  have or: "(MEM_Agg OR MEM_Dyn :: u16) = 0x9000" by simp
  have agg: "\<not> isAgg (flags p)" using p by (simp add: mem_ok_def flag_base_def)
  have nd: "\<not> VdbeMemDynamic q" if "\<not> isDyn (flags q)" "\<not> isAgg (flags q)" for q
    using that by (simp add: VdbeMemDynamic_def flag_tests)
  have "\<exists>q. (if flags p AND (MEM_Agg OR MEM_Dyn) \<noteq> 0
              then map_option (\<lambda>p. p\<lparr>flags := MEM_Undefined\<rparr>) (sqlite3VdbeMemRelease p)
              else Some (if szMalloc p \<noteq> 0 then p\<lparr>zMalloc := [], szMalloc := 0, flags := MEM_Undefined\<rparr> else p)) = Some q
      \<and> szMalloc q = 0 \<and> \<not> VdbeMemDynamic q \<and> (\<forall>x. count_list (dels q) x = ledger p x)"
  proof (cases "isDyn (flags p)")
    case True
    obtain u where u: "sqlite3VdbeMemRelease p = Some u" "szMalloc u = 0" using release_ok [OF p] by blast
    have "count_list (dels u) x = ledger p x" for x
      using ledger_release [OF u(1)] by (auto simp: ledger_def fun_eq_iff)
    then show ?thesis using True u nd by (simp add: or flag_tests)
  next
    case False
    then have "count_list (dels p) x = ledger p x" for x by (simp add: ledger_def)
    then show ?thesis using False agg nd by (simp add: or flag_tests)
  qed
  then obtain q where q: "(if flags p AND (MEM_Agg OR MEM_Dyn) \<noteq> 0
              then map_option (\<lambda>p. p\<lparr>flags := MEM_Undefined\<rparr>) (sqlite3VdbeMemRelease p)
              else Some (if szMalloc p \<noteq> 0 then p\<lparr>zMalloc := [], szMalloc := 0, flags := MEM_Undefined\<rparr> else p)) = Some q"
      "szMalloc q = 0" "\<not> VdbeMemDynamic q" "\<forall>x. count_list (dels q) x = ledger p x" by blast
  have "releaseMemArray False (p # rs) = Some (q # fs)" unfolding releaseMemArray.simps q(1) by (simp add: fs(1))
  then show ?case using q fs by simp
qed

lemma init_regs_ok: "regs_ok (length cs) (k, initMemArray cs MEM_Null)"
  by (auto simp: regs_ok_def initMemArray_def list_all_iff intro!: null_ok)

lemma init_regs_ledger:
  "list_all (\<lambda>p. dels p = []) cs \<Longrightarrow> regs_ledger (k, initMemArray cs MEM_Null) x = 0"
  by (induction cs) (auto simp: regs_ledger_def initMemArray_def ledger_def flag_upd)

lemma history_ok:
  assumes "alloc_ok A" "L < 2 ^ 31" "list_all (op_ok (length cs)) ops"
  shows "\<exists>k' rs. cell_run A L ops (k, initMemArray cs MEM_Null) = Some (k', rs) \<and> length rs = length cs \<and> list_all mem_ok rs
    \<and> (\<forall>x. x \<noteq> XDynamic \<and> x \<noteq> XStatic \<and> x \<noteq> XTransient \<longrightarrow> sum_list (map (\<lambda>p. ledger p x) rs)
         = regs_ledger (k, initMemArray cs MEM_Null) x + length (filter (\<lambda>op. op_xdel op = Some x) ops))"
proof -
  have "list_all (\<lambda>op. alloc_ok A \<and> L < 2 ^ 31 \<and> op_ok (length cs) op) ops" using assms by (simp add: list_all_iff)
  from cells.run_ok [OF init_regs_ok [of cs k] this]
  obtain s where s: "cell_run A L ops (k, initMemArray cs MEM_Null) = Some s" "regs_ok (length cs) s"
    "\<forall>x. x \<noteq> XDynamic \<and> x \<noteq> XStatic \<and> x \<noteq> XTransient \<longrightarrow> regs_ledger s x
      = regs_ledger (k, initMemArray cs MEM_Null) x + length (filter (\<lambda>op. op_xdel op = Some x) ops)" by blast
  then show ?thesis by (cases s) (auto simp: regs_ok_def regs_ledger_def)
qed

subsection \<open>Properties\<close>

text \<open>C1: Every history of operations on an array of registers set up by \<open>initMemArray\<close> runs without a fault (no
  access out of bounds or through a null pointer), whatever allocations fail, and leaves every register with the
  invariants that \<open>sqlite3VdbeCheckMemInvariants\<close> asserts.\<close>

theorem cell_invariants:
  assumes "alloc_ok A" "L < 2 ^ 31" "list_all (op_ok (length cs)) ops"
  shows "\<exists>k' rs. cell_run A L ops (k, initMemArray cs MEM_Null) = Some (k', rs) \<and> length rs = length cs
    \<and> list_all sqlite3VdbeCheckMemInvariants rs"
  using history_ok [OF assms, of k] mem_ok_invariants by (fastforce simp: list_all_iff)

text \<open>C2: Every buffer that a history hands to the registers with a destructor is destroyed exactly once: after
  \<open>releaseMemArray\<close> the number of calls of each destructor is the number of operations that handed one over, failed
  ones included, and no register holds a buffer or owes a call.\<close>

theorem cell_destructors:
  assumes "alloc_ok A" "L < 2 ^ 31" "list_all (op_ok (length cs)) ops" "list_all (\<lambda>p. dels p = []) cs"
    "x \<noteq> XDynamic \<and> x \<noteq> XStatic \<and> x \<noteq> XTransient"
  shows "\<exists>k' rs fs. cell_run A L ops (k, initMemArray cs MEM_Null) = Some (k', rs) \<and> releaseMemArray False rs = Some fs
    \<and> list_all (\<lambda>p. szMalloc p = 0 \<and> \<not> VdbeMemDynamic p) fs
    \<and> sum_list (map (\<lambda>p. count_list (dels p) x) fs) = length (filter (\<lambda>op. op_xdel op = Some x) ops)"
proof -
  obtain k' rs where r: "cell_run A L ops (k, initMemArray cs MEM_Null) = Some (k', rs)" "list_all mem_ok rs"
    "sum_list (map (\<lambda>p. ledger p x) rs) = length (filter (\<lambda>op. op_xdel op = Some x) ops)"
    using history_ok [OF assms(1-3), of k] assms(5) init_regs_ledger [OF assms(4), of k x] by auto
  then show ?thesis using release_array_ok [OF r(2)] by auto
qed

text \<open>A cell as \<open>sqlite3VdbeMemInit\<close> leaves it, and an allocator that always succeeds, for the examples.\<close>

definition fresh_cell :: Mem where
  "fresh_cell = \<lparr>mu = U_i 0, mz = ZNull, mn = 0, flags = MEM_Null, enc = SQLITE_UTF8, eSubtype = 0, szMalloc = 0,
     zMalloc = [], xDel = XStatic, dels = []\<rparr>"

definition plenty :: alloc where
  "plenty = \<lparr>a_ok = (\<lambda>_. True), a_size = (\<lambda>m. m), a_junk = (\<lambda>_. 0)\<rparr>"

lemma plenty_ok: "alloc_ok plenty"
  by (simp add: alloc_ok_def plenty_def)

lemma fresh_ok: "mem_ok fresh_cell" "dels fresh_cell = []"
  by (auto simp: fresh_cell_def intro: null_ok)

definition sample_ops :: "cell_op list" where
  "sample_ops = [OSetStr 0 (Some [0x68, 0xC3, 0xA9]) 3 SQLITE_UTF8 (XOther 7), OCopy 1 0, OChangeEncoding 1 SQLITE_UTF16LE,
     OSetPointer 0 [] None None, OMove 0 1, OZeroTerminate 0, OSetZero 1 4, OMakeWriteable 1]"

lemma sample_ops_ok: "list_all (op_ok (length [fresh_cell, fresh_cell])) sample_ops"
  by (simp add: sample_ops_def src_ok_def)

theorem cell_invariants_witness:
  "\<exists>k' rs. cell_run plenty 1000000 sample_ops (0, initMemArray [fresh_cell, fresh_cell] MEM_Null) = Some (k', rs)
    \<and> length rs = length [fresh_cell, fresh_cell] \<and> list_all sqlite3VdbeCheckMemInvariants rs"
  by (rule cell_invariants [OF plenty_ok _ sample_ops_ok]) simp

theorem cell_destructors_witness:
  "\<exists>k' rs fs. cell_run plenty 1000000 sample_ops (0, initMemArray [fresh_cell, fresh_cell] MEM_Null) = Some (k', rs)
    \<and> releaseMemArray False rs = Some fs \<and> list_all (\<lambda>p. szMalloc p = 0 \<and> \<not> VdbeMemDynamic p) fs
    \<and> sum_list (map (\<lambda>p. count_list (dels p) (XOther 7)) fs) = length (filter (\<lambda>op. op_xdel op = Some (XOther 7)) sample_ops)"
  by (rule cell_destructors [OF plenty_ok _ sample_ops_ok]) (simp_all add: fresh_ok)

text \<open>C3: \<open>sqlite3VdbeMemSetStr\<close> stores exactly the bytes of the source, up to the given length or the first
  terminator of the encoding, without a byte order mark, which replaces the encoding. It fails with
  \<open>SQLITE_TOOBIG\<close> exactly when the source is longer than the limit, and with \<open>SQLITE_NOMEM\<close> only when an allocation
  fails; after a failure the cell is an SQL NULL.\<close>

theorem mem_set_str:
  assumes "mem_ok p" "alloc_ok A" "src_ok s m e x" "L < 2 ^ 31"
  shows "\<exists>rc q k'. sqlite3VdbeMemSetStr A k p L (Some s) m e x = Some (rc, q, k') \<and> mem_ok q
     \<and> (rc = SQLITE_TOOBIG \<longleftrightarrow> (\<forall>n. src_len s m e n \<longrightarrow> L < n))
     \<and> (rc = SQLITE_OK \<longrightarrow> (\<exists>n \<le> L. src_len s m e n \<and> (enc q, mem_bytes q) = stored s n e)
          \<and> (if e = 0 then isBlob (flags q) else isStr (flags q)))
     \<and> (rc \<noteq> SQLITE_OK \<longrightarrow> flags q = MEM_Null \<and> (rc = SQLITE_TOOBIG \<or> rc = SQLITE_NOMEM))
     \<and> ((\<forall>i. a_ok A i) \<longrightarrow> rc \<noteq> SQLITE_NOMEM)"
  using set_str_ok [OF assms, of k] by (simp add: set_str_result_def)

theorem mem_set_str_witness:
  "\<exists>rc q k'. sqlite3VdbeMemSetStr plenty 0 fresh_cell 100 (Some [0xFF, 0xFE, 0x68, 0, 0, 0]) (-1) SQLITE_UTF16BE XTransient
       = Some (rc, q, k') \<and> mem_ok q
     \<and> (rc = SQLITE_TOOBIG \<longleftrightarrow> (\<forall>n. src_len [0xFF, 0xFE, 0x68, 0, 0, 0] (-1) 3 n \<longrightarrow> 100 < n))
     \<and> (rc = SQLITE_OK \<longrightarrow> (\<exists>n \<le> 100. src_len [0xFF, 0xFE, 0x68, 0, 0, 0] (-1) 3 n
            \<and> (enc q, mem_bytes q) = stored [0xFF, 0xFE, 0x68, 0, 0, 0] n 3)
          \<and> (if (3 :: u8) = 0 then isBlob (flags q) else isStr (flags q)))
     \<and> (rc \<noteq> SQLITE_OK \<longrightarrow> flags q = MEM_Null \<and> (rc = SQLITE_TOOBIG \<or> rc = SQLITE_NOMEM))
     \<and> ((\<forall>i. a_ok plenty i) \<longrightarrow> rc \<noteq> SQLITE_NOMEM)"
proof (rule mem_set_str [OF fresh_ok(1) plenty_ok])
  have "term_at [0xFF, 0xFE, 0x68, 0, 0, 0] 4 3" by (simp add: term_at_def)
  then show "src_ok [0xFF, 0xFE, 0x68, 0, 0, 0] (-1) 3 XTransient"
    unfolding src_ok_def by (auto intro!: exI [of _ 4])
qed simp

text \<open>C4: \<open>sqlite3VdbeMemTranslate\<close> changes the encoding of a string and keeps its characters: a text in the old
  encoding becomes the same text in the new one. When it fails for lack of memory the cell is unchanged or null.\<close>

theorem mem_translate:
  assumes "mem_ok p" "isStr (flags p)" "d \<in> {1, 2, 3}" "d \<noteq> enc p" "alloc_ok A"
  shows "\<exists>rc q k'. sqlite3VdbeMemTranslate A k p d = Some (rc, q, k')
    \<and> (rc = SQLITE_OK \<and> mem_ok q \<and> enc q = d \<and> isStr (flags q)
         \<and> (\<forall>cs. list_all valid_cp cs \<and> mem_bytes p = text_enc (enc p) cs \<longrightarrow> mem_bytes q = text_enc d cs)
       \<or> rc = SQLITE_NOMEM \<and> (q = p \<or> nulled q)) \<and> (a_ok A k \<longrightarrow> rc = SQLITE_OK)"
  using translate_ok [OF assms, of k] by (simp add: translated_def)

definition sample_text :: Mem where
  "sample_text = fresh_cell\<lparr>mz := ZMalloc, zMalloc := [0x68, 0xC3, 0xA9, 0], szMalloc := 4, mn := 3, flags := 0x202\<rparr>"

lemma sample_text_ok: "mem_ok sample_text" "isStr (flags sample_text)" "enc sample_text = 1"
proof -
  have b: "flags sample_text = 0x202 OR 0" "mz sample_text = ZMalloc" "szMalloc sample_text = 4" "mn sample_text = 3"
    "zbytes sample_text = [0x68, 0xC3, 0xA9, 0]" "zMalloc sample_text = [0x68, 0xC3, 0xA9, 0]"
    by (simp_all add: sample_text_def zbytes_def)
  show e: "enc sample_text = 1" by (simp add: sample_text_def fresh_cell_def)
  show "mem_ok sample_text"
    by (rule new_cell_ok(1) [OF b(1)]) (simp_all add: b e terminated_def)
  show "isStr (flags sample_text)" by (simp add: b flag_upd)
qed

theorem mem_translate_witness:
  "\<exists>rc q k'. sqlite3VdbeMemTranslate plenty 0 sample_text 2 = Some (rc, q, k')
    \<and> (rc = SQLITE_OK \<and> mem_ok q \<and> enc q = 2 \<and> isStr (flags q)
         \<and> (\<forall>cs. list_all valid_cp cs \<and> mem_bytes sample_text = text_enc (enc sample_text) cs \<longrightarrow> mem_bytes q = text_enc 2 cs)
       \<or> rc = SQLITE_NOMEM \<and> (q = sample_text \<or> nulled q)) \<and> (a_ok plenty 0 \<longrightarrow> rc = SQLITE_OK)"
  by (rule mem_translate [OF sample_text_ok(1,2) _ _ plenty_ok]) (simp_all add: sample_text_ok)

text \<open>C14: \<open>sqlite3VdbeMemCopy\<close> gives the target the value of the source, NULLs, numbers, pointers, strings and blobs
  alike: the same bytes, number, subtype, encoding and kind, and no destructor to call. A string or blob that is not
  static is in the target's own buffer; of any other value every flag but \<open>MEM_Dyn\<close>, the length and what the pointer
  addresses are as in the source. \<open>SQLITE_NOMEM\<close> leaves the target an SQL NULL without a buffer, and does not occur if
  the allocation succeeds.\<close>

theorem mem_copy:
  assumes "mem_ok p" "mem_ok t" "alloc_ok A"
  shows "\<exists>rc q k'. sqlite3VdbeMemCopy A k t p = Some (rc, q, k')
    \<and> (rc = SQLITE_OK \<and> mem_ok q \<and> mem_bytes q = mem_bytes p \<and> enc q = enc p \<and> mu q = mu p \<and> eSubtype q = eSubtype p
         \<and> same_kind (flags q) (flags p) \<and> \<not> VdbeMemDynamic q
         \<and> (if (isStr (flags p) \<or> isBlob (flags p)) \<and> \<not> isStatic (flags p) then owned q
             else flags q = flags p AND NOT MEM_Dyn \<and> mn q = mn p \<and> zbytes q = zbytes p)
       \<or> rc = SQLITE_NOMEM \<and> nulled q) \<and> (a_ok A k \<longrightarrow> rc = SQLITE_OK)"
  using copy_ok [OF assms, of k] dynamic_iff unfolding keeps_def by metis

theorem mem_copy_witness:
  "\<exists>rc q k'. sqlite3VdbeMemCopy plenty 0 fresh_cell sample_text = Some (rc, q, k')
    \<and> (rc = SQLITE_OK \<and> mem_ok q \<and> mem_bytes q = mem_bytes sample_text \<and> enc q = enc sample_text
         \<and> mu q = mu sample_text \<and> eSubtype q = eSubtype sample_text
         \<and> same_kind (flags q) (flags sample_text) \<and> \<not> VdbeMemDynamic q
         \<and> (if (isStr (flags sample_text) \<or> isBlob (flags sample_text)) \<and> \<not> isStatic (flags sample_text) then owned q
             else flags q = flags sample_text AND NOT MEM_Dyn \<and> mn q = mn sample_text \<and> zbytes q = zbytes sample_text)
       \<or> rc = SQLITE_NOMEM \<and> nulled q) \<and> (a_ok plenty 0 \<longrightarrow> rc = SQLITE_OK)"
  by (rule mem_copy [OF sample_text_ok(1) fresh_ok(1) plenty_ok])

end
