(* ===== verification/Wal_Frame.thy ===== *)
theory Wal_Frame
  imports Varint
begin

text \<open>
  \<^verbatim>\<open>wal.c\<close>: checksums and frames of the write-ahead log, for a little-endian machine. A frame is its header of 24
  bytes and the page after it; the running checksum is part of the state of the log.
\<close>

unbundle bit_operations_syntax

subsection \<open>Checksums\<close>

definition BYTESWAP32 :: "u32 \<Rightarrow> u32" where
  "BYTESWAP32 x =
     push_bit 24 (x AND 0x000000FF) + push_bit 8 (x AND 0x0000FF00)
       + drop_bit 8 (x AND 0x00FF0000) + drop_bit 24 (x AND 0xFF000000)"

text \<open>The words that a pointer of type \<^verbatim>\<open>u32\<close> reads from the bytes.\<close>

fun words_le :: "u8 list \<Rightarrow> u32 list" where
  "words_le (a # b # c # d # p) =
     (ucast a OR push_bit 8 (ucast b) OR push_bit 16 (ucast c) OR push_bit 24 (ucast d)) # words_le p"
| "words_le _ = []"

type_synonym cksum = "u32 \<times> u32"

text \<open>The three loops, each with the test after the body; reading past the end gives \<open>None\<close>.\<close>

fun cksum_swapped :: "u32 list \<Rightarrow> u32 \<Rightarrow> u32 \<Rightarrow> cksum option" where
  "cksum_swapped (x0 # x1 # aData) s1 s2 =
     (let s1 = s1 + (BYTESWAP32 x0 + s2); s2 = s2 + (BYTESWAP32 x1 + s1) in
      if aData = [] then Some (s1, s2) else cksum_swapped aData s1 s2)"
| "cksum_swapped _ s1 s2 = None"

fun cksum_unrolled :: "u32 list \<Rightarrow> u32 \<Rightarrow> u32 \<Rightarrow> cksum option" where
  "cksum_unrolled (x0 # x1 # x2 # x3 # x4 # x5 # x6 # x7 # x8 # x9 # x10 # x11 # x12 # x13 # x14 # x15 # aData) s1 s2 =
     (let s1 = s1 + (x0 + s2); s2 = s2 + (x1 + s1); s1 = s1 + (x2 + s2); s2 = s2 + (x3 + s1);
          s1 = s1 + (x4 + s2); s2 = s2 + (x5 + s1); s1 = s1 + (x6 + s2); s2 = s2 + (x7 + s1);
          s1 = s1 + (x8 + s2); s2 = s2 + (x9 + s1); s1 = s1 + (x10 + s2); s2 = s2 + (x11 + s1);
          s1 = s1 + (x12 + s2); s2 = s2 + (x13 + s1); s1 = s1 + (x14 + s2); s2 = s2 + (x15 + s1) in
      if aData = [] then Some (s1, s2) else cksum_unrolled aData s1 s2)"
| "cksum_unrolled _ s1 s2 = None"

fun cksum_pairs :: "u32 list \<Rightarrow> u32 \<Rightarrow> u32 \<Rightarrow> cksum option" where
  "cksum_pairs (x0 # x1 # aData) s1 s2 =
     (let s1 = s1 + (x0 + s2); s2 = s2 + (x1 + s1) in
      if aData = [] then Some (s1, s2) else cksum_pairs aData s1 s2)"
| "cksum_pairs _ s1 s2 = None"

definition walChecksumBytes :: "bool \<Rightarrow> u8 list \<Rightarrow> nat \<Rightarrow> cksum option \<Rightarrow> cksum option" where
  "walChecksumBytes nativeCksum a nByte aIn = do {
     bs \<leftarrow> mem_get a 0 nByte;
     let (s1, s2) = (case aIn of Some s \<Rightarrow> s | None \<Rightarrow> (0, 0));
     let aData = words_le bs;
     if \<not> nativeCksum then cksum_swapped aData s1 s2
     else if nByte mod 64 = 0 then cksum_unrolled aData s1 s2
     else cksum_pairs aData s1 s2
   }"

subsection \<open>Frames\<close>

text \<open>The fields of the log that frames depend on; \<open>aSalt\<close> is the eight bytes of the array.\<close>

record Wal =
  aFrameCksum :: cksum
  aSalt :: "u8 list"
  bigEndCksum :: bool
  szPage :: nat
  iReCksum :: u32

definition walEncodeFrame :: "Wal \<Rightarrow> u32 \<Rightarrow> u32 \<Rightarrow> u8 list \<Rightarrow> (u8 list \<times> Wal) option" where
  "walEncodeFrame pWal iPage nTruncate aData =
     (let hd8 = sqlite3Put4byte iPage @ sqlite3Put4byte nTruncate in
      if iReCksum pWal = 0 then do {
        let nativeCksum = (bigEndCksum pWal = False);
        salt \<leftarrow> mem_get (aSalt pWal) 0 8;
        aCksum \<leftarrow> walChecksumBytes nativeCksum hd8 8 (Some (aFrameCksum pWal));
        aCksum \<leftarrow> walChecksumBytes nativeCksum aData (szPage pWal) (Some aCksum);
        Some (hd8 @ salt @ sqlite3Put4byte (fst aCksum) @ sqlite3Put4byte (snd aCksum), pWal\<lparr>aFrameCksum := aCksum\<rparr>)
      } else Some (hd8 @ replicate 16 0, pWal))"

definition walDecodeFrame :: "Wal \<Rightarrow> u8 list \<Rightarrow> u8 list \<Rightarrow> ((u32 \<times> u32) option \<times> Wal) option" where
  "walDecodeFrame pWal aData aFrame = do {
     salt \<leftarrow> mem_get aFrame 8 8;
     salt' \<leftarrow> mem_get (aSalt pWal) 0 8;
     if salt \<noteq> salt' then Some (None, pWal)
     else do {
       pgno \<leftarrow> sqlite3Get4byte aFrame;
       if pgno = 0 then Some (None, pWal)
       else do {
         let nativeCksum = (bigEndCksum pWal = False);
         aCksum \<leftarrow> walChecksumBytes nativeCksum aFrame 8 (Some (aFrameCksum pWal));
         aCksum \<leftarrow> walChecksumBytes nativeCksum aData (szPage pWal) (Some aCksum);
         let pWal = pWal\<lparr>aFrameCksum := aCksum\<rparr>;
         c0 \<leftarrow> sqlite3Get4byte (drop 16 aFrame);
         c1 \<leftarrow> sqlite3Get4byte (drop 20 aFrame);
         if fst aCksum \<noteq> c0 \<or> snd aCksum \<noteq> c1 then Some (None, pWal)
         else do {
           nTruncate \<leftarrow> sqlite3Get4byte (drop 4 aFrame);
           Some (Some (pgno, nTruncate), pWal)
         }
       }
     }
   }"

subsection \<open>The checksum as a sum\<close>

fun cksum :: "u32 list \<Rightarrow> cksum \<Rightarrow> cksum" where
  "cksum (x # y # w) (s1, s2) = (let s1 = s1 + (x + s2) in cksum w (s1, s2 + (y + s1)))"
| "cksum _ s = s"

lemma cksum_swapped_eq:
  "\<lbrakk>even (length w); w \<noteq> []\<rbrakk> \<Longrightarrow> cksum_swapped w s1 s2 = Some (cksum (map BYTESWAP32 w) (s1, s2))"
  by (induction w s1 s2 rule: cksum_swapped.induct) (auto simp: Let_def ac_simps)

lemma cksum_pairs_eq: "\<lbrakk>even (length w); w \<noteq> []\<rbrakk> \<Longrightarrow> cksum_pairs w s1 s2 = Some (cksum w (s1, s2))"
  by (induction w s1 s2 rule: cksum_pairs.induct) (auto simp: Let_def ac_simps)

lemma cksum_append: "even (length v) \<Longrightarrow> cksum (v @ w) s = cksum w (cksum v s)"
  by (induction v s rule: cksum.induct) (auto simp: Let_def)

lemma cksum_unrolled_eq:
  "\<lbrakk>length w mod 16 = 0; w \<noteq> []\<rbrakk> \<Longrightarrow> cksum_unrolled w s1 s2 = Some (cksum w (s1, s2))"
proof (induction "length w" arbitrary: w s1 s2 rule: less_induct)
  case less
  obtain v r where w: "w = v @ r" "length v = 16"
  proof
    show "w = take 16 w @ drop 16 w" by simp
    show "length (take 16 w) = 16" using less.prems by (cases "length w < 16") auto
  qed
  obtain x0 x1 x2 x3 x4 x5 x6 x7 x8 x9 x10 x11 x12 x13 x14 x15
    where v: "v = [x0, x1, x2, x3, x4, x5, x6, x7, x8, x9, x10, x11, x12, x13, x14, x15]"
    using w(2) by (auto simp: numeral_eq_Suc length_Suc_conv)
  have r: "length r mod 16 = 0" "length r < length w" using less.prems(1) w by simp_all
  obtain t1 t2 where t: "cksum v (s1, s2) = (t1, t2)" by fastforce
  have "cksum_unrolled w s1 s2 = (if r = [] then Some (t1, t2) else cksum_unrolled r t1 t2)"
    using t unfolding w(1) v append.simps cksum_unrolled.simps cksum.simps Let_def prod.inject by (elim conjE) (simp only:)
  moreover have "cksum w (s1, s2) = cksum r (t1, t2)" using w cksum_append [of v r] t by simp
  ultimately show ?case using less.hyps [OF r(2) r(1)] by (cases "r = []") simp_all
qed

lemma length_words_le: "length (words_le p) = length p div 4"
  by (induction p rule: words_le.induct) auto

text \<open>The checksum of a list of bytes, with the words in the order of the flag.\<close>

definition cksum_of :: "bool \<Rightarrow> u8 list \<Rightarrow> cksum \<Rightarrow> cksum" where
  "cksum_of native bs s = cksum (map (if native then (\<lambda>x. x) else BYTESWAP32) (words_le bs)) s"

lemma checksum_bytes:
  assumes "0 < m" "m mod 8 = 0" "m \<le> length a"
  shows "walChecksumBytes native a m (Some s) = Some (cksum_of native (take m a) s)"
proof -
  obtain s1 s2 where s: "s = (s1, s2)" by fastforce
  define w where "w = words_le (take m a)"
  have l: "length w = m div 4" using assms(3) by (simp add: w_def length_words_le)
  obtain q where q: "m = 8 * q" using assms(2) unfolding mod_eq_0_iff_dvd by (rule dvdE)
  have l2: "length w = 2 * q" unfolding l q by simp
  have w: "even (length w)" "w \<noteq> []" using l2 q assms(1) by auto
  have u: "length w mod 16 = 0" if m64: "m mod 64 = 0"
  proof -
    obtain r where "m = 64 * r" using m64 unfolding mod_eq_0_iff_dvd by (rule dvdE)
    then have "length w = 16 * r" unfolding l by simp
    then show ?thesis by simp
  qed
  show ?thesis
    using assms(3) cksum_swapped_eq [OF w] cksum_pairs_eq [OF w] cksum_unrolled_eq [OF u w(2)]
    by (simp add: walChecksumBytes_def mem_get_def s cksum_of_def w_def [symmetric])
qed

subsection \<open>What a change of the data does\<close>

lemma cksum_inj: "cksum w s = cksum w t \<Longrightarrow> s = t"
proof (induction w s arbitrary: t rule: cksum.induct)
  case (1 x y w s1 s2)
  obtain t1 t2 where t: "t = (t1, t2)" by fastforce
  have e: "(s1 + (x + s2), s2 + (y + (s1 + (x + s2)))) = (t1 + (x + t2), t2 + (y + (t1 + (x + t2))))"
    using 1(2) unfolding t cksum.simps Let_def by (rule 1(1) [OF refl])
  then have "s2 = t2" by (metis add_right_cancel prod.inject)
  then show ?case using e t by simp
qed simp_all

lemma cksum_pair_inj: "cksum [x, y] s = cksum [x', y'] s \<Longrightarrow> x = x' \<and> y = y'"
  by (cases s) (auto simp: Let_def)

lemma cksum_change:
  assumes "even (length u)" "cksum (u @ [x, y] @ w) s = cksum (u @ [x', y'] @ w) s"
  shows "x = x' \<and> y = y'"
proof -
  have "cksum w (cksum [x, y] (cksum u s)) = cksum w (cksum [x', y'] (cksum u s))"
    using assms cksum_append [of u] cksum_append [of "[x, y]" w] cksum_append [of "[x', y']" w] by simp
  then show ?thesis using cksum_inj cksum_pair_inj by blast
qed

lemma byteswap_or:
  "BYTESWAP32 x = push_bit 24 (x AND 0xFF) OR push_bit 8 (x AND 0xFF00) OR drop_bit 8 (x AND 0xFF0000)
     OR drop_bit 24 (x AND 0xFF000000)"
proof -
  have d: "a + b = a OR b" if "a AND b = 0" for a b :: u32 using that by (rule disjunctive_add_eq_or)
  have 1: "push_bit 24 (x AND 0xFF) AND push_bit 8 (x AND 0xFF00) = 0"
    unfolding word_eq_bits by (simp add: word_bits)
  have 2: "(push_bit 24 (x AND 0xFF) OR push_bit 8 (x AND 0xFF00)) AND drop_bit 8 (x AND 0xFF0000) = 0"
    unfolding word_eq_bits by (simp add: word_bits)
  have 3: "(push_bit 24 (x AND 0xFF) OR push_bit 8 (x AND 0xFF00) OR drop_bit 8 (x AND 0xFF0000)) AND drop_bit 24 (x AND 0xFF000000) = 0"
    unfolding word_eq_bits by (simp add: word_bits)
  show ?thesis unfolding BYTESWAP32_def d [OF 1] d [OF 2] using d [OF 3] by (simp add: or.assoc)
qed

lemma byteswap_twice: "BYTESWAP32 (BYTESWAP32 x) = x"
  unfolding byteswap_or word_eq_bits by (simp add: word_bits)

lemma byteswap_inj: "BYTESWAP32 x = BYTESWAP32 y \<Longrightarrow> x = y"
  by (metis byteswap_twice)

lemma words_le_append: "length u mod 4 = 0 \<Longrightarrow> words_le (u @ v) = words_le u @ words_le v"
proof (induction u rule: words_le.induct)
  case (1 a b c d p)
  then have "length p mod 4 = 0" by simp
  then show ?case using 1 by simp
qed (simp_all)

lemma words_le_word_inj:
  "(ucast a OR push_bit 8 (ucast b) OR push_bit 16 (ucast c) OR push_bit 24 (ucast d) :: u32)
     = ucast a' OR push_bit 8 (ucast b') OR push_bit 16 (ucast c') OR push_bit 24 (ucast d')
   \<Longrightarrow> a = a' \<and> b = b' \<and> c = c' \<and> d = d'" for a b c d a' b' c' d' :: u8
  unfolding word_eq_bits by (simp add: word_bits)

lemma list_8: "length p = 8 \<Longrightarrow> \<exists>a b c d e f g h. p = [a, b, c, d, e, f, g, h]"
  by (auto simp: numeral_eq_Suc length_Suc_conv)

lemma words_le_8: "length p = 8 \<Longrightarrow> \<exists>x y. words_le p = [x, y]"
  by (drule list_8) (elim exE, simp only: words_le.simps, blast)

lemma words_le_inj:
  assumes "length p = 8" "length q = 8" "words_le p = words_le q"
  shows "p = q"
proof -
  obtain a b c d e f g h where p: "p = [a, b, c, d, e, f, g, h]" using list_8 [OF assms(1)] by blast
  obtain a' b' c' d' e' f' g' h' where q: "q = [a', b', c', d', e', f', g', h']" using list_8 [OF assms(2)] by blast
  show ?thesis
    using assms(3) words_le_word_inj [of a b c d a' b' c' d'] words_le_word_inj [of e f g h e' f' g' h']
    unfolding p q words_le.simps list.inject by blast
qed

lemma cksum_of_change:
  assumes u: "length u mod 8 = 0" and p: "length p = 8" "length q = 8"
    and e: "cksum_of native (u @ p @ v) s = cksum_of native (u @ q @ v) s"
  shows "p = q"
proof -
  define f where "f = (if native then (\<lambda>x. x) else BYTESWAP32)"
  have f: "f x = f y \<Longrightarrow> x = y" for x y using byteswap_inj by (auto simp: f_def split: if_splits)
  obtain k where "length u = 8 * k" using u unfolding mod_eq_0_iff_dvd by (rule dvdE)
  then have u4: "length u mod 4 = 0" "even (length (words_le u))" by (simp_all add: length_words_le)
  obtain x y where x: "words_le p = [x, y]" using words_le_8 [OF p(1)] by blast
  obtain x' y' where x': "words_le q = [x', y']" using words_le_8 [OF p(2)] by blast
  have "cksum (map f (words_le u) @ [f x, f y] @ map f (words_le v)) s = cksum (map f (words_le u) @ [f x', f y'] @ map f (words_le v)) s"
    using e p x x' unfolding cksum_of_def f_def [symmetric] by (simp add: words_le_append u4(1))
  then have "f x = f x' \<and> f y = f y'" by (rule cksum_change [rotated]) (simp add: u4(2))
  then show ?thesis using words_le_inj [OF p] x x' f by metis
qed

subsection \<open>Frames of a log\<close>

definition wal_ok :: "Wal \<Rightarrow> bool" where
  "wal_ok w \<longleftrightarrow> length (aSalt w) = 8 \<and> 0 < szPage w \<and> szPage w mod 8 = 0"

definition same_log :: "Wal \<Rightarrow> Wal \<Rightarrow> bool" where
  "same_log w r \<longleftrightarrow> aFrameCksum r = aFrameCksum w \<and> aSalt r = aSalt w \<and> bigEndCksum r = bigEndCksum w \<and> szPage r = szPage w"

definition frame_cksum :: "Wal \<Rightarrow> u8 list \<Rightarrow> u8 list \<Rightarrow> cksum" where
  "frame_cksum w h d = cksum_of (\<not> bigEndCksum w) (take (szPage w) d) (cksum_of (\<not> bigEndCksum w) h (aFrameCksum w))"

lemma length_Put4byte [simp]: "length (sqlite3Put4byte v) = 4"
  by (simp add: sqlite3Put4byte_def)

lemma encode_frame:
  assumes w: "wal_ok w" and d: "szPage w \<le> length d" and r: "iReCksum w = 0"
  shows "walEncodeFrame w pg tr d =
    (let h = sqlite3Put4byte pg @ sqlite3Put4byte tr; c = frame_cksum w h d in
     Some (h @ aSalt w @ sqlite3Put4byte (fst c) @ sqlite3Put4byte (snd c), w\<lparr>aFrameCksum := c\<rparr>))"
  using assms
  by (simp add: walEncodeFrame_def wal_ok_def Let_def mem_get_def checksum_bytes frame_cksum_def)

lemma Get4byte_at: "length p = i \<Longrightarrow> sqlite3Get4byte (drop i (p @ sqlite3Put4byte v @ q)) = Some v"
  by (simp add: Get4byte_Put4byte)

lemma decode_frame:
  assumes w: "wal_ok w" and d: "szPage w \<le> length d" and f: "length f = 24"
  shows "walDecodeFrame w d f =
    (if take 8 (drop 8 f) \<noteq> aSalt w \<or> sqlite3Get4byte f = Some 0 then Some (None, w)
     else
       let c = frame_cksum w (take 8 f) d; w = w\<lparr>aFrameCksum := c\<rparr> in
       if Some (fst c) \<noteq> sqlite3Get4byte (drop 16 f) \<or> Some (snd c) \<noteq> sqlite3Get4byte (drop 20 f) then Some (None, w)
       else Some (Some (the (sqlite3Get4byte f), the (sqlite3Get4byte (drop 4 f))), w))"
proof -
  have g: "\<exists>v. sqlite3Get4byte p = Some v" if "4 \<le> length p" for p
    using that by (auto simp: sqlite3Get4byte_def rd_def)
  obtain v0 v4 v16 v20 where v: "sqlite3Get4byte f = Some v0" "sqlite3Get4byte (drop 4 f) = Some v4"
    "sqlite3Get4byte (drop 16 f) = Some v16" "sqlite3Get4byte (drop 20 f) = Some v20"
    using g [of f] g [of "drop 4 f"] g [of "drop 16 f"] g [of "drop 20 f"] f by auto
  have c: "walChecksumBytes n f 8 (Some s) = Some (cksum_of n (take 8 f) s)"
    "walChecksumBytes n d (szPage w) (Some s) = Some (cksum_of n (take (szPage w) d) s)" for n s
    using f w d by (simp_all add: checksum_bytes wal_ok_def)
  show ?thesis
    using w f by (simp add: walDecodeFrame_def mem_get_def wal_ok_def v c Let_def frame_cksum_def)
qed

lemma decode_encoded:
  assumes w: "wal_ok w" and s: "same_log w r" and d: "szPage w \<le> length d" and c: "iReCksum w = 0" and pg: "pg \<noteq> 0"
    and e: "walEncodeFrame w pg tr d = Some (f, w')" and d': "szPage w \<le> length d'"
  shows "\<exists>r'. walDecodeFrame r d' f =
      Some (if frame_cksum w (take 8 f) d' = frame_cksum w (take 8 f) d then Some (pg, tr) else None, r')
    \<and> (frame_cksum w (take 8 f) d' = frame_cksum w (take 8 f) d \<longrightarrow> same_log w' r')
    \<and> wal_ok w' \<and> szPage w' = szPage w \<and> iReCksum w' = 0"
proof -
  define h k where "h = sqlite3Put4byte pg @ sqlite3Put4byte tr" and "k = frame_cksum w h d"
  have f: "f = h @ aSalt w @ sqlite3Put4byte (fst k) @ sqlite3Put4byte (snd k)" and w': "w' = w\<lparr>aFrameCksum := k\<rparr>"
    using e encode_frame [OF w d c, of pg tr] by (simp_all add: Let_def h_def k_def)
  have lh: "length h = 8" and ls: "length (aSalt w) = 8" using w by (simp_all add: h_def wal_ok_def)
  have rok: "wal_ok r" "szPage r = szPage w" using w s by (simp_all add: wal_ok_def same_log_def)
  have fl: "length f = 24" using lh ls by (simp add: f)
  have fr: "frame_cksum r x y = frame_cksum w x y" for x y using s by (simp add: frame_cksum_def same_log_def)
  have g: "sqlite3Get4byte f = Some pg" "sqlite3Get4byte (drop 4 f) = Some tr"
    "sqlite3Get4byte (drop 16 f) = Some (fst k)" "sqlite3Get4byte (drop 20 f) = Some (snd k)"
    "take 8 f = h" "take 8 (drop 8 f) = aSalt r"
    using lh ls Get4byte_Put4byte Get4byte_Put4byte [of _ "[]"] s by (simp_all add: f h_def same_log_def)
  have "walDecodeFrame r d' f = Some (if frame_cksum w h d' = k then Some (pg, tr) else None, r\<lparr>aFrameCksum := frame_cksum w h d'\<rparr>)"
    using decode_frame [OF rok(1) _ fl, of d'] rok(2) d' pg by (auto simp: g fr Let_def prod_eq_iff)
  then show ?thesis using s w c unfolding g(5) k_def [symmetric] w' by (auto simp: same_log_def wal_ok_def)
qed

text \<open>A log written frame by frame, and read back until a frame is not valid, as recovery does.\<close>

fun write_log :: "Wal \<Rightarrow> (u32 \<times> u32 \<times> u8 list) list \<Rightarrow> ((u8 list \<times> u8 list) list \<times> Wal) option" where
  "write_log w [] = Some ([], w)"
| "write_log w ((pg, tr, d) # ps) = do {
     (f, w) \<leftarrow> walEncodeFrame w pg tr d;
     (fs, w) \<leftarrow> write_log w ps;
     Some ((f, d) # fs, w)
   }"

fun read_log :: "Wal \<Rightarrow> (u8 list \<times> u8 list) list \<Rightarrow> ((u32 \<times> u32) list \<times> Wal) option" where
  "read_log w [] = Some ([], w)"
| "read_log w ((f, d) # fs) = do {
     (res, w) \<leftarrow> walDecodeFrame w d f;
     case res of
       None \<Rightarrow> Some ([], w)
     | Some x \<Rightarrow> do { (xs, w) \<leftarrow> read_log w fs; Some (x # xs, w) }
   }"

definition page_ok :: "Wal \<Rightarrow> u32 \<times> u32 \<times> u8 list \<Rightarrow> bool" where
  "page_ok w = (\<lambda>(pg, tr, d). pg \<noteq> 0 \<and> length d = szPage w)"

lemma page_ok_size: "szPage w' = szPage w \<Longrightarrow> page_ok w' = page_ok w"
  by (simp add: page_ok_def)

lemma log_written:
  assumes "wal_ok w" "iReCksum w = 0" "same_log w r" "list_all (page_ok w) ps"
  shows "\<exists>fs w' r'. write_log w ps = Some (fs, w') \<and> length fs = length ps
    \<and> (\<forall>gs. read_log r (fs @ gs) = map_option (\<lambda>(xs, v). (map (\<lambda>(pg, tr, d). (pg, tr)) ps @ xs, v)) (read_log r' gs))
    \<and> same_log w' r' \<and> wal_ok w' \<and> iReCksum w' = 0 \<and> szPage w' = szPage w"
  using assms
proof (induction ps arbitrary: w r)
  case Nil
  then show ?case by (auto simp: option.map_ident_strong split_beta')
next
  case (Cons p ps)
  obtain pg tr d where p: "p = (pg, tr, d)" by (cases p) auto
  have d: "pg \<noteq> 0" "length d = szPage w" using Cons.prems(4) by (simp_all add: p page_ok_def)
  obtain f w1 where e: "walEncodeFrame w pg tr d = Some (f, w1)"
    using encode_frame [OF Cons.prems(1) _ Cons.prems(2), of d pg tr] d by (simp add: Let_def)
  obtain r1 where r1: "walDecodeFrame r d f = Some (Some (pg, tr), r1)" "same_log w1 r1" "wal_ok w1" "szPage w1 = szPage w" "iReCksum w1 = 0"
    using decode_encoded [OF Cons.prems(1,3) _ Cons.prems(2) d(1) e, of d] d(2) by auto
  have "list_all (page_ok w1) ps" using Cons.prems(4) page_ok_size [OF r1(4)] by simp
  then obtain fs w' r' where i: "write_log w1 ps = Some (fs, w')" "length fs = length ps"
    "\<forall>gs. read_log r1 (fs @ gs) = map_option (\<lambda>(xs, v). (map (\<lambda>(pg, tr, d). (pg, tr)) ps @ xs, v)) (read_log r' gs)"
    "same_log w' r'" "wal_ok w'" "iReCksum w' = 0" "szPage w' = szPage w1"
    using Cons.IH [OF r1(3,5,2)] by blast
  have "read_log r (((f, d) # fs) @ gs) = map_option (\<lambda>(xs, v). (map (\<lambda>(pg, tr, d). (pg, tr)) (p # ps) @ xs, v)) (read_log r' gs)" for gs
    using r1(1) i(3) by (cases "read_log r' gs") (auto simp: p)
  moreover have "write_log w (p # ps) = Some ((f, d) # fs, w')" using e i(1) by (simp add: p)
  ultimately show ?case using i(2,4-7) r1(4) by (intro exI [of _ "(f, d) # fs"] exI [of _ w'] exI [of _ r']) simp
qed

lemma write_log_snoc:
  "\<lbrakk>write_log w ps = Some (fs, w1); walEncodeFrame w1 pg tr d = Some (f, w')\<rbrakk>
   \<Longrightarrow> write_log w (ps @ [(pg, tr, d)]) = Some (fs @ [(f, d)], w')"
  by (induction w ps arbitrary: fs rule: write_log.induct) (auto simp: bind_eq_Some_conv)

text \<open>C5: A log written with \<open>walEncodeFrame\<close>, with checksums (\<open>iReCksum\<close> zero), and read with \<open>walDecodeFrame\<close> from the same header gives back the page
  number and the database size of every frame, in order, with the same running checksum at the end.\<close>

theorem wal_log_roundtrip:
  assumes "wal_ok w" "iReCksum w = 0" "same_log w r" "list_all (page_ok w) ps"
  shows "\<exists>fs w' r'. write_log w ps = Some (fs, w') \<and> read_log r fs = Some (map (\<lambda>(pg, tr, d). (pg, tr)) ps, r')
    \<and> aFrameCksum r' = aFrameCksum w'"
proof -
  obtain fs w' r' where l: "write_log w ps = Some (fs, w')"
    "\<forall>gs. read_log r (fs @ gs) = map_option (\<lambda>(xs, v). (map (\<lambda>(pg, tr, d). (pg, tr)) ps @ xs, v)) (read_log r' gs)"
    "same_log w' r'" using log_written [OF assms] by blast
  have "read_log r fs = Some (map (\<lambda>(pg, tr, d). (pg, tr)) ps, r')" using l(2) [rule_format, of "[]"] by simp
  then show ?thesis using l(1,3) by (auto simp: same_log_def)
qed

text \<open>C6: Damage to one aligned group of eight bytes in the page of a frame is always detected: reading the log stops
  before that frame and gives exactly the frames before it, whatever follows.\<close>

theorem wal_damage_detected:
  assumes "wal_ok w" "iReCksum w = 0" "same_log w r" "list_all (page_ok w) (ps @ [(pg, tr, u @ a @ v)])"
    "length u mod 8 = 0" "length a = 8" "length b = 8" "a \<noteq> b"
  shows "\<exists>fs f w'. write_log w (ps @ [(pg, tr, u @ a @ v)]) = Some (fs @ [(f, u @ a @ v)], w') \<and> length fs = length ps
    \<and> (\<forall>gs. \<exists>r'. read_log r (fs @ (f, u @ b @ v) # gs) = Some (map (\<lambda>(pg, tr, d). (pg, tr)) ps, r'))"
proof -
  have ps: "list_all (page_ok w) ps" and pg: "pg \<noteq> 0" "length (u @ a @ v) = szPage w" using assms(4) by (simp_all add: page_ok_def)
  obtain fs w1 r1 where l: "write_log w ps = Some (fs, w1)" "length fs = length ps"
    "\<forall>gs. read_log r (fs @ gs) = map_option (\<lambda>(xs, v). (map (\<lambda>(pg, tr, d). (pg, tr)) ps @ xs, v)) (read_log r1 gs)"
    "same_log w1 r1" "wal_ok w1" "iReCksum w1 = 0" "szPage w1 = szPage w"
    using log_written [OF assms(1-3) ps] by blast
  obtain f w' where e: "walEncodeFrame w1 pg tr (u @ a @ v) = Some (f, w')"
    using encode_frame [OF l(5) _ l(6), of "u @ a @ v" pg tr] pg(2) l(7) by (simp add: Let_def)
  have "frame_cksum w1 h (u @ b @ v) \<noteq> frame_cksum w1 h (u @ a @ v)" for h
  proof
    assume eq: "frame_cksum w1 h (u @ b @ v) = frame_cksum w1 h (u @ a @ v)"
    have "take (szPage w1) (u @ b @ v) = u @ b @ v" "take (szPage w1) (u @ a @ v) = u @ a @ v"
      using pg(2) l(7) assms(6,7) by simp_all
    then have "cksum_of (\<not> bigEndCksum w1) (u @ b @ v) (cksum_of (\<not> bigEndCksum w1) h (aFrameCksum w1))
        = cksum_of (\<not> bigEndCksum w1) (u @ a @ v) (cksum_of (\<not> bigEndCksum w1) h (aFrameCksum w1))"
      using eq unfolding frame_cksum_def by (simp only:)
    then have "b = a" by (rule cksum_of_change [OF assms(5,7,6)])
    then show False using assms(8) by simp
  qed
  then obtain r2 where r2: "walDecodeFrame r1 (u @ b @ v) f = Some (None, r2)"
    using decode_encoded [OF l(5,4) _ l(6) pg(1) e, of "u @ b @ v"] pg(2) l(7) assms(6,7) by auto
  have "read_log r (fs @ (f, u @ b @ v) # gs) = Some (map (\<lambda>(pg, tr, d). (pg, tr)) ps, r2)" for gs
    using l(3) r2 by simp
  moreover have "write_log w (ps @ [(pg, tr, u @ a @ v)]) = Some (fs @ [(f, u @ a @ v)], w')"
    using l(1) e by (rule write_log_snoc)
  ultimately show ?thesis using l(2) by blast
qed

definition sample_wal :: Wal where
  "sample_wal = \<lparr>aFrameCksum = (3, 5), aSalt = [1, 2, 3, 4, 5, 6, 7, 8], bigEndCksum = True, szPage = 512, iReCksum = 0\<rparr>"

lemma sample_wal_ok: "wal_ok sample_wal" "iReCksum sample_wal = 0" "same_log sample_wal sample_wal"
  by (simp_all add: sample_wal_def wal_ok_def same_log_def)

theorem wal_log_roundtrip_witness:
  "\<exists>fs w' r'. write_log sample_wal [(2, 0, replicate 512 7), (1, 2, replicate 512 9)] = Some (fs, w')
    \<and> read_log sample_wal fs = Some (map (\<lambda>(pg, tr, d). (pg, tr)) [(2, 0, replicate 512 (7 :: u8)), (1, 2, replicate 512 9)], r')
    \<and> aFrameCksum r' = aFrameCksum w'"
  by (rule wal_log_roundtrip [OF sample_wal_ok]) (simp add: page_ok_def sample_wal_def)

theorem wal_damage_detected_witness:
  "\<exists>fs f w'. write_log sample_wal ([(2, 0, replicate 512 7)] @ [(1, 2, replicate 16 9 @ [1, 2, 3, 4, 5, 6, 7, 8] @ replicate 488 9)])
       = Some (fs @ [(f, replicate 16 9 @ [1, 2, 3, 4, 5, 6, 7, 8] @ replicate 488 9)], w')
    \<and> length fs = length [(2 :: u32, 0 :: u32, replicate 512 (7 :: u8))]
    \<and> (\<forall>gs. \<exists>r'. read_log sample_wal (fs @ (f, replicate 16 9 @ [1, 2, 3, 0, 5, 6, 7, 8] @ replicate 488 9) # gs)
          = Some (map (\<lambda>(pg, tr, d). (pg, tr)) [(2, 0, replicate 512 (7 :: u8))], r'))"
  by (rule wal_damage_detected [OF sample_wal_ok]) (simp_all add: page_ok_def sample_wal_def)

end
