(* ===== verification/Spec2Isabelle.thy ===== *)
theory Spec2Isabelle
  imports Varint Bitvec Mem_Db Mem_Journal Row_Set Str_Util Int_Arith Int_Text Hash_Table Sql_Complete Mem_Regs Wal_Frame
begin

text \<open>
  A model of the storage and utility core of the SQLite 3.51.3 amalgamation that the gateway bundles
  (\<^verbatim>\<open>src/internal/store/sqlite3.c\<close>), with the theorems that make each part correct. All source names below are
  names of that file; the parts are named after the SQLite files it was put together from.

  \<^bold>\<open>The parts and how they interact.\<close> The bytecode engine of SQLite keeps values in memory cells (\<^verbatim>\<open>vdbemem.c\<close>)
  whose text is read, written and translated by \<^verbatim>\<open>utf.c\<close>. Rows and page numbers are stored as variable-length
  integers (\<^verbatim>\<open>util.c\<close>). The pager remembers pages in bitmaps (\<^verbatim>\<open>bitvec.c\<close>), writes a rollback journal that may live in
  memory (\<^verbatim>\<open>memjournal.c\<close>) or frames of a write-ahead log (\<^verbatim>\<open>wal.c\<close>), and may run on an in-memory file system
  (\<^verbatim>\<open>memdb.c\<close>). Queries collect rowids in row sets (\<^verbatim>\<open>rowset.c\<close>). The compiler looks names up in hash tables
  (\<^verbatim>\<open>hash.c\<close>) with the character tables of \<^verbatim>\<open>global.c\<close>, reads numbers and quoted names with \<^verbatim>\<open>util.c\<close>, estimates costs
  with logarithms (\<^verbatim>\<open>util.c\<close>), and the shell asks whether a text is a complete statement (\<^verbatim>\<open>complete.c\<close>).

  \<^bold>\<open>Conventions.\<close> Definitions keep the names of the functions they translate; a loop of a function is a recursive
  function of its own, called where the loop stands. Integers are words of their width where wrap-around matters, and
  otherwise \<open>int\<close> or \<open>nat\<close>. Memory is a list of bytes or words, and a result \<open>None\<close> stands for behaviour that C does
  not define: an access outside an allocation or through a null or dangling pointer, and a signed overflow. A theorem
  that a call gives \<open>Some\<close> therefore also says that it returns and is memory safe. Allocators are oracles: entry \<open>k\<close>
  says whether request number \<open>k\<close> succeeds, calls thread the number of the next request, and new memory holds arbitrary
  bytes \<open>junk\<close>. A theorem that assumes that no allocation fails says so (\<open>all_ok\<close>, or the constant oracle).

  \<^bold>\<open>Theories.\<close>
  \<^item> \<open>Sqlite_Prelude\<close>: word types, result codes, bounded reads and writes, the allocation oracle, lemmas on words and
    lists, and the locale \<open>codec\<close> of encoders with a decoder.
  \<^item> \<open>Char_Class\<close>: the tables \<open>sqlite3UpperToLower\<close> and \<open>sqlite3CtypeMap\<close> and the macros that read them.
  \<^item> \<open>Varint\<close>: \<open>sqlite3PutVarint\<close>, \<open>sqlite3GetVarint\<close>, \<open>sqlite3GetVarint32\<close>, \<open>sqlite3VarintLen\<close>, \<open>sqlite3Get4byte\<close>,
    \<open>sqlite3Put4byte\<close>. The unrolled reader equals the reader of one byte at a time; reading inverts writing.
    Both pairs interpret \<open>codec\<close>.
  \<^item> \<open>Bitvec\<close>: creation, set, test and clear in the three representations. Every operation on a well-formed bitmap
    returns and changes one bit of the abstract set; histories refine a bounded set (locale \<open>bounded_set\<close>).
  \<^item> \<open>Byte_File\<close>: the locale \<open>byte_file\<close>, the part of \<^verbatim>\<open>sqlite3_io_methods\<close> that a journal relies on, with playback proved
    once; \<open>reliable_byte_file\<close> extends it with appends that cannot fail.
  \<^item> \<open>Mem_Db\<close>: the methods of the in-memory VFS on one store (a \<open>byte_file\<close>), and a step relation over all
    interleavings of open, close, lock, unlock and data calls: mutual exclusion and no dangling store.
  \<^item> \<open>Mem_Journal\<close>: the chunk chain with its two cursors (a \<open>byte_file\<close>), and the move to a real file, whose open and
    write methods are parameters.
  \<^item> \<open>Row_Set\<close>: batches of inserts and tests, extraction, tree depth and the release of all memory.
  \<^item> \<open>Wal_Frame\<close>: checksums in both byte orders (for a little-endian machine), and frames: reading inverts writing, and
    damage inside one group of eight bytes is detected.
  \<^item> \<open>Str_Util\<close>, \<open>Int_Arith\<close>, \<open>Int_Text\<close>: names and quotes; overflow-checked arithmetic and logarithmic estimates;
    printing and parsing of integers, digit separators and hexadecimal blobs.
  \<^item> \<open>Hash_Table\<close>: the table on an explicit heap of linked elements refines a map over case-folded names
    (locale \<open>name_map\<close>).
  \<^item> \<open>Sql_Complete\<close>: the state machine accepts exactly the texts of a declarative grammar of statements.
  \<^item> \<open>Utf\<close>, \<open>Mem_Cell\<close>, \<open>Mem_Text\<close>, \<open>Mem_Regs\<close>: characters and translation loops; cells with the invariant of
    \<open>sqlite3VdbeCheckMemInvariants\<close> and every operation that keeps it; translation and storing of strings; copies,
    arrays of registers and histories of operations. Locale \<open>resource_machine\<close> carries an invariant and an account of
    owned resources over a history; the cells interpret it.

  \<^bold>\<open>Bounds and fuel.\<close> The bitmap operations descend with fuel 9: a tree over a 32-bit size has at most six levels, and
  the theorems show that the fuel does not run out. The sort of a row set has 40 buckets, so its theorems are about
  fewer than \<open>2 ^ 40\<close> entries. The unsigned counters of a hash table are natural numbers, exact below \<open>2 ^ 32\<close> entries.
  Sums of file offsets in \<open>Mem_Db\<close> are undefined from \<open>2 ^ 63\<close> on, as in C; writes are proved to be defined below
  \<open>2 ^ 62\<close>, where the doubling of the allocation does not overflow either. All other loops recurse on their data or
  have a termination proof.

  \<^bold>\<open>Not modelled.\<close> The finalizer of aggregate cells, floating point, the pager and B-tree, the bytecode engine and
  the SQL compiler, the locking protocol and the shared index of the log, the operating system interface, and the Go
  code of the gateway. Compiler builtins for overflow are stated by their documentation. The properties C1, C2, \<dots> stand
  in the theories of their components.
\<close>

end
